(* ===== verification/Prelude.thy ===== *)
theory Prelude
  imports Main "HOL-Library.Word" "HOL-Library.Multiset"
begin

text \<open>
  Shared vocabulary of the development.
  \<^item> The names of Rust's fixed-width types, the wrap-around of \<open>i64\<close> arithmetic in the release
    profile, and panics as values: a computation that may panic has type \<open>'a res\<close>.
  \<^item> \<open>HashMap\<close> as an association list with distinct keys (its iteration order is the list's
    order, and no property depends on it) and \<open>BTreeMap\<close> as a strictly sorted one, with the
    entry operation the code uses on both.
  \<^item> Two interfaces: \<open>entry_map\<close>, what a client may rely on when it folds updates through
    \<open>entry\<close>, and \<open>sketch\<close>, what a client may rely on when it inserts and merges.
\<close>

section \<open>Machine integers, panics\<close>

type_synonym u8 = "8 word"
type_synonym u32 = "32 word"
type_synonym u64 = "64 word"
type_synonym uuid = "128 word"

text \<open>\<open>i64\<close>, \<open>i32\<close> and \<open>i16\<close> values are integers of the named range; where the code adds to an
  \<open>i64\<close> the two's complement wrap-around of the release profile is written out.\<close>

type_synonym i64 = int
type_synonym i32 = int
type_synonym i16 = int

definition wrap_i64 :: "int \<Rightarrow> i64" where
  "wrap_i64 x = (x + 2 ^ 63) mod 2 ^ 64 - 2 ^ 63"

definition in_i64 :: "int \<Rightarrow> bool" where
  "in_i64 x \<longleftrightarrow> - (2 ^ 63) \<le> x \<and> x < 2 ^ 63"

text \<open>The casts \<open>x as i64\<close> of a \<open>u64\<close> or \<open>usize\<close>, and \<open>x as u64\<close> of an \<open>i64\<close>.\<close>

definition u64_as_i64 :: "u64 \<Rightarrow> i64" where
  "u64_as_i64 w = sint w"

definition usize_as_i64 :: "nat \<Rightarrow> i64" where
  "usize_as_i64 n = wrap_i64 (int n)"

definition i64_as_u64 :: "i64 \<Rightarrow> u64" where
  "i64_as_u64 x = word_of_int x"

text \<open>A panic carries the message of the \<open>expect\<close>, \<open>assert\<close> or index check that raised it.\<close>

datatype panic =
    ExpectFailed string
  | AssertionFailed string
  | UnwrapNone
  | IndexOutOfBounds
  | PanicMessage string

type_synonym 'a res = "panic + 'a"

fun fold_res :: "('x \<Rightarrow> 's \<Rightarrow> 'e + 's) \<Rightarrow> 'x list \<Rightarrow> 's \<Rightarrow> 'e + 's" where
  "fold_res f [] s = Inr s"
| "fold_res f (x # xs) s = (case f x s of Inl e \<Rightarrow> Inl e | Inr s' \<Rightarrow> fold_res f xs s')"

section \<open>Hash maps and ordered maps\<close>

text \<open>\<open>al_alter k f m\<close> is \<open>m.entry(k)\<close> followed by writing \<open>f\<close> of what was there.\<close>

fun al_alter :: "'k \<Rightarrow> ('v option \<Rightarrow> 'v) \<Rightarrow> ('k \<times> 'v) list \<Rightarrow> ('k \<times> 'v) list" where
  "al_alter k f [] = [(k, f None)]"
| "al_alter k f ((k', v) # m) =
     (if k = k' then (k, f (Some v)) # m else (k', v) # al_alter k f m)"

definition al_put :: "'k \<Rightarrow> 'v \<Rightarrow> ('k \<times> 'v) list \<Rightarrow> ('k \<times> 'v) list" where
  "al_put k v = al_alter k (\<lambda>_. v)"

definition al_remove :: "'k \<Rightarrow> ('k \<times> 'v) list \<Rightarrow> ('k \<times> 'v) list" where
  "al_remove k m = filter (\<lambda>kv. fst kv \<noteq> k) m"

definition al_inv :: "('k \<times> 'v) list \<Rightarrow> bool" where
  "al_inv m \<longleftrightarrow> distinct (map fst m)"

fun bt_alter :: "'k::linorder \<Rightarrow> ('v option \<Rightarrow> 'v) \<Rightarrow> ('k \<times> 'v) list \<Rightarrow> ('k \<times> 'v) list" where
  "bt_alter k f [] = [(k, f None)]"
| "bt_alter k f ((k', v) # m) =
     (if k < k' then (k, f None) # (k', v) # m
      else if k = k' then (k, f (Some v)) # m
      else (k', v) # bt_alter k f m)"

definition bt_put :: "'k::linorder \<Rightarrow> 'v \<Rightarrow> ('k \<times> 'v) list \<Rightarrow> ('k \<times> 'v) list" where
  "bt_put k v = bt_alter k (\<lambda>_. v)"

definition bt_inv :: "('k::linorder \<times> 'v) list \<Rightarrow> bool" where
  "bt_inv m \<longleftrightarrow> sorted_wrt (<) (map fst m)"

text \<open>Decimal digits, as \<open>Display\<close> prints an unsigned integer.\<close>

fun show_nat :: "nat \<Rightarrow> string" where
  "show_nat n = (if n < 10 then [char_of (48 + n)] else show_nat (n div 10) @ [char_of (48 + n mod 10)])"

declare show_nat.simps [simp del]

section \<open>Interfaces\<close>

text \<open>
  A client that pushes a stream of items through \<open>entry\<close> (the aggregator's windows and cells,
  the load generator's truth table, the query API's grouping) relies on two laws only. What it
  gets back for a key is then the fold of the items that carry that key.
\<close>

locale entry_map =
  fixes lookup :: "'m \<Rightarrow> 'k \<Rightarrow> 'v option"
    and alter :: "'k \<Rightarrow> ('v option \<Rightarrow> 'v) \<Rightarrow> 'm \<Rightarrow> 'm"
    and invar :: "'m \<Rightarrow> bool"
  assumes lookup_alter: "invar m \<Longrightarrow> lookup (alter k f m) = (lookup m)(k \<mapsto> f (lookup m k))"
    and invar_alter: "invar m \<Longrightarrow> invar (alter k f m)"
begin

lemma invar_fold: "invar m \<Longrightarrow> invar (fold (\<lambda>x. alter (key x) (upd x)) xs m)"
  by (induction xs arbitrary: m) (simp_all add: invar_alter)

lemma lookup_fold:
  "invar m \<Longrightarrow>
   lookup (fold (\<lambda>x. alter (key x) (upd x)) xs m) k =
   fold (\<lambda>x v. Some (upd x v)) (filter (\<lambda>x. key x = k) xs) (lookup m k)"
  by (induction xs arbitrary: m) (simp_all add: lookup_alter invar_alter)

lemma lookup_fold_missing:
  "invar m \<Longrightarrow> k \<notin> key ` set xs \<Longrightarrow>
   lookup (fold (\<lambda>x. alter (key x) (upd x)) xs m) k = lookup m k"
proof -
  assume "invar m" and "k \<notin> key ` set xs"
  moreover from this have "filter (\<lambda>x. key x = k) xs = []"
    by (auto simp: filter_empty_conv)
  ultimately show ?thesis by (simp add: lookup_fold)
qed

end

text \<open>
  A sketch absorbs items: the order and the multiplicity of the insertions do not show, and
  merging two sketches is inserting the items of one into the other.
\<close>

locale sketch =
  fixes ins :: "'a \<Rightarrow> 's \<Rightarrow> 's" and merge :: "'s \<Rightarrow> 's \<Rightarrow> 's"
    and empty :: 's and invar :: "'s \<Rightarrow> bool"
  assumes ins_commute: "invar s \<Longrightarrow> ins x (ins y s) = ins y (ins x s)"
    and ins_idem: "invar s \<Longrightarrow> ins x (ins x s) = ins x s"
    and merge_empty: "invar s \<Longrightarrow> merge s empty = s"
    and merge_ins: "invar s \<Longrightarrow> invar t \<Longrightarrow> merge s (ins x t) = ins x (merge s t)"
    and invar_empty: "invar empty"
    and invar_ins: "invar s \<Longrightarrow> invar (ins x s)"
begin

lemma invar_fold_ins: "invar s \<Longrightarrow> invar (fold ins xs s)"
  by (induction xs arbitrary: s) (simp_all add: invar_ins)

lemma fold_ins_commute: "invar s \<Longrightarrow> ins x (fold ins xs s) = fold ins xs (ins x s)"
  by (induction xs arbitrary: s) (simp_all add: invar_ins ins_commute)

lemma fold_ins_absorb: "invar s \<Longrightarrow> x \<in> set xs \<Longrightarrow> ins x (fold ins xs s) = fold ins xs s"
proof (induction xs arbitrary: s)
  case Nil
  then show ?case by simp
next
  case (Cons y ys)
  show ?case
  proof (cases "x \<in> set ys")
    case True
    with Cons show ?thesis by (simp add: invar_ins)
  next
    case False
    with Cons.prems show ?thesis
      by (simp add: fold_ins_commute invar_ins ins_idem)
  qed
qed

lemma fold_ins_remdups: "invar s \<Longrightarrow> fold ins (remdups xs) s = fold ins xs s"
proof (induction xs arbitrary: s)
  case Nil
  then show ?case by simp
next
  case (Cons x xs)
  have "fold ins xs (ins x s) = fold ins xs s" if "x \<in> set xs"
    using Cons.prems that by (simp add: fold_ins_absorb flip: fold_ins_commute)
  with Cons show ?case by (simp add: invar_ins)
qed

lemma fold_ins_perm:
  assumes "invar s" and "mset xs = mset ys"
  shows "fold ins xs s = fold ins ys s"
  using assms
proof (induction xs arbitrary: ys s)
  case Nil
  then show ?case by simp
next
  case (Cons x xs)
  then obtain as bs where ys: "ys = as @ x # bs"
    by (metis list.set_intros(1) set_mset_mset split_list)
  with Cons.prems have "mset xs = mset (as @ bs)" by simp
  with Cons.prems(1) have "fold ins xs (ins x s) = fold ins (as @ bs) (ins x s)"
    by (intro Cons.IH invar_ins)
  also have "\<dots> = fold ins ys s"
    using Cons.prems by (simp add: ys flip: fold_ins_commute)
  finally show ?case by simp
qed

lemma fold_ins_set:
  assumes "invar s" and "set xs = set ys"
  shows "fold ins xs s = fold ins ys s"
proof -
  have "mset (remdups xs) = mset (remdups ys)"
    using assms(2) by (simp add: set_eq_iff_mset_remdups_eq)
  then have "fold ins (remdups xs) s = fold ins (remdups ys) s"
    by (rule fold_ins_perm [OF assms(1)])
  with assms(1) show ?thesis by (simp add: fold_ins_remdups)
qed

lemma merge_fold_ins:
  "invar s \<Longrightarrow> merge s (fold ins xs empty) = fold ins xs s"
proof (induction xs rule: rev_induct)
  case Nil
  then show ?case by (simp add: merge_empty)
next
  case (snoc x xs)
  then show ?case by (simp add: merge_ins invar_fold_ins invar_empty)
qed

end

section \<open>The maps implement the interface\<close>

named_theorems map_simps \<open>lookups, keys and invariants of the modelled maps\<close>

lemma fold_res_total:
  assumes "\<And>x s. x \<in> set xs \<Longrightarrow> I s \<Longrightarrow> \<exists>s'. f x s = Inr s' \<and> I s'" and "I s"
  shows "\<exists>s'. fold_res f xs s = Inr s' \<and> I s'"
  using assms
proof (induction xs arbitrary: s)
  case (Cons x xs)
  from Cons.prems obtain s' where "f x s = Inr s'" "I s'" by (meson list.set_intros(1))
  with Cons.IH [of s'] Cons.prems(1) show ?case by simp
qed simp

lemma map_of_al_alter: "map_of (al_alter k f m) = (map_of m)(k \<mapsto> f (map_of m k))"
  by (induction m) (auto simp: fun_eq_iff)

lemma keys_al_alter: "fst ` set (al_alter k f m) = insert k (fst ` set m)"
  by (induction k f m rule: al_alter.induct) (simp_all add: insert_commute)

lemma al_inv_alter: "al_inv m \<Longrightarrow> al_inv (al_alter k f m)"
proof (induction m)
  case Nil
  then show ?case by (simp add: al_inv_def)
next
  case (Cons kv m)
  then show ?case
    using keys_al_alter [of k f m] by (cases kv) (auto simp: al_inv_def)
qed

interpretation hash: entry_map map_of al_alter al_inv
  by unfold_locales (simp_all add: map_of_al_alter al_inv_alter)

lemma map_of_al_put [map_simps, simp]: "map_of (al_put k v m) = (map_of m)(k \<mapsto> v)"
  by (simp add: al_put_def map_of_al_alter)

lemma al_inv_put [map_simps, intro]: "al_inv m \<Longrightarrow> al_inv (al_put k v m)"
  by (simp add: al_put_def al_inv_alter)

lemma al_inv_Nil [map_simps, simp]: "al_inv []"
  by (simp add: al_inv_def)

lemma map_of_al_remove [map_simps, simp]: "map_of (al_remove k m) = (map_of m)(k := None)"
  by (induction m) (auto simp: al_remove_def fun_eq_iff)

lemma al_inv_remove [map_simps, intro]: "al_inv m \<Longrightarrow> al_inv (al_remove k m)"
  by (induction m) (auto simp: al_remove_def al_inv_def)

lemma map_of_bt_alter:
  "bt_inv m \<Longrightarrow> map_of (bt_alter k f m) = (map_of m)(k \<mapsto> f (map_of m k))"
proof (induction m)
  case Nil
  then show ?case by (simp add: fun_eq_iff)
next
  case (Cons kv m)
  obtain k' v where kv: "kv = (k', v)" by (cases kv)
  have "map_of m k = None" if "k < k'"
  proof -
    have "k \<notin> set (map fst m)" using Cons.prems that by (auto simp: bt_inv_def kv)
    then show ?thesis by (simp add: map_of_eq_None_iff)
  qed
  with Cons show ?case by (auto simp: kv bt_inv_def fun_eq_iff)
qed

lemma keys_bt_alter: "fst ` set (bt_alter k f m) = insert k (fst ` set m)"
  by (induction k f m rule: bt_alter.induct) (simp_all add: insert_commute)

lemma bt_inv_alter: "bt_inv m \<Longrightarrow> bt_inv (bt_alter k f m)"
proof (induction m)
  case Nil
  then show ?case by (simp add: bt_inv_def)
next
  case (Cons kv m)
  obtain k' v where kv: "kv = (k', v)" by (cases kv)
  from Cons have "bt_inv (bt_alter k f m)" by (simp add: bt_inv_def)
  moreover have "\<forall>x \<in> fst ` set (bt_alter k f m). k' < x" if "k' < k"
    using Cons.prems that by (simp only: keys_bt_alter) (auto simp: kv bt_inv_def)
  ultimately show ?case using Cons.prems by (auto simp: kv bt_inv_def)
qed

interpretation btree: entry_map map_of bt_alter bt_inv
  by unfold_locales (simp_all add: map_of_bt_alter bt_inv_alter)

lemma map_of_bt_put [map_simps, simp]:
  "bt_inv m \<Longrightarrow> map_of (bt_put k v m) = (map_of m)(k \<mapsto> v)"
  by (simp add: bt_put_def map_of_bt_alter)

lemma bt_inv_put [map_simps, intro]: "bt_inv m \<Longrightarrow> bt_inv (bt_put k v m)"
  by (simp add: bt_put_def bt_inv_alter)

lemma bt_inv_Nil [map_simps, simp]: "bt_inv []"
  by (simp add: bt_inv_def)

lemma bt_inv_distinct: "bt_inv m \<Longrightarrow> distinct (map fst m)"
  unfolding bt_inv_def using strict_sorted_imp_sorted strict_sorted_iff by blast

lemma bt_inv_filter [map_simps, intro]: "bt_inv m \<Longrightarrow> bt_inv (filter P m)"
  unfolding bt_inv_def by (induction m) auto

lemma map_of_filter_distinct:
  "distinct (map fst m) \<Longrightarrow>
   map_of (filter (\<lambda>kv. P (fst kv)) m) k = (if P k then map_of m k else None)"
  by (induction m) auto

section \<open>Integers\<close>

lemma wrap_i64_id [simp]: "in_i64 x \<Longrightarrow> wrap_i64 x = x"
  by (simp add: wrap_i64_def in_i64_def)

lemma u64_as_i64_of_nat: "n < 2 ^ 63 \<Longrightarrow> u64_as_i64 (of_nat n) = int n"
  by (simp add: u64_as_i64_def signed_of_nat signed_take_bit_int_eq_self)

lemma usize_as_i64_id: "n < 2 ^ 63 \<Longrightarrow> usize_as_i64 n = int n"
  by (simp add: usize_as_i64_def in_i64_def)

lemma i64_as_u64_int: "i64_as_u64 (int n) = of_nat n"
  by (simp add: i64_as_u64_def)

end
