(* ===== verification/TimeWindow.thy ===== *)
theory TimeWindow
  imports Prelude
begin

text \<open>
  \<^verbatim>\<open>crates/common/src/window.rs\<close>: tumbling windows. A \<open>DateTime<Utc>\<close> is the number of
  nanoseconds since the epoch (an integer; chrono's own range is wider than any value the
  arithmetic here can reach from a timestamp \<open>duration_trunc\<close> accepts), an \<open>Instant\<close> the number of
  nanoseconds of the monotonic clock. chrono's \<open>duration_trunc\<close> is not part of the repository: it
  is the argument \<open>trunc\<close> of \<open>window_start\<close> and of everything above it, and
  \<open>duration_trunc_spec\<close> states what its documentation promises.
\<close>

type_synonym datetime = int
type_synonym instant = int
type_synonym trunc_fn = "datetime \<Rightarrow> int \<Rightarrow> datetime option"

definition seconds :: "int \<Rightarrow> int" where
  "seconds n = n * 1000000000"

definition WINDOW_SIZE :: int where
  "WINDOW_SIZE = seconds 60"

definition ALLOWED_LATENESS :: int where
  "ALLOWED_LATENESS = seconds 30"

definition IDLE_PARTITION_TIMEOUT :: int where
  "IDLE_PARTITION_TIMEOUT = seconds 10"

definition window_start :: "trunc_fn \<Rightarrow> datetime \<Rightarrow> datetime res" where
  "window_start trunc ts =
     (case trunc ts WINDOW_SIZE of
        None \<Rightarrow> Inl (ExpectFailed ''WINDOW_SIZE is a fixed, non-zero duration'')
      | Some s \<Rightarrow> Inr s)"

definition window_end :: "datetime \<Rightarrow> datetime" where
  "window_end start = start + WINDOW_SIZE"

section \<open>What chrono documents\<close>

text \<open>
  \<open>duration_trunc\<close> truncates to a multiple of the span, and fails with
  \<open>RoundingError::TimestampExceedsLimit\<close> when the timestamp in nanoseconds does not fit an \<open>i64\<close>
  (outside the years 1677 to 2262).
\<close>

definition duration_trunc_spec :: "trunc_fn \<Rightarrow> bool" where
  "duration_trunc_spec trunc \<longleftrightarrow>
     (\<forall>ts span. 0 < span \<longrightarrow>
        trunc ts span = (if in_i64 ts then Some (ts - ts mod span) else None))"

text \<open>A function that behaves as documented, for concrete evaluations.\<close>

definition floor_trunc :: trunc_fn where
  "floor_trunc ts span = (if in_i64 ts then Some (ts - ts mod span) else None)"

text \<open>The window a timestamp belongs to, and when the code can compute it.\<close>

definition wstart :: "datetime \<Rightarrow> datetime" where
  "wstart ts = ts - ts mod WINDOW_SIZE"

section \<open>Windows\<close>

named_theorems time_defs \<open>the constants of the window grid\<close>

lemmas [time_defs] = WINDOW_SIZE_def ALLOWED_LATENESS_def IDLE_PARTITION_TIMEOUT_def seconds_def

lemma WINDOW_SIZE_pos [simp]: "0 < WINDOW_SIZE"
  by (simp add: time_defs)

lemma floor_trunc_spec [simp, intro]: "duration_trunc_spec floor_trunc"
  by (simp add: duration_trunc_spec_def floor_trunc_def)

lemma window_start_eq:
  assumes "duration_trunc_spec trunc"
  shows "window_start trunc ts =
    (if in_i64 ts then Inr (wstart ts)
     else Inl (ExpectFailed ''WINDOW_SIZE is a fixed, non-zero duration''))"
  using assms by (simp add: window_start_def duration_trunc_spec_def wstart_def)

lemma window_start_Inr [simp]:
  "duration_trunc_spec trunc \<Longrightarrow> in_i64 ts \<Longrightarrow> window_start trunc ts = Inr (wstart ts)"
  by (simp add: window_start_eq)

lemma wstart_le: "wstart ts \<le> ts"
  by (simp add: wstart_def)

lemma less_window_end_wstart: "ts < window_end (wstart ts)"
  using pos_mod_bound [OF WINDOW_SIZE_pos, of ts] by (simp add: wstart_def window_end_def)

lemma wstart_dvd: "WINDOW_SIZE dvd wstart ts"
  unfolding wstart_def by (rule dvd_minus_mod)

lemma wstart_mono: "s \<le> t \<Longrightarrow> wstart s \<le> wstart t"
proof -
  assume "s \<le> t"
  then have "s div WINDOW_SIZE \<le> t div WINDOW_SIZE" by (rule zdiv_mono1) simp
  then have "s div WINDOW_SIZE * WINDOW_SIZE \<le> t div WINDOW_SIZE * WINDOW_SIZE"
    by (rule mult_right_mono) (simp add: order_less_imp_le)
  then show ?thesis by (simp add: wstart_def minus_mod_eq_div_mult)
qed

lemma wstart_unique:
  assumes "WINDOW_SIZE dvd w" and "w \<le> ts" and "ts < window_end w"
  shows "w = wstart ts"
proof -
  from assms(1) obtain q where w: "w = WINDOW_SIZE * q" by (rule dvdE)
  have "ts mod WINDOW_SIZE = (ts - w) mod WINDOW_SIZE" by (simp add: w mod_diff_right_eq [symmetric])
  also have "\<dots> = ts - w" using assms by (simp add: window_end_def)
  finally show ?thesis by (simp add: wstart_def)
qed

text \<open>Every timestamp of the supported range falls into exactly one window of the grid of
  60-second multiples: the returned start is aligned, at most the timestamp, less than one window
  before it, and the only such value. In particular boundaries map to themselves.\<close>

theorem window_start_unique_window:
  assumes "duration_trunc_spec trunc" and "in_i64 ts"
  shows "\<exists>w. window_start trunc ts = Inr w \<and> WINDOW_SIZE dvd w \<and> w \<le> ts \<and> ts < window_end w
      \<and> (\<forall>w'. WINDOW_SIZE dvd w' \<and> w' \<le> ts \<and> ts < window_end w' \<longrightarrow> w' = w)"
  using assms wstart_le less_window_end_wstart wstart_dvd wstart_unique
  by (intro exI [of _ "wstart ts"]) simp

theorem window_start_unique_window_witness:
  "duration_trunc_spec floor_trunc \<and> in_i64 1790158547000000000 \<and>
   (\<exists>w. window_start floor_trunc 1790158547000000000 = Inr w \<and> w \<le> 1790158547000000000
      \<and> w = 1790158500000000000)"
proof -
  have "in_i64 1790158547000000000" by (simp add: in_i64_def)
  from window_start_unique_window [OF floor_trunc_spec this] this show ?thesis
    by (auto simp: window_start_eq wstart_def time_defs)
qed

end
