(* ===== verification/Events.thy ===== *)
theory Events
  imports TimeWindow
begin

text \<open>
  \<^verbatim>\<open>crates/common/src/event.rs\<close>: the event record and its validation. A Rust string is the list
  of its UTF-8 bytes. \<open>str::trim\<close> removes Unicode white space from both ends; the white-space code
  points are those of the \<open>White_Space\<close> property, encoded in UTF-8.
\<close>

datatype EventKind = Edit | New | Log | Categorize

record Event =
  event_id :: uuid
  ev_user :: string
  ev_ts :: datetime
  ev_family :: string
  ev_wiki :: string
  ev_namespace :: i32
  ev_kind :: EventKind
  ev_is_bot :: bool

record EventBatch =
  batch_events :: "Event list"

datatype EventValidationError =
    EmptyUser uuid
  | EmptyWiki uuid
  | EmptyFamily uuid
  | NegativeNamespace uuid i32
  | TimestampInFuture uuid datetime

definition MAX_FUTURE_SKEW_SECS :: int where
  "MAX_FUTURE_SKEW_SECS = 60"

section \<open>Trimming\<close>

definition utf8 :: "nat \<Rightarrow> string" where
  "utf8 c =
     (if c < 128 then [char_of c]
      else if c < 2048 then [char_of (192 + c div 64), char_of (128 + c mod 64)]
      else [char_of (224 + c div 4096), char_of (128 + c div 64 mod 64), char_of (128 + c mod 64)])"

definition white_space :: "nat list" where
  "white_space =
     [9, 10, 11, 12, 13, 32, 133, 160, 5760,
      8192, 8193, 8194, 8195, 8196, 8197, 8198, 8199, 8200, 8201, 8202,
      8232, 8233, 8239, 8287, 12288]"

definition is_prefix :: "'a list \<Rightarrow> 'a list \<Rightarrow> bool" where
  "is_prefix w s \<longleftrightarrow> take (length w) s = w"

function trim_front :: "string list \<Rightarrow> string \<Rightarrow> string" where
  "trim_front ws s =
     (case find (\<lambda>w. w \<noteq> [] \<and> is_prefix w s) ws of
        None \<Rightarrow> s
      | Some w \<Rightarrow> trim_front ws (drop (length w) s))"
  by pat_completeness auto
termination
proof (relation "measure (\<lambda>(ws, s). length s)")
  fix ws s w
  assume "find (\<lambda>w. w \<noteq> [] \<and> is_prefix w s) ws = Some w"
  then have "w \<noteq> []" and "is_prefix w s" by (auto simp: find_Some_iff)
  then have "0 < length w" and "length w \<le> length s"
    by (auto simp: is_prefix_def dest: arg_cong [where f = length])
  then have "length s - length w < length s" by linarith
  then show "((ws, drop (length w) s), (ws, s)) \<in> measure (\<lambda>(ws, s). length s)" by simp
qed simp

declare trim_front.simps [simp del]

definition trim :: "string \<Rightarrow> string" where
  "trim s = rev (trim_front (map (rev \<circ> utf8) white_space) (rev (trim_front (map utf8 white_space) s)))"

section \<open>Validation\<close>

definition validate :: "Event \<Rightarrow> datetime \<Rightarrow> EventValidationError + unit" where
  "validate e now =
     (if trim (ev_user e) = [] then Inl (EmptyUser (event_id e))
      else if trim (ev_wiki e) = [] then Inl (EmptyWiki (event_id e))
      else if trim (ev_family e) = [] then Inl (EmptyFamily (event_id e))
      else if ev_namespace e < 0 then Inl (NegativeNamespace (event_id e) (ev_namespace e))
      else
        (let max_future = now + seconds MAX_FUTURE_SKEW_SECS in
         if ev_ts e > max_future then Inl (TimestampInFuture (event_id e) (ev_ts e))
         else Inr ()))"

text \<open>What validation is for: a string of white space only is blank.\<close>

definition blank :: "string \<Rightarrow> bool" where
  "blank s \<longleftrightarrow> (\<exists>cs. set cs \<subseteq> set white_space \<and> s = concat (map utf8 cs))"

section \<open>Trimming removes exactly the blank strings\<close>

lemma is_prefix_append: "is_prefix w s \<longleftrightarrow> (\<exists>t. s = w @ t)"
  unfolding is_prefix_def by (metis append_eq_conv_conj append_take_drop_id)

text \<open>A code is a list of non-empty words none of which is a prefix of another.\<close>

definition prefix_code :: "string list \<Rightarrow> bool" where
  "prefix_code ws \<longleftrightarrow>
     list_all (\<lambda>w. w \<noteq> [] \<and> list_all (\<lambda>v. is_prefix v w \<longrightarrow> v = w) ws) ws"

lemma trim_front_Nil: "trim_front ws [] = []"
  by (subst trim_front.simps) (auto simp: is_prefix_def find_Some_iff split: option.splits)

lemma trim_front_concat:
  assumes "prefix_code ws" and "set us \<subseteq> set ws"
  shows "trim_front ws (concat us) = []"
  using assms(2)
proof (induction us)
  case Nil
  then show ?case by (simp add: trim_front_Nil)
next
  case (Cons u us)
  let ?p = "\<lambda>w. w \<noteq> [] \<and> is_prefix w (u @ concat us)"
  have u: "u \<in> set ws" "u \<noteq> []" using Cons.prems assms(1) by (auto simp: prefix_code_def list_all_iff)
  then have "find ?p ws \<noteq> None" by (auto simp: find_None_iff is_prefix_append)
  then obtain w where w: "find ?p ws = Some w" by blast
  then have "w \<in> set ws" "is_prefix w (u @ concat us)" by (auto simp: find_Some_iff)
  then have "is_prefix w u \<or> is_prefix u w"
    by (auto simp: is_prefix_append append_eq_append_conv2)
  with \<open>w \<in> set ws\<close> u(1) assms(1) have "w = u"
    by (auto simp: prefix_code_def list_all_iff)
  with w Cons show ?case by (subst trim_front.simps) simp
qed

lemma trim_front_empty:
  "trim_front ws s = [] \<Longrightarrow> \<exists>us. set us \<subseteq> set ws \<and> s = concat us"
proof (induction ws s rule: trim_front.induct)
  case (1 ws s)
  show ?case
  proof (cases "find (\<lambda>w. w \<noteq> [] \<and> is_prefix w s) ws")
    case None
    with 1 have "s = []" by (simp add: trim_front.simps [of ws s])
    then show ?thesis by (intro exI [of _ "[]"]) simp
  next
    case (Some w)
    with 1 have "trim_front ws (drop (length w) s) = []" by (simp add: trim_front.simps [of ws s])
    from 1(1) [OF Some this] obtain us where us: "set us \<subseteq> set ws" "drop (length w) s = concat us"
      by blast
    from Some have "w \<in> set ws" "is_prefix w s" by (auto simp: find_Some_iff)
    then have "s = concat (w # us)"
      using us(2) by (metis append_take_drop_id concat.simps(2) is_prefix_def)
    with \<open>w \<in> set ws\<close> us(1) show ?thesis by (intro exI [of _ "w # us"]) simp
  qed
qed

lemma trim_front_no_prefix:
  "find (\<lambda>w. w \<noteq> [] \<and> is_prefix w (trim_front ws s)) ws = None"
proof (induction ws s rule: trim_front.induct)
  case (1 ws s)
  then show ?case by (cases "find (\<lambda>w. w \<noteq> [] \<and> is_prefix w s) ws") (simp_all add: trim_front.simps [of ws s])
qed

text \<open>The first byte of an encoding determines its length, so the encodings form a code.\<close>

lemma utf8_lead:
  "c < 65536 \<Longrightarrow>
   length (utf8 c) = (let b = of_char (hd (utf8 c)) :: nat in if b < 128 then 1 else if b < 224 then 2 else 3)"
  by (simp add: utf8_def Let_def less_mult_imp_div_less)

lemma utf8_neq_Nil [simp]: "utf8 c \<noteq> []"
  by (simp add: utf8_def)

lemma white_space_bound: "c \<in> set white_space \<Longrightarrow> c < 65536"
  by (auto simp: white_space_def)

lemma white_space_code: "prefix_code (map utf8 white_space)"
proof -
  have "utf8 c = utf8 d" if "is_prefix (utf8 c) (utf8 d)" "c \<in> set white_space" "d \<in> set white_space" for c d
  proof -
    from that(1) obtain t where t: "utf8 d = utf8 c @ t" by (auto simp: is_prefix_append)
    then have "hd (utf8 d) = hd (utf8 c)" by simp
    with that have "length (utf8 d) = length (utf8 c)" by (simp add: utf8_lead white_space_bound)
    with t show ?thesis by simp
  qed
  then show ?thesis by (auto simp: prefix_code_def list_all_iff)
qed

lemma concat_rev_map: "concat (map rev us) = rev (concat (rev us))"
  by (induction us) simp_all

lemma trim_empty_iff_blank: "trim s = [] \<longleftrightarrow> blank s"
proof
  assume "blank s"
  then obtain cs where cs: "set cs \<subseteq> set white_space" "s = concat (map utf8 cs)"
    by (auto simp: blank_def)
  then have "trim_front (map utf8 white_space) (concat (map utf8 cs)) = []"
    by (intro trim_front_concat white_space_code) auto
  then show "trim s = []"
    by (simp add: trim_def cs trim_front_Nil)
next
  let ?ws = "map utf8 white_space"
  assume "trim s = []"
  then have "trim_front (map (rev \<circ> utf8) white_space) (rev (trim_front ?ws s)) = []"
    by (simp add: trim_def)
  then obtain us where us: "set us \<subseteq> set (map (rev \<circ> utf8) white_space)"
      and eq: "rev (trim_front ?ws s) = concat us"
    using trim_front_empty by blast
  define vs where "vs = rev (map rev us)"
  have vs: "set vs \<subseteq> set ?ws" using us by (auto simp: vs_def)
  have tf: "trim_front ?ws s = concat vs"
    using arg_cong [OF eq, of rev] by (simp add: vs_def rev_concat rev_map)
  have "vs = []"
  proof (cases vs)
    case (Cons v vs')
    with vs have "v \<in> set ?ws" by simp
    moreover from this have "v \<noteq> []"
      using white_space_code by (auto simp: prefix_code_def list_all_iff)
    ultimately have "find (\<lambda>w. w \<noteq> [] \<and> is_prefix w (trim_front ?ws s)) ?ws \<noteq> None"
      by (auto simp: tf Cons find_None_iff is_prefix_append)
    with trim_front_no_prefix [of ?ws s] show ?thesis by simp
  qed simp
  with tf have "trim_front ?ws s = []" by simp
  then obtain xs where xs: "set xs \<subseteq> set ?ws" "s = concat xs" using trim_front_empty by blast
  from xs(1) have "xs \<in> lists (utf8 ` set white_space)" by auto
  then obtain cs where "set cs \<subseteq> set white_space" "xs = map utf8 cs" by (auto simp: lists_image)
  with xs(2) show "blank s" by (auto simp: blank_def)
qed

lemma blank_head:
  assumes "blank (c # s)"
  shows "of_char c \<in> (\<lambda>w. of_char (hd (utf8 w)) :: nat) ` set white_space"
proof -
  from assms obtain ds where ds: "set ds \<subseteq> set white_space" "c # s = concat (map utf8 ds)"
    by (auto simp: blank_def)
  then obtain w cs where "w \<in> set white_space" "c # s = utf8 w @ concat (map utf8 cs)"
    by (cases ds) auto
  then have "c = hd (utf8 w)" by (cases "utf8 w") simp_all
  with \<open>w \<in> set white_space\<close> show ?thesis by blast
qed

text \<open>Text whose first byte is a printable ASCII character is not blank.\<close>

lemma trim_graph [simp]:
  assumes "32 < (of_char c :: nat)" and "of_char c < (128 :: nat)"
  shows "trim (c # s) \<noteq> []"
proof
  assume "trim (c # s) = []"
  then have "of_char c \<in> (\<lambda>w. of_char (hd (utf8 w)) :: nat) ` set white_space"
    by (intro blank_head) (simp add: trim_empty_iff_blank)
  with assms show False by (auto simp: white_space_def utf8_def)
qed

text \<open>C32: an event passes validation exactly when its user, wiki and family contain something
  other than Unicode white space, its namespace is not negative, and its timestamp is at most 60
  seconds ahead of the gateway's clock.\<close>

theorem validate_accepts_iff:
  "validate e now = Inr () \<longleftrightarrow>
     \<not> blank (ev_user e) \<and> \<not> blank (ev_wiki e) \<and> \<not> blank (ev_family e) \<and>
     0 \<le> ev_namespace e \<and> ev_ts e \<le> now + 60 * 1000000000"
  by (auto simp: validate_def Let_def trim_empty_iff_blank seconds_def MAX_FUTURE_SKEW_SECS_def)

end
