(* ===== verification/CellHierarchy.thy ===== *)
theory CellHierarchy
  imports Events
begin

text \<open>
  \<^verbatim>\<open>crates/common/src/hierarchy.rs\<close>: the four-level cell hierarchy (global, family, wiki,
  namespace) and the cells an event contributes to.
\<close>

definition ROLLUP_STR :: string where
  "ROLLUP_STR = ''*''"

definition ROLLUP_NAMESPACE :: i32 where
  "ROLLUP_NAMESPACE = -1"

definition LEVEL_GLOBAL :: i16 where "LEVEL_GLOBAL = 0"
definition LEVEL_FAMILY :: i16 where "LEVEL_FAMILY = 1"
definition LEVEL_WIKI :: i16 where "LEVEL_WIKI = 2"
definition LEVEL_NAMESPACE :: i16 where "LEVEL_NAMESPACE = 3"

record CellKey =
  ck_level :: i16
  ck_family :: string
  ck_wiki :: string
  ck_namespace :: i32

definition global_key :: CellKey where
  "global_key = \<lparr>ck_level = LEVEL_GLOBAL, ck_family = ROLLUP_STR, ck_wiki = ROLLUP_STR,
     ck_namespace = ROLLUP_NAMESPACE\<rparr>"

definition family_key :: "string \<Rightarrow> CellKey" where
  "family_key f = \<lparr>ck_level = LEVEL_FAMILY, ck_family = f, ck_wiki = ROLLUP_STR,
     ck_namespace = ROLLUP_NAMESPACE\<rparr>"

definition wiki_key :: "string \<Rightarrow> string \<Rightarrow> CellKey" where
  "wiki_key f w = \<lparr>ck_level = LEVEL_WIKI, ck_family = f, ck_wiki = w,
     ck_namespace = ROLLUP_NAMESPACE\<rparr>"

definition namespace_key :: "string \<Rightarrow> string \<Rightarrow> i32 \<Rightarrow> CellKey" where
  "namespace_key f w n = \<lparr>ck_level = LEVEL_NAMESPACE, ck_family = f, ck_wiki = w,
     ck_namespace = n\<rparr>"

definition cells_for_event :: "Event \<Rightarrow> CellKey list" where
  "cells_for_event e =
     [global_key, family_key (ev_family e), wiki_key (ev_family e) (ev_wiki e),
      namespace_key (ev_family e) (ev_wiki e) (ev_namespace e)]"

definition parent :: "CellKey \<Rightarrow> CellKey option" where
  "parent c =
     (if ck_level c = LEVEL_GLOBAL then None
      else if ck_level c = LEVEL_FAMILY then Some global_key
      else if ck_level c = LEVEL_WIKI then Some (family_key (ck_family c))
      else if ck_level c = LEVEL_NAMESPACE then Some (wiki_key (ck_family c) (ck_wiki c))
      else None)"

text \<open>A key the pipeline can produce: rolled-up axes carry the sentinel.\<close>

definition wf_key :: "CellKey \<Rightarrow> bool" where
  "wf_key c \<longleftrightarrow>
     c = global_key \<or> c = family_key (ck_family c) \<or> c = wiki_key (ck_family c) (ck_wiki c)
     \<or> c = namespace_key (ck_family c) (ck_wiki c) (ck_namespace c)"

text \<open>\<open>ancestors c\<close> walks \<open>parent\<close> up to the root.\<close>

fun ancestors_upto :: "nat \<Rightarrow> CellKey \<Rightarrow> CellKey list" where
  "ancestors_upto 0 c = [c]"
| "ancestors_upto (Suc n) c =
     (case parent c of None \<Rightarrow> [c] | Some p \<Rightarrow> c # ancestors_upto n p)"

named_theorems key_defs \<open>levels and keys of the hierarchy\<close>

lemmas [key_defs] = LEVEL_GLOBAL_def LEVEL_FAMILY_def LEVEL_WIKI_def LEVEL_NAMESPACE_def
  global_key_def family_key_def wiki_key_def namespace_key_def

lemma key_levels [simp]:
  "ck_level global_key = 0" "ck_level (family_key f) = 1" "ck_level (wiki_key f w) = 2"
  "ck_level (namespace_key f w n) = 3"
  by (simp_all add: key_defs)

lemma key_fields [simp]:
  "ck_family (family_key f) = f" "ck_family (wiki_key f w) = f" "ck_wiki (wiki_key f w) = w"
  "ck_family (namespace_key f w n) = f" "ck_wiki (namespace_key f w n) = w"
  "ck_namespace (namespace_key f w n) = n"
  by (simp_all add: key_defs)

lemma key_inject [simp]:
  "family_key f = family_key f' \<longleftrightarrow> f = f'"
  "wiki_key f w = wiki_key f' w' \<longleftrightarrow> f = f' \<and> w = w'"
  "namespace_key f w n = namespace_key f' w' n' \<longleftrightarrow> f = f' \<and> w = w' \<and> n = n'"
  by (auto simp: key_defs)

lemma key_distinct [simp]:
  "global_key \<noteq> family_key f" "global_key \<noteq> wiki_key f w" "global_key \<noteq> namespace_key f w n"
  "family_key f \<noteq> global_key" "family_key f \<noteq> wiki_key f' w" "family_key f \<noteq> namespace_key f' w n"
  "wiki_key f w \<noteq> global_key" "wiki_key f w \<noteq> family_key f'" "wiki_key f w \<noteq> namespace_key f' w' n"
  "namespace_key f w n \<noteq> global_key" "namespace_key f w n \<noteq> family_key f'"
  "namespace_key f w n \<noteq> wiki_key f' w'"
  by (simp_all add: key_defs)

lemma parent_simps [simp]:
  "parent global_key = None" "parent (family_key f) = Some global_key"
  "parent (wiki_key f w) = Some (family_key f)"
  "parent (namespace_key f w n) = Some (wiki_key f w)"
  by (simp_all add: parent_def LEVEL_GLOBAL_def LEVEL_FAMILY_def LEVEL_WIKI_def LEVEL_NAMESPACE_def)

lemma wf_key_cases [consumes 1, case_names global family wiki namespace]:
  assumes "wf_key c"
  obtains "c = global_key" | f where "c = family_key f" | f w where "c = wiki_key f w"
    | f w n where "c = namespace_key f w n"
  using assms unfolding wf_key_def by blast

lemma wf_key_intros [simp, intro]:
  "wf_key global_key" "wf_key (family_key f)" "wf_key (wiki_key f w)" "wf_key (namespace_key f w n)"
  by (simp_all add: wf_key_def)

lemma distinct_cells_for_event [simp]: "distinct (cells_for_event e)"
  by (simp add: cells_for_event_def)

lemma wf_cells_for_event: "c \<in> set (cells_for_event e) \<Longrightarrow> wf_key c"
  by (auto simp: cells_for_event_def)

text \<open>The four cells of an event are distinct, well formed, one per level, and form one chain
  of the hierarchy: walking \<open>parent\<close> from the namespace cell visits exactly these four, in
  reverse order, and ends at the global root.\<close>

theorem cells_for_event_chain:
  "distinct (cells_for_event e) \<and> list_all wf_key (cells_for_event e) \<and>
   map ck_level (cells_for_event e) = [0, 1, 2, 3] \<and>
   ancestors_upto 3 (cells_for_event e ! 3) = rev (cells_for_event e) \<and>
   parent (cells_for_event e ! 0) = None"
  by (simp add: cells_for_event_def eval_nat_numeral)

text \<open>Contribution is closed under the hierarchy and determined by the event's coordinates: an
  event contributes to the parent of every cell it contributes to, and the events that contribute
  to a well-formed cell are exactly those that agree with it on the axes the cell fixes.\<close>

theorem cells_for_event_closed:
  assumes "wf_key c"
  shows "(c \<in> set (cells_for_event e) \<longleftrightarrow>
      (1 \<le> ck_level c \<longrightarrow> ck_family c = ev_family e) \<and>
      (2 \<le> ck_level c \<longrightarrow> ck_wiki c = ev_wiki e) \<and>
      (3 \<le> ck_level c \<longrightarrow> ck_namespace c = ev_namespace e)) \<and>
    (c \<in> set (cells_for_event e) \<longrightarrow> (\<forall>p. parent c = Some p \<longrightarrow> p \<in> set (cells_for_event e)))"
  using assms by (cases rule: wf_key_cases) (auto simp: cells_for_event_def)

theorem cells_for_event_closed_witness:
  "wf_key (wiki_key ''wikipedia'' ''enwiki'') \<and>
   (wiki_key ''wikipedia'' ''enwiki'' \<in> set (cells_for_event
      \<lparr>event_id = 1, ev_user = ''a'', ev_ts = 0, ev_family = ''wikipedia'', ev_wiki = ''enwiki'',
       ev_namespace = 0, ev_kind = Edit, ev_is_bot = False\<rparr>))"
proof -
  have "wf_key (wiki_key ''wikipedia'' ''enwiki'')" by simp
  then show ?thesis
    using cells_for_event_closed [of "wiki_key ''wikipedia'' ''enwiki''"
        "\<lparr>event_id = 1, ev_user = ''a'', ev_ts = 0, ev_family = ''wikipedia'', ev_wiki = ''enwiki'',
          ev_namespace = 0, ev_kind = Edit, ev_is_bot = False\<rparr>"]
    by simp
qed

end
