(* ===== verification/Hll.thy ===== *)
theory Hll
  imports Prelude Complex_Main
begin

unbundle bit_operations_syntax

text \<open>
  \<^verbatim>\<open>crates/common/src/hll.rs\<close>: the HyperLogLog sketch. Hashing and registers are machine words;
  the shifts mask their amount, as the release profile does. \<open>estimate\<close> is the code's formula read
  over the real numbers: every \<open>2f64.powi(-r)\<close> is exact in \<open>f64\<close>, the rounding of the sums and
  quotients is not modelled.
\<close>

section \<open>Hashing\<close>

definition HASH_SEED :: u64 where
  "HASH_SEED = 0xcbf29ce484222325"

definition HASH_PRIME :: u64 where
  "HASH_PRIME = 0x100000001b3"

definition fmix64 :: "u64 \<Rightarrow> u64" where
  "fmix64 k0 =
     (let k1 = k0 XOR drop_bit 33 k0;
          k2 = k1 * 0xff51afd7ed558ccd;
          k3 = k2 XOR drop_bit 33 k2;
          k4 = k3 * 0xc4ceb9fe1a85ec53
      in k4 XOR drop_bit 33 k4)"

definition hash_item :: "string \<Rightarrow> u64" where
  "hash_item bytes = fmix64 (foldl (\<lambda>hash b. (hash XOR of_char b) * HASH_PRIME) HASH_SEED bytes)"

section \<open>The sketch\<close>

definition DEFAULT_PRECISION :: u8 where
  "DEFAULT_PRECISION = 12"

record HyperLogLog =
  precision :: u8
  registers :: "u8 list"

definition hll_new :: "u8 \<Rightarrow> HyperLogLog res" where
  "hll_new p =
     (if 4 \<le> p \<and> p \<le> 16 then Inr \<lparr>precision = p, registers = replicate (2 ^ unat p) 0\<rparr>
      else Inl (AssertionFailed ''precision must be in 4..=16''))"

definition with_default_precision :: "HyperLogLog res" where
  "with_default_precision = hll_new DEFAULT_PRECISION"

definition memory_bytes :: "HyperLogLog \<Rightarrow> nat" where
  "memory_bytes h = length (registers h)"

definition shr_u64 :: "u64 \<Rightarrow> u32 \<Rightarrow> u64" where
  "shr_u64 x n = drop_bit (unat n mod 64) x"

definition shl_u64 :: "u64 \<Rightarrow> u32 \<Rightarrow> u64" where
  "shl_u64 x n = push_bit (unat n mod 64) x"

definition leading_zeros :: "u64 \<Rightarrow> nat" where
  "leading_zeros x = length (takeWhile (\<lambda>i. \<not> bit x i) (rev [0..<64]))"

definition hll_insert :: "HyperLogLog \<Rightarrow> string \<Rightarrow> HyperLogLog res" where
  "hll_insert h item =
     (let hash = hash_item item;
          m_bits = ucast (precision h) :: u32;
          index = unat (shr_u64 hash (64 - m_bits));
          remaining = shl_u64 hash m_bits;
          rho = ucast (min (of_nat (leading_zeros remaining) + 1) (64 - m_bits) :: u32) :: u8
      in if index < length (registers h) then
           (if rho > registers h ! index
            then Inr (h\<lparr>registers := (registers h)[index := rho]\<rparr>)
            else Inr h)
         else Inl IndexOutOfBounds)"

fun merge_registers :: "u8 list \<Rightarrow> u8 list \<Rightarrow> u8 list" where
  "merge_registers (a # as) (b # bs) = (if b > a then b else a) # merge_registers as bs"
| "merge_registers as _ = as"

definition hll_merge :: "HyperLogLog \<Rightarrow> HyperLogLog \<Rightarrow> HyperLogLog res" where
  "hll_merge h other =
     (if precision h = precision other
      then Inr (h\<lparr>registers := merge_registers (registers h) (registers other)\<rparr>)
      else Inl (AssertionFailed ''cannot merge sketches of different precision''))"

definition estimate :: "HyperLogLog \<Rightarrow> real" where
  "estimate h =
     (let n = length (registers h);
          m = real n;
          alpha_m = (if n = 16 then 0.673 else if n = 32 then 0.697 else if n = 64 then 0.709
                     else 0.7213 / (1 + 1.079 / m));
          sum_inv = (\<Sum>r \<leftarrow> registers h. 1 / 2 ^ unat r);
          raw_estimate = alpha_m * m * m / sum_inv;
          zeros = length (filter (\<lambda>r. r = 0) (registers h))
      in if raw_estimate \<le> 2.5 * m \<and> zeros > 0 then m * ln (m / real zeros) else raw_estimate)"

definition to_bytes :: "HyperLogLog \<Rightarrow> u8 list" where
  "to_bytes h = precision h # registers h"

definition from_bytes :: "u8 list \<Rightarrow> HyperLogLog option" where
  "from_bytes bytes =
     (case bytes of
        [] \<Rightarrow> None
      | p # regs \<Rightarrow>
          (if length regs \<noteq> 2 ^ (unat p mod 64) then None
           else Some \<lparr>precision = p, registers = regs\<rparr>))"

text \<open>Inserting a stream of items one after the other.\<close>

definition hll_insert_all :: "HyperLogLog \<Rightarrow> string list \<Rightarrow> HyperLogLog res" where
  "hll_insert_all h items = fold_res (\<lambda>item h. hll_insert h item) items h"

section \<open>What a sketch is\<close>

text \<open>The sketches the aggregator builds: default precision, 4096 registers, each a rank of the
  remaining 52 hash bits.\<close>

definition hll_ok :: "HyperLogLog \<Rightarrow> bool" where
  "hll_ok h \<longleftrightarrow>
     precision h = DEFAULT_PRECISION \<and> length (registers h) = 4096 \<and>
     list_all (\<lambda>r. r \<le> 52) (registers h)"

definition hll_empty :: HyperLogLog where
  "hll_empty = \<lparr>precision = DEFAULT_PRECISION, registers = replicate 4096 0\<rparr>"

definition item_index :: "string \<Rightarrow> nat" where
  "item_index item = unat (drop_bit 52 (hash_item item))"

definition item_rank :: "string \<Rightarrow> u8" where
  "item_rank item = of_nat (min (leading_zeros (push_bit 12 (hash_item item)) + 1) 52)"

text \<open>The pure form of insertion and of the union.\<close>

definition hll_ins :: "string \<Rightarrow> HyperLogLog \<Rightarrow> HyperLogLog" where
  "hll_ins item h = h\<lparr>registers := (registers h)[item_index item :=
      max (registers h ! item_index item) (item_rank item)]\<rparr>"

definition hll_join :: "HyperLogLog \<Rightarrow> HyperLogLog \<Rightarrow> HyperLogLog" where
  "hll_join h other = h\<lparr>registers := map2 max (registers h) (registers other)\<rparr>"

section \<open>The finalizer loses nothing\<close>

lemma xorshift33_involution:
  fixes k :: u64
  shows "(k XOR drop_bit 33 k) XOR drop_bit 33 (k XOR drop_bit 33 k) = k"
  by (rule bit_word_eqI) (auto simp: bit_simps)

lemma xorshift33_inj: "(k :: u64) XOR drop_bit 33 k = l XOR drop_bit 33 l \<Longrightarrow> k = l"
  by (metis xorshift33_involution)

lemma mult_inverse_inj:
  fixes c d k l :: u64
  assumes "c * d = 1" and "k * c = l * c"
  shows "k = l"
proof -
  have "k = k * c * d" using assms(1) by (simp add: mult.assoc)
  also have "\<dots> = l" using assms by (simp add: mult.assoc)
  finally show ?thesis .
qed

text \<open>MurmurHash3's finalizer as implemented is a bijection on 64-bit values, so the register
  index and rank are read off a hash that keeps all of the FNV state.\<close>

theorem fmix64_bij: "bij fmix64"
proof -
  have "inj fmix64"
  proof
    fix k l
    define x where "x k = k XOR drop_bit 33 k" for k :: u64
    have x: "x a = x b \<Longrightarrow> a = b" for a b by (simp add: x_def xorshift33_inj)
    assume "fmix64 k = fmix64 l"
    then have "x (x (x k * 0xff51afd7ed558ccd) * 0xc4ceb9fe1a85ec53)
        = x (x (x l * 0xff51afd7ed558ccd) * 0xc4ceb9fe1a85ec53)"
      by (simp add: fmix64_def Let_def x_def)
    then have "x (x k * 0xff51afd7ed558ccd) = x (x l * 0xff51afd7ed558ccd)"
      by (rule mult_inverse_inj [of "0xc4ceb9fe1a85ec53" "11291846944257947611", OF _ x, rotated]) simp
    then have "x k = x l"
      by (rule mult_inverse_inj [of "0xff51afd7ed558ccd" "5725274745694666757", OF _ x, rotated]) simp
    then show "k = l" by (rule x)
  qed
  then show ?thesis by (simp add: bij_def finite_UNIV_inj_surj)
qed

section \<open>Insertion and union on well-formed sketches\<close>

lemma leading_zeros_le: "leading_zeros x \<le> 64"
  unfolding leading_zeros_def by (rule order_trans [OF length_takeWhile_le]) simp

lemma item_index_bound [simp]: "item_index item < 4096"
proof -
  have "unat (hash_item item) < 2 ^ 64" using unsigned_less [where 'b = 64 and 'a = nat, of "hash_item item"] by simp
  then show ?thesis
    unfolding item_index_def unat_drop_bit_eq
    by (simp add: drop_bit_eq_div less_mult_imp_div_less)
qed

lemma ucast_min_52:
  assumes "n \<le> 65"
  shows "(ucast (min (of_nat n) 52 :: u32) :: u8) = of_nat (min n 52)"
proof -
  have "unat (of_nat n :: u32) = n" using assms by (simp add: unat_of_nat)
  then have "(of_nat n \<le> (52 :: u32)) = (n \<le> 52)" by (simp add: word_le_nat_alt)
  then show ?thesis by (auto simp: min_def unsigned_of_nat take_bit_eq_mod)
qed

lemma item_rank_le: "item_rank item \<le> 52"
proof -
  have small: "unat (of_nat n :: u8) \<le> 52" if "n \<le> 52" for n using that by (simp add: unat_of_nat)
  have "unat (item_rank item) \<le> 52" unfolding item_rank_def by (rule small) simp
  then show ?thesis by (simp add: word_le_nat_alt)
qed

lemma hll_okD:
  assumes "hll_ok h"
  shows "precision h = DEFAULT_PRECISION" "length (registers h) = 4096"
    "\<And>r. r \<in> set (registers h) \<Longrightarrow> r \<le> 52"
  using assms by (auto simp: hll_ok_def list_all_iff)

lemma hll_insert_eq: "hll_ok h \<Longrightarrow> hll_insert h item = Inr (hll_ins item h)"
proof -
  assume ok: "hll_ok h"
  let ?lz = "leading_zeros (push_bit 12 (hash_item item))"
  have "(ucast (min (of_nat (?lz + 1)) 52 :: u32) :: u8) = of_nat (min (?lz + 1) 52)"
    using leading_zeros_le [of "push_bit 12 (hash_item item)"] by (intro ucast_min_52) simp
  then have rho: "(ucast (min (of_nat ?lz + 1) 52 :: u32) :: u8) = item_rank item"
    by (simp add: item_rank_def add.commute)
  show ?thesis
    using hll_okD [OF ok] rho list_update_id [of "registers h" "item_index item"]
    by (auto simp: hll_insert_def Let_def DEFAULT_PRECISION_def shr_u64_def shl_u64_def hll_ins_def
          max_def simp flip: item_index_def)
qed

lemma hll_ok_empty [simp]: "hll_ok hll_empty"
  by (simp add: hll_ok_def hll_empty_def list_all_iff)

lemma hll_ok_ins [simp]: "hll_ok h \<Longrightarrow> hll_ok (hll_ins item h)"
  using item_rank_le [of item] item_index_bound [of item]
  by (auto simp: hll_ok_def hll_ins_def list_all_iff max_def dest!: set_update_subset_insert [THEN subsetD])

lemma with_default_precision_eq [simp]: "with_default_precision = Inr hll_empty"
  by (simp add: with_default_precision_def hll_new_def DEFAULT_PRECISION_def hll_empty_def)

lemma hll_insert_all_eq:
  "hll_ok h \<Longrightarrow> hll_insert_all h items = Inr (fold hll_ins items h)"
  unfolding hll_insert_all_def
  by (induction items arbitrary: h) (simp_all add: hll_insert_eq)

lemma hll_ok_fold [simp]: "hll_ok h \<Longrightarrow> hll_ok (fold hll_ins items h)"
  by (induction items arbitrary: h) simp_all

lemma merge_registers_eq:
  "length as = length bs \<Longrightarrow> merge_registers as bs = map2 max as bs"
  by (induction as bs rule: list_induct2) (auto simp: max_def)

lemma hll_merge_eq: "hll_ok h \<Longrightarrow> hll_ok other \<Longrightarrow> hll_merge h other = Inr (hll_join h other)"
  by (simp add: hll_merge_def hll_okD merge_registers_eq hll_join_def)

lemma nth_hll_ins:
  "hll_ok h \<Longrightarrow> i < 4096 \<Longrightarrow> registers (hll_ins item h) ! i =
     (if i = item_index item then max (registers h ! i) (item_rank item) else registers h ! i)"
  by (simp add: hll_ins_def hll_okD nth_list_update)

lemma nth_hll_join:
  "hll_ok h \<Longrightarrow> hll_ok g \<Longrightarrow> i < 4096 \<Longrightarrow>
     registers (hll_join h g) ! i = max (registers h ! i) (registers g ! i)"
  by (simp add: hll_join_def hll_okD)

lemma hll_ok_join [simp]: "hll_ok h \<Longrightarrow> hll_ok g \<Longrightarrow> hll_ok (hll_join h g)"
  by (auto simp: hll_ok_def hll_join_def list_all_iff max_def set_zip)

lemma hll_eqI:
  assumes "hll_ok h" and "hll_ok g" and "\<And>i. i < 4096 \<Longrightarrow> registers h ! i = registers g ! i"
  shows "h = g"
proof -
  have "registers h = registers g" using assms by (intro nth_equalityI) (simp_all add: hll_okD)
  with assms(1,2) show ?thesis by (auto simp: hll_okD)
qed

interpretation hll: sketch hll_ins hll_join hll_empty hll_ok
proof
  fix s t :: HyperLogLog and x y :: string
  assume s: "hll_ok s"
  show "hll_ins x (hll_ins y s) = hll_ins y (hll_ins x s)"
    using s by (intro hll_eqI) (auto simp: nth_hll_ins max.left_commute max.commute)
  show "hll_ins x (hll_ins x s) = hll_ins x s"
    using s by (intro hll_eqI) (auto simp: nth_hll_ins)
  show "hll_join s hll_empty = s"
    using s by (intro hll_eqI) (auto simp: nth_hll_join, simp add: hll_empty_def max_def)
  show "hll_ok (hll_ins x s)" using s by simp
  assume t: "hll_ok t"
  show "hll_join s (hll_ins x t) = hll_ins x (hll_join s t)"
    using s t by (intro hll_eqI) (auto simp: nth_hll_ins nth_hll_join max.assoc)
qed simp

section \<open>Properties\<close>

text \<open>A sketch filled through \<open>insert\<close> never panics and records the set of items and nothing else:
  the order of the insertions and repeated insertions leave no trace.\<close>

lemma hll_insert_order_and_dups:
  assumes "set items = set items'"
  shows "\<exists>h. hll_insert_all hll_empty items = Inr h \<and> hll_insert_all hll_empty items' = Inr h"
  using hll.fold_ins_set [OF hll_ok_empty assms] by (simp add: hll_insert_all_eq)

text \<open>C26: merging is union: the sketch merged from two streams is the sketch of the concatenated
  stream, which is what makes per-partition sketches mergeable at query time.\<close>

theorem hll_merge_is_union:
  "\<exists>a b u. hll_insert_all hll_empty xs = Inr a \<and> hll_insert_all hll_empty ys = Inr b \<and>
     hll_insert_all hll_empty (xs @ ys) = Inr u \<and> hll_merge a b = Inr u"
  using hll.merge_fold_ins [of "fold hll_ins xs hll_empty" ys]
  by (simp add: hll_insert_all_eq hll_merge_eq)

text \<open>C28: the byte encoding round-trips on every sketch the aggregator builds, and any bytes that
  decode re-encode to themselves.\<close>

theorem hll_bytes_round_trip:
  "(hll_ok h \<longrightarrow> from_bytes (to_bytes h) = Some h) \<and>
   (from_bytes bs = Some g \<longrightarrow> to_bytes g = bs)"
  by (auto simp: hll_ok_def from_bytes_def to_bytes_def DEFAULT_PRECISION_def
      split: list.splits if_splits)

theorem hll_bytes_round_trip_witness:
  "hll_ok hll_empty \<and> from_bytes (to_bytes hll_empty) = Some hll_empty \<and>
   from_bytes [0, 7] = Some \<lparr>precision = 0, registers = [7]\<rparr> \<and>
   to_bytes \<lparr>precision = 0, registers = [7]\<rparr> = [0, 7]"
  using hll_bytes_round_trip [of hll_empty "[0, 7]" "\<lparr>precision = 0, registers = [7]\<rparr>"]
  by (simp add: from_bytes_def)

lemma ln_ratio_nonneg: "0 < z \<Longrightarrow> z \<le> n \<Longrightarrow> 0 \<le> ln (real n / real z)"
  by simp

lemma estimate_nonneg: "registers h \<noteq> [] \<Longrightarrow> 0 \<le> estimate h"
proof -
  assume "registers h \<noteq> []"
  have "0 \<le> (\<Sum>r \<leftarrow> registers h. 1 / 2 ^ unat r :: real)" by (rule sum_list_nonneg) auto
  moreover have "length (filter (\<lambda>r. r = 0) (registers h)) \<le> length (registers h)" by (rule length_filter_le)
  ultimately show ?thesis
    by (auto simp: estimate_def Let_def intro!: mult_nonneg_nonneg divide_nonneg_nonneg ln_ratio_nonneg)
qed

text \<open>C29: memory and ranks stay bounded: after any stream of insertions the sketch still occupies
  4096 one-byte registers, each at most 52, and its estimate is never negative; the estimate of the
  empty sketch is 0.\<close>

theorem hll_bounded_memory:
  "\<exists>h. hll_insert_all hll_empty items = Inr h \<and> memory_bytes h = 4096 \<and>
     list_all (\<lambda>r. r \<le> 52) (registers h) \<and> 0 \<le> estimate h \<and> estimate hll_empty = 0"
proof -
  have ok: "hll_ok (fold hll_ins items hll_empty)" by simp
  then have "registers (fold hll_ins items hll_empty) \<noteq> []" by (auto simp: hll_ok_def)
  then have "0 \<le> estimate (fold hll_ins items hll_empty)" by (rule estimate_nonneg)
  moreover have "estimate hll_empty = 0"
    by (simp add: estimate_def hll_empty_def sum_list_replicate Let_def)
  ultimately show ?thesis using hll_okD(2,3) [OF ok]
    by (simp add: hll_insert_all_eq memory_bytes_def list_all_iff)
qed

text \<open>\<open>from_bytes\<close> does not check the precision that \<open>new\<close> insists on: it decodes sketches of
  precision 0 and, because the shift amount is masked in the release profile, of precision 64 with
  a single register. Merging such a sketch into a stored one panics.\<close>

theorem from_bytes_accepts_bad_precision:
  "hll_new 0 = Inl (AssertionFailed ''precision must be in 4..=16'') \<and>
   from_bytes [0, r] = Some \<lparr>precision = 0, registers = [r]\<rparr> \<and>
   from_bytes [64, r] = Some \<lparr>precision = 64, registers = [r]\<rparr> \<and>
   hll_merge hll_empty \<lparr>precision = 64, registers = [r]\<rparr> =
     Inl (AssertionFailed ''cannot merge sketches of different precision'')"
  by (simp add: hll_new_def from_bytes_def hll_merge_def hll_empty_def DEFAULT_PRECISION_def)

end
