(* ===== verification/AggWindow.thy ===== *)
theory AggWindow
  imports CellHierarchy Hll
begin

text \<open>
  \<^verbatim>\<open>crates/aggregator/src/window.rs\<close>: the in-memory windows of one Kafka partition.
  \<open>open_windows\<close> (a \<open>BTreeMap\<close>) is a strictly sorted association list, \<open>cells\<close> (a \<open>HashMap\<close>) an
  association list with distinct keys, the user and id sets are sets. The clock readings the code
  takes itself (\<open>Instant::now()\<close>) are arguments. \<open>build_window\<close> is the reference meaning of a
  window: what folding the events that belong to it, in log order, leaves behind.
\<close>

record CellAgg =
  agg_events :: u64
  agg_users :: "string set"
  agg_hll :: "HyperLogLog option"

definition cellagg_default :: CellAgg where
  "cellagg_default = \<lparr>agg_events = 0, agg_users = {}, agg_hll = None\<rparr>"

record Window =
  min_offset :: i64
  seen_ids :: "uuid set"
  cells :: "(CellKey \<times> CellAgg) list"

definition window_new :: "i64 \<Rightarrow> Window" where
  "window_new offset = \<lparr>min_offset = offset, seen_ids = {}, cells = []\<rparr>"

datatype ProcessOutcome = Accepted | Late | Duplicate

record PartitionState =
  ps_partition :: i32
  open_windows :: "(datetime \<times> Window) list"
  max_event_ts :: datetime
  flushed_watermark :: datetime
  next_offset :: i64
  last_event_wall :: instant
  hll_enabled :: bool

definition resume_from :: "instant \<Rightarrow> i32 \<Rightarrow> i64 \<Rightarrow> datetime \<Rightarrow> PartitionState" where
  "resume_from now_wall part offset flushed_wm =
     \<lparr>ps_partition = part, open_windows = [], max_event_ts = flushed_wm,
      flushed_watermark = flushed_wm, next_offset = offset,
      last_event_wall = now_wall, hll_enabled = False\<rparr>"

definition with_hll_enabled :: "PartitionState \<Rightarrow> bool \<Rightarrow> PartitionState" where
  "with_hll_enabled ps enabled = ps\<lparr>hll_enabled := enabled\<rparr>"

definition watermark :: "PartitionState \<Rightarrow> datetime" where
  "watermark ps = max_event_ts ps - ALLOWED_LATENESS"

text \<open>One iteration of the loop over the event's cells: \<open>entry(cell_key).or_default()\<close>, count,
  remember the user and, when enabled, feed the sketch.\<close>

definition add_to_cell :: "bool \<Rightarrow> string \<Rightarrow> CellKey \<Rightarrow> (CellKey \<times> CellAgg) list \<Rightarrow> (CellKey \<times> CellAgg) list res" where
  "add_to_cell hll_on user cell_key cs =
     (let agg = (case map_of cs cell_key of None \<Rightarrow> cellagg_default | Some a \<Rightarrow> a);
          agg1 = agg\<lparr>agg_events := agg_events agg + 1, agg_users := insert user (agg_users agg)\<rparr>
      in if hll_on then
           (case (case agg_hll agg of None \<Rightarrow> with_default_precision | Some h \<Rightarrow> Inr h) of
              Inl p \<Rightarrow> Inl p
            | Inr h \<Rightarrow>
                (case hll_insert h user of
                   Inl p \<Rightarrow> Inl p
                 | Inr h' \<Rightarrow> Inr (al_put cell_key (agg1\<lparr>agg_hll := Some h'\<rparr>) cs)))
         else Inr (al_put cell_key agg1 cs))"

definition process_event ::
  "trunc_fn \<Rightarrow> instant \<Rightarrow> PartitionState \<Rightarrow> Event \<Rightarrow> i64 \<Rightarrow> (PartitionState \<times> ProcessOutcome) res" where
  "process_event trunc now_wall ps0 event offset =
     (let ps = ps0\<lparr>next_offset := wrap_i64 (offset + 1), last_event_wall := now_wall,
                   max_event_ts := (if ev_ts event > max_event_ts ps0 then ev_ts event
                                    else max_event_ts ps0)\<rparr>
      in case window_start trunc (ev_ts event) of
           Inl p \<Rightarrow> Inl p
         | Inr w_start \<Rightarrow>
             (let w_end = window_end w_start in
              if w_end \<le> flushed_watermark ps then Inr (ps, Late)
              else
                (let window = (case map_of (open_windows ps) w_start of
                                 None \<Rightarrow> window_new offset | Some w \<Rightarrow> w)
                 in if event_id event \<in> seen_ids window then
                      Inr (ps\<lparr>open_windows := bt_put w_start window (open_windows ps)\<rparr>, Duplicate)
                    else
                      (case fold_res (add_to_cell (hll_enabled ps) (ev_user event))
                              (cells_for_event event) (cells window) of
                         Inl p \<Rightarrow> Inl p
                       | Inr cs \<Rightarrow>
                           Inr (ps\<lparr>open_windows := bt_put w_start
                                   (window\<lparr>min_offset := min (min_offset window) offset,
                                            seen_ids := insert (event_id event) (seen_ids window),
                                            cells := cs\<rparr>) (open_windows ps)\<rparr>, Accepted)))))"

text \<open>\<open>Instant::duration_since\<close> saturates at zero.\<close>

definition tick_idle :: "PartitionState \<Rightarrow> instant \<Rightarrow> datetime \<Rightarrow> PartitionState" where
  "tick_idle ps now_wall now_utc =
     (if max 0 (now_wall - last_event_wall ps) > IDLE_PARTITION_TIMEOUT \<and> now_utc > max_event_ts ps
      then ps\<lparr>max_event_ts := now_utc\<rparr>
      else ps)"

fun take_windows :: "datetime list \<Rightarrow> (datetime \<times> Window) list \<Rightarrow>
    (datetime \<times> Window) list \<times> (datetime \<times> Window) list" where
  "take_windows [] ws = ([], ws)"
| "take_windows (start # starts) ws =
     (case map_of ws start of
        None \<Rightarrow> take_windows starts ws
      | Some w \<Rightarrow>
          (let (closed, rest) = take_windows starts (al_remove start ws)
           in ((start, w) # closed, rest)))"

definition take_closed_windows :: "PartitionState \<Rightarrow> (datetime \<times> Window) list \<times> PartitionState" where
  "take_closed_windows ps =
     (let wm = watermark ps;
          closed_starts = filter (\<lambda>start. window_end start \<le> wm) (map fst (open_windows ps));
          (closed, rest) = take_windows closed_starts (open_windows ps)
      in (closed,
          ps\<lparr>open_windows := rest,
             flushed_watermark := (if wm > flushed_watermark ps then wm else flushed_watermark ps)\<rparr>))"

definition committed_offset :: "PartitionState \<Rightarrow> i64" where
  "committed_offset ps =
     (case map (min_offset \<circ> snd) (open_windows ps) of
        [] \<Rightarrow> next_offset ps
      | x # xs \<Rightarrow> fold min xs x)"

text \<open>Consuming a run of log records; the clock is read once per record.\<close>

fun process_all :: "trunc_fn \<Rightarrow> (i64 \<Rightarrow> instant) \<Rightarrow> PartitionState \<Rightarrow> (i64 \<times> Event) list \<Rightarrow> PartitionState res" where
  "process_all trunc clock ps [] = Inr ps"
| "process_all trunc clock ps (r # rs) =
     (case process_event trunc (clock (fst r)) ps (snd r) (fst r) of
        Inl p \<Rightarrow> Inl p
      | Inr (ps', _) \<Rightarrow> process_all trunc clock ps' rs)"

section \<open>Reference meaning of a window\<close>

type_synonym logrec = "i64 \<times> Event"

text \<open>The pure form of one cell update, and of folding one log record into its window.\<close>

definition cell_step :: "bool \<Rightarrow> string \<Rightarrow> CellAgg option \<Rightarrow> CellAgg" where
  "cell_step hll_on user a =
     (let agg = (case a of None \<Rightarrow> cellagg_default | Some a \<Rightarrow> a);
          agg1 = agg\<lparr>agg_events := agg_events agg + 1, agg_users := insert user (agg_users agg)\<rparr>
      in if hll_on
         then agg1\<lparr>agg_hll := Some (hll_ins user (case agg_hll agg of None \<Rightarrow> hll_empty | Some h \<Rightarrow> h))\<rparr>
         else agg1)"

definition add_to_cells :: "bool \<Rightarrow> Event \<Rightarrow> (CellKey \<times> CellAgg) list \<Rightarrow> (CellKey \<times> CellAgg) list" where
  "add_to_cells hll_on e cs =
     fold (\<lambda>k. al_alter k (cell_step hll_on (ev_user e))) (cells_for_event e) cs"

definition win_step :: "bool \<Rightarrow> logrec \<Rightarrow> Window option \<Rightarrow> Window" where
  "win_step hll_on r ow =
     (let window = (case ow of None \<Rightarrow> window_new (fst r) | Some w \<Rightarrow> w)
      in if event_id (snd r) \<in> seen_ids window then window
         else window\<lparr>min_offset := min (min_offset window) (fst r),
                     seen_ids := insert (event_id (snd r)) (seen_ids window),
                     cells := add_to_cells hll_on (snd r) (cells window)\<rparr>)"

definition build_window :: "bool \<Rightarrow> logrec list \<Rightarrow> Window option" where
  "build_window hll_on rs = fold (\<lambda>r w. Some (win_step hll_on r w)) rs None"

definition rec_window :: "logrec \<Rightarrow> datetime" where
  "rec_window r = wstart (ev_ts (snd r))"

text \<open>The records of a list that belong to a window, and their first occurrences by event id.\<close>

definition in_window :: "datetime \<Rightarrow> logrec list \<Rightarrow> logrec list" where
  "in_window w rs = filter (\<lambda>r. rec_window r = w) rs"

fun dedup :: "uuid set \<Rightarrow> logrec list \<Rightarrow> logrec list" where
  "dedup seen [] = []"
| "dedup seen (r # rs) =
     (if event_id (snd r) \<in> seen then dedup seen rs
      else r # dedup (insert (event_id (snd r)) seen) rs)"

text \<open>True totals of a cell over a list of records: distinct events, distinct users.\<close>

definition contributing :: "CellKey \<Rightarrow> logrec list \<Rightarrow> logrec list" where
  "contributing c rs = filter (\<lambda>r. c \<in> set (cells_for_event (snd r))) (dedup {} rs)"

definition true_events :: "CellKey \<Rightarrow> logrec list \<Rightarrow> nat" where
  "true_events c rs = length (contributing c rs)"

definition true_users :: "CellKey \<Rightarrow> logrec list \<Rightarrow> string set" where
  "true_users c rs = (ev_user \<circ> snd) ` set (contributing c rs)"

text \<open>The invariant of a partition's state: both maps are maps, no open window is already flushed,
  and every sketch is well formed.\<close>

definition cells_ok :: "(CellKey \<times> CellAgg) list \<Rightarrow> bool" where
  "cells_ok cs \<longleftrightarrow>
     al_inv cs \<and> (\<forall>k a h. map_of cs k = Some a \<and> agg_hll a = Some h \<longrightarrow> hll_ok h)"

definition win_ok :: "Window \<Rightarrow> bool" where
  "win_ok w \<longleftrightarrow> cells_ok (cells w)"

definition ps_ok :: "PartitionState \<Rightarrow> bool" where
  "ps_ok ps \<longleftrightarrow>
     bt_inv (open_windows ps) \<and>
     (\<forall>s w. map_of (open_windows ps) s = Some w \<longrightarrow> win_ok w \<and> flushed_watermark ps < window_end s)"

section \<open>The loop over the cells\<close>

lemma al_put_lookup: "al_put k (f (map_of m k)) m = al_alter k f m"
  unfolding al_put_def by (induction m) auto

lemma bt_put_lookup: "bt_inv m \<Longrightarrow> bt_put k (f (map_of m k)) m = bt_alter k f m"
  unfolding bt_put_def
proof (induction m)
  case Nil
  then show ?case by simp
next
  case (Cons kv m)
  have "map_of m k = None" if "k < fst kv"
  proof -
    have "k \<notin> fst ` set m" using Cons.prems that by (auto simp: bt_inv_def)
    then show ?thesis by (simp add: map_of_eq_None_iff)
  qed
  with Cons show ?case by (cases kv) (auto simp: bt_inv_def)
qed

lemma cells_ok_Nil [simp]: "cells_ok []"
  by (simp add: cells_ok_def)

lemma cell_step_hll_ok:
  assumes "\<And>b h. a = Some b \<Longrightarrow> agg_hll b = Some h \<Longrightarrow> hll_ok h" and "agg_hll (cell_step hll_on u a) = Some g"
  shows "hll_ok g"
  using assms by (auto simp: cell_step_def Let_def cellagg_default_def split: option.splits if_splits)

lemma cells_ok_alter: "cells_ok cs \<Longrightarrow> cells_ok (al_alter k (cell_step hll_on u) cs)"
  unfolding cells_ok_def
  by (auto simp: al_inv_alter map_of_al_alter intro: cell_step_hll_ok split: if_splits)

lemma add_to_cell_eq:
  "cells_ok cs \<Longrightarrow> add_to_cell hll_on u k cs = Inr (al_alter k (cell_step hll_on u) cs)"
proof -
  assume ok: "cells_ok cs"
  have "hll_insert h u = Inr (hll_ins u h)" if "map_of cs k = Some a" "agg_hll a = Some h" for a h
    using ok that by (auto simp: cells_ok_def intro: hll_insert_eq)
  then have "add_to_cell hll_on u k cs = Inr (al_put k (cell_step hll_on u (map_of cs k)) cs)"
    by (auto simp: add_to_cell_def cell_step_def Let_def cellagg_default_def hll_insert_eq split: option.splits)
  then show ?thesis by (simp add: al_put_lookup)
qed

lemma fold_res_add_to_cell:
  "cells_ok cs \<Longrightarrow>
   fold_res (add_to_cell hll_on u) ks cs = Inr (fold (\<lambda>k. al_alter k (cell_step hll_on u)) ks cs)"
  by (induction ks arbitrary: cs) (simp_all add: add_to_cell_eq cells_ok_alter)

lemma cells_ok_add: "cells_ok cs \<Longrightarrow> cells_ok (add_to_cells hll_on e cs)"
proof -
  have "cells_ok cs \<Longrightarrow> cells_ok (fold (\<lambda>k. al_alter k (cell_step hll_on u)) ks cs)" for u ks
    by (induction ks arbitrary: cs) (simp_all add: cells_ok_alter)
  then show "cells_ok cs \<Longrightarrow> cells_ok (add_to_cells hll_on e cs)" by (simp add: add_to_cells_def)
qed

lemma filter_eq_distinct: "distinct xs \<Longrightarrow> filter (\<lambda>x. x = c) xs = (if c \<in> set xs then [c] else [])"
  by (induction xs) auto

lemma map_of_add_to_cells:
  "al_inv cs \<Longrightarrow> map_of (add_to_cells hll_on e cs) c =
     (if c \<in> set (cells_for_event e) then Some (cell_step hll_on (ev_user e) (map_of cs c)) else map_of cs c)"
  unfolding add_to_cells_def
  using hash.lookup_fold [where key = "\<lambda>k :: CellKey. k" and upd = "\<lambda>_. cell_step hll_on (ev_user e)"]
  by (simp add: filter_eq_distinct)

lemma win_ok_step: "(\<And>v. ow = Some v \<Longrightarrow> win_ok v) \<Longrightarrow> win_ok (win_step hll_on r ow)"
  by (auto simp: win_ok_def win_step_def window_new_def Let_def cells_ok_add split: option.splits)

section \<open>Processing one event\<close>

definition ps_advance :: "instant \<Rightarrow> logrec \<Rightarrow> PartitionState \<Rightarrow> PartitionState" where
  "ps_advance now_wall r ps = ps\<lparr>next_offset := fst r + 1, last_event_wall := now_wall,
     max_event_ts := max (max_event_ts ps) (ev_ts (snd r))\<rparr>"

definition ps_fold :: "instant \<Rightarrow> logrec \<Rightarrow> PartitionState \<Rightarrow> PartitionState" where
  "ps_fold now_wall r ps = (ps_advance now_wall r ps)\<lparr>open_windows :=
     bt_alter (rec_window r) (win_step (hll_enabled ps) r) (open_windows ps)\<rparr>"

text \<open>A record the aggregator can process without panicking or wrapping its offset.\<close>

definition rec_ok :: "logrec \<Rightarrow> bool" where
  "rec_ok r \<longleftrightarrow> in_i64 (ev_ts (snd r)) \<and> 0 \<le> fst r \<and> fst r < 2 ^ 63 - 1"

definition is_late :: "PartitionState \<Rightarrow> logrec \<Rightarrow> bool" where
  "is_late ps r \<longleftrightarrow> window_end (rec_window r) \<le> flushed_watermark ps"

definition is_duplicate :: "PartitionState \<Rightarrow> logrec \<Rightarrow> bool" where
  "is_duplicate ps r \<longleftrightarrow>
     (\<exists>w. map_of (open_windows ps) (rec_window r) = Some w \<and> event_id (snd r) \<in> seen_ids w)"

lemma ps_okD:
  assumes "ps_ok ps"
  shows "bt_inv (open_windows ps)"
    "\<And>s w. map_of (open_windows ps) s = Some w \<Longrightarrow> win_ok w"
    "\<And>s w. map_of (open_windows ps) s = Some w \<Longrightarrow> flushed_watermark ps < window_end s"
  using assms by (auto simp: ps_ok_def)

lemma process_event_eq:
  assumes "duration_trunc_spec trunc" and "ps_ok ps" and "rec_ok r"
  shows "process_event trunc now_wall ps (snd r) (fst r) =
    Inr (if is_late ps r then (ps_advance now_wall r ps, Late)
         else (ps_fold now_wall r ps, if is_duplicate ps r then Duplicate else Accepted))"
proof -
  let ?w = "rec_window r"
  let ?win = "case map_of (open_windows ps) ?w of None \<Rightarrow> window_new (fst r) | Some w \<Rightarrow> w"
  have off: "wrap_i64 (fst r + 1) = fst r + 1" using assms(3) by (simp add: rec_ok_def in_i64_def)
  have max: "(if ev_ts (snd r) > max_event_ts ps then ev_ts (snd r) else max_event_ts ps)
      = max (max_event_ts ps) (ev_ts (snd r))" by simp
  have ok: "cells_ok (cells ?win)"
    using ps_okD(2) [OF assms(2)] by (auto simp: window_new_def win_ok_def split: option.splits)
  have ws: "window_start trunc (ev_ts (snd r)) = Inr ?w"
    using assms by (simp add: rec_ok_def rec_window_def)
  have dup: "event_id (snd r) \<in> seen_ids ?win \<longleftrightarrow> is_duplicate ps r"
    by (auto simp: is_duplicate_def window_new_def split: option.splits)
  have put: "bt_put ?w (win_step (hll_enabled ps) r (map_of (open_windows ps) ?w)) (open_windows ps)
      = bt_alter ?w (win_step (hll_enabled ps) r) (open_windows ps)"
    by (rule bt_put_lookup [OF ps_okD(1) [OF assms(2)]])
  show ?thesis
    unfolding process_event_def Let_def off max
    using dup fold_res_add_to_cell [OF ok, of "hll_enabled ps" "ev_user (snd r)"]
    by (simp add: ws is_late_def ps_fold_def ps_advance_def put [symmetric] win_step_def Let_def
        add_to_cells_def)
qed

section \<open>The invariant is kept\<close>

lemma ps_ok_resume [simp]: "ps_ok (resume_from now_wall p off wm)"
  by (simp add: ps_ok_def resume_from_def)

lemma ps_ok_with_hll [simp]: "ps_ok (with_hll_enabled ps b) = ps_ok ps"
  by (simp add: ps_ok_def with_hll_enabled_def)

lemma ps_ok_advance [simp]: "ps_ok (ps_advance now_wall r ps) = ps_ok ps"
  by (simp add: ps_ok_def ps_advance_def)

lemma ps_ok_fold: "ps_ok ps \<Longrightarrow> \<not> is_late ps r \<Longrightarrow> ps_ok (ps_fold now_wall r ps)"
  by (auto simp: ps_ok_def ps_fold_def ps_advance_def is_late_def bt_inv_alter map_of_bt_alter
      intro: win_ok_step split: if_splits)

lemma ps_ok_process_event:
  assumes "duration_trunc_spec trunc" and "ps_ok ps" and "rec_ok r"
    and "process_event trunc now_wall ps (snd r) (fst r) = Inr (ps', oc)"
  shows "ps_ok ps'"
  using assms process_event_eq [OF assms(1-3), of now_wall]
  by (auto simp: ps_ok_fold split: if_splits)

lemma ps_ok_tick [simp]: "ps_ok (tick_idle ps now_wall now_utc) = ps_ok ps"
  by (simp add: ps_ok_def tick_idle_def)

section \<open>Taking the closed windows\<close>

lemma take_windows_eq:
  "distinct (map fst ws) \<Longrightarrow> distinct starts \<Longrightarrow> set starts \<subseteq> fst ` set ws \<Longrightarrow>
   take_windows starts ws =
     (map (\<lambda>s. (s, the (map_of ws s))) starts, filter (\<lambda>sw. fst sw \<notin> set starts) ws)"
proof (induction starts arbitrary: ws)
  case Nil
  then show ?case by simp
next
  case (Cons s starts)
  from Cons.prems(3) obtain w where w: "map_of ws s = Some w"
    by (metis list.set_intros(1) map_of_eq_None_iff not_Some_eq subsetD)
  have d: "distinct (map fst (al_remove s ws))"
    using Cons.prems(1) al_inv_remove by (simp add: al_inv_def)
  have "set starts \<subseteq> fst ` set (al_remove s ws)"
    using Cons.prems(2,3) by (fastforce simp: al_remove_def)
  moreover have "map (\<lambda>x. (x, the (map_of (al_remove s ws) x))) starts = map (\<lambda>x. (x, the (map_of ws x))) starts"
    using Cons.prems(2) by (intro map_cong) auto
  moreover have "filter (\<lambda>sw. fst sw \<notin> set starts) (al_remove s ws) = filter (\<lambda>sw. fst sw \<notin> set (s # starts)) ws"
    unfolding al_remove_def by (simp add: conj_commute)
  ultimately show ?case using Cons.IH [OF d] Cons.prems(2) w by simp
qed

lemma map_the_map_of:
  "distinct (map fst ws) \<Longrightarrow>
   map (\<lambda>s. (s, the (map_of ws s))) (filter P (map fst ws)) = filter (\<lambda>sw. P (fst sw)) ws"
  unfolding filter_map map_map comp_def by (rule map_idI) auto

lemma take_closed_windows_eq:
  assumes "bt_inv (open_windows ps)"
  shows "take_closed_windows ps =
    (filter (\<lambda>sw. window_end (fst sw) \<le> watermark ps) (open_windows ps),
     ps\<lparr>open_windows := filter (\<lambda>sw. \<not> window_end (fst sw) \<le> watermark ps) (open_windows ps),
        flushed_watermark := max (flushed_watermark ps) (watermark ps)\<rparr>)"
proof -
  let ?starts = "filter (\<lambda>start. window_end start \<le> watermark ps) (map fst (open_windows ps))"
  have d: "distinct (map fst (open_windows ps))" using assms by (rule bt_inv_distinct)
  then have "take_windows ?starts (open_windows ps) =
      (filter (\<lambda>sw. window_end (fst sw) \<le> watermark ps) (open_windows ps),
       filter (\<lambda>sw. fst sw \<notin> set ?starts) (open_windows ps))"
    by (subst take_windows_eq) (auto simp: map_the_map_of)
  moreover have "filter (\<lambda>sw. fst sw \<notin> set ?starts) (open_windows ps) =
      filter (\<lambda>sw. \<not> window_end (fst sw) \<le> watermark ps) (open_windows ps)"
    by (rule filter_cong) auto
  ultimately show ?thesis
    by (simp add: take_closed_windows_def Let_def max_def)
qed

lemma ps_ok_take:
  assumes "ps_ok ps"
  shows "ps_ok (snd (take_closed_windows ps))"
  using assms bt_inv_distinct [OF ps_okD(1) [OF assms]]
  by (auto simp: take_closed_windows_eq ps_ok_def bt_inv_filter
      map_of_filter_distinct [where P = "\<lambda>s. \<not> window_end s \<le> watermark ps"] split: if_splits)

section \<open>Committed offset\<close>

lemma fold_min_le_init: "fold min xs (x :: int) \<le> x"
proof (induction xs arbitrary: x)
  case (Cons y ys)
  from Cons [of "min y x"] show ?case by simp
qed simp

lemma fold_min_le: "y \<in> set xs \<Longrightarrow> fold min xs (x :: int) \<le> y"
proof (induction xs arbitrary: x)
  case (Cons z zs)
  then show ?case using fold_min_le_init [of zs "min z x"] by auto
qed simp

lemma committed_offset_le:
  assumes "map_of (open_windows ps) s = Some w"
  shows "committed_offset ps \<le> min_offset w"
proof -
  let ?os = "map (min_offset \<circ> snd) (open_windows ps)"
  from assms have "min_offset w \<in> set ?os" by (force dest: map_of_SomeD)
  then show ?thesis
    by (cases ?os) (auto simp: committed_offset_def fold_min_le fold_min_le_init)
qed

lemma committed_offset_Nil: "open_windows ps = [] \<Longrightarrow> committed_offset ps = next_offset ps"
  by (simp add: committed_offset_def)

lemma fold_min_mem: "fold min xs (x :: int) \<in> insert x (set xs)"
proof (induction xs arbitrary: x)
  case (Cons y ys)
  from Cons [of "min y x"] show ?case by (auto simp: min_def split: if_splits)
qed simp

lemma committed_offset_mem:
  assumes "open_windows ps \<noteq> []"
  shows "committed_offset ps \<in> (min_offset \<circ> snd) ` set (open_windows ps)"
proof (cases "open_windows ps")
  case (Cons sw sws)
  with fold_min_mem [of "map (min_offset \<circ> snd) sws" "min_offset (snd sw)"] show ?thesis
    by (auto simp: committed_offset_def)
qed (use assms in simp)

section \<open>Closed form of a built window\<close>

lemma build_window_Nil [simp]: "build_window hll_on [] = None"
  by (simp add: build_window_def)

lemma win_step_None: "win_step hll_on r None = win_step hll_on r (Some (window_new (fst r)))"
  by (simp add: win_step_def)

lemma build_window_Cons:
  "build_window hll_on (r # rs) =
     fold (\<lambda>r w. Some (win_step hll_on r w)) (r # rs) (Some (window_new (fst r)))"
  by (simp add: build_window_def win_step_None)

lemma build_window_snoc:
  "build_window hll_on (rs @ [r]) = Some (win_step hll_on r (build_window hll_on rs))"
  by (simp add: build_window_def)

lemma build_window_Some: "build_window hll_on rs = None \<longleftrightarrow> rs = []"
  by (cases rs rule: rev_cases) (simp_all add: build_window_snoc)

definition cells_of :: "CellKey \<Rightarrow> logrec list \<Rightarrow> string list" where
  "cells_of c rs = map (ev_user \<circ> snd) (filter (\<lambda>r. c \<in> set (cells_for_event (snd r))) rs)"

lemma fold_win_step:
  assumes "al_inv (cells w0)" and "fold (\<lambda>r w. Some (win_step hll_on r w)) rs (Some w0) = Some w"
  shows "al_inv (cells w) \<and> seen_ids w = seen_ids w0 \<union> (event_id \<circ> snd) ` set rs \<and>
    map_of (cells w) c =
      fold (\<lambda>u a. Some (cell_step hll_on u a)) (cells_of c (dedup (seen_ids w0) rs)) (map_of (cells w0) c)"
  using assms
proof (induction rs arbitrary: w0)
  case Nil
  then show ?case by (simp add: cells_of_def)
next
  case (Cons r rs)
  let ?w1 = "win_step hll_on r (Some w0)"
  have inv: "al_inv (cells ?w1)"
    using Cons.prems(1) unfolding add_to_cells_def win_step_def
    by (simp add: Let_def add_to_cells_def hash.invar_fold [where key = "\<lambda>k. k" and upd = "\<lambda>_. _"])
  from Cons.prems(2) have "fold (\<lambda>r w. Some (win_step hll_on r w)) rs (Some ?w1) = Some w" by simp
  from Cons.IH [OF inv this] Cons.prems(1) show ?case
    by (auto simp: win_step_def Let_def map_of_add_to_cells cells_of_def insert_absorb)
qed

definition cell_total :: "bool \<Rightarrow> string list \<Rightarrow> CellAgg option" where
  "cell_total hll_on us =
     (if us = [] then None
      else Some \<lparr>agg_events = of_nat (length us), agg_users = set us,
        agg_hll = (if hll_on then Some (fold hll_ins us hll_empty) else None)\<rparr>)"

lemma cell_step_total: "cell_step hll_on u (cell_total hll_on us) = the (cell_total hll_on (us @ [u]))"
  by (simp add: cell_step_def cell_total_def cellagg_default_def)

lemma fold_cell_step: "fold (\<lambda>u a. Some (cell_step hll_on u a)) us None = cell_total hll_on us"
proof (induction us rule: rev_induct)
  case Nil
  then show ?case by (simp add: cell_total_def)
next
  case (snoc u us)
  then show ?case by (simp add: cell_step_total) (simp add: cell_total_def)
qed

lemma build_window_fields:
  assumes "build_window hll_on rs = Some w"
  shows "al_inv (cells w)" "seen_ids w = (event_id \<circ> snd) ` set rs"
    "map_of (cells w) c = cell_total hll_on (cells_of c (dedup {} rs))"
proof -
  from assms obtain r rs' where rs: "rs = r # rs'" by (cases rs) auto
  have "fold (\<lambda>r w. Some (win_step hll_on r w)) rs (Some (window_new (fst r))) = Some w"
    using assms by (simp only: rs build_window_Cons)
  from fold_win_step [OF _ this, of c]
  have "al_inv (cells w) \<and> seen_ids w = (event_id \<circ> snd) ` set rs \<and>
      map_of (cells w) c = cell_total hll_on (cells_of c (dedup {} rs))"
    by (simp add: window_new_def fold_cell_step)
  then show "al_inv (cells w)" "seen_ids w = (event_id \<circ> snd) ` set rs"
    "map_of (cells w) c = cell_total hll_on (cells_of c (dedup {} rs))" by simp_all
qed

lemma cells_of_dedup:
  "length (cells_of c (dedup {} rs)) = true_events c rs"
  "set (cells_of c (dedup {} rs)) = true_users c rs"
  by (simp_all add: cells_of_def true_events_def true_users_def contributing_def)

lemma fold_win_step_min:
  assumes "\<forall>r \<in> set rs. min_offset w0 \<le> fst r"
    and "fold (\<lambda>r w. Some (win_step hll_on r w)) rs (Some w0) = Some w"
  shows "min_offset w = min_offset w0"
  using assms
proof (induction rs arbitrary: w0)
  case (Cons r rs)
  have "min_offset (win_step hll_on r (Some w0)) = min_offset w0"
    using Cons.prems(1) by (simp add: win_step_def Let_def)
  with Cons.IH [of "win_step hll_on r (Some w0)"] Cons.prems show ?case by simp
qed simp

lemma build_window_min_offset:
  assumes "build_window hll_on (r # rs) = Some w" and "\<forall>x \<in> set rs. fst r \<le> fst x"
  shows "min_offset w = fst r"
  using fold_win_step_min [of "r # rs" "window_new (fst r)" hll_on w] assms
  by (simp add: build_window_Cons window_new_def)

end
