(* ===== verification/AggReplay.thy ===== *)
theory AggReplay
  imports AggWindow
begin

text \<open>
  What the windows of one partition mean with respect to the log it consumed. \<open>exact ps rs\<close> says
  that every window not yet flushed holds precisely the records of \<open>rs\<close> that belong to it; each
  operation of \<^verbatim>\<open>window.rs\<close> keeps it, and resuming from a checkpoint re-establishes it.
\<close>

definition exact :: "PartitionState \<Rightarrow> logrec list \<Rightarrow> bool" where
  "exact ps rs \<longleftrightarrow>
     (\<forall>w. flushed_watermark ps < window_end w \<longrightarrow>
        map_of (open_windows ps) w = build_window (hll_enabled ps) (in_window w rs))"

text \<open>A checkpoint is safe for a log when no record before its offset belongs to a window after its
  watermark: nothing that still has to be counted is skipped.\<close>

definition safe_checkpoint :: "logrec list \<Rightarrow> i64 \<Rightarrow> datetime \<Rightarrow> bool" where
  "safe_checkpoint lg c wm \<longleftrightarrow>
     list_all (\<lambda>r. fst r < c \<longrightarrow> window_end (rec_window r) \<le> wm) lg"

text \<open>The records before an offset.\<close>

definition before :: "logrec list \<Rightarrow> i64 \<Rightarrow> logrec list" where
  "before lg c = filter (\<lambda>r. fst r < c) lg"

text \<open>A Kafka partition log: offsets increase and every record can be processed.\<close>

definition log_ok :: "logrec list \<Rightarrow> bool" where
  "log_ok lg \<longleftrightarrow> sorted_wrt (<) (map fst lg) \<and> list_all rec_ok lg"

text \<open>An aggregate cell agrees with the true totals of a list of records.\<close>

definition cell_matches :: "CellAgg option \<Rightarrow> CellKey \<Rightarrow> logrec list \<Rightarrow> bool" where
  "cell_matches a c rs =
     (case a of
        None \<Rightarrow> true_events c rs = 0
      | Some g \<Rightarrow> 0 < true_events c rs \<and> agg_events g = of_nat (true_events c rs) \<and>
                  agg_users g = true_users c rs)"

text \<open>A plain event for concrete runs.\<close>

definition demo_event :: "uuid \<Rightarrow> string \<Rightarrow> datetime \<Rightarrow> Event" where
  "demo_event i u t = \<lparr>event_id = i, ev_user = u, ev_ts = t, ev_family = ''wikipedia'',
     ev_wiki = ''enwiki'', ev_namespace = 0, ev_kind = Edit, ev_is_bot = False\<rparr>"

lemma cell_matches_built:
  "build_window hll_on rs = Some w \<Longrightarrow> cell_matches (map_of (cells w) c) c rs"
  by (auto simp: build_window_fields cell_matches_def cell_total_def simp flip: cells_of_dedup)

lemma in_window_append [simp]: "in_window w (rs @ rs') = in_window w rs @ in_window w rs'"
  by (simp add: in_window_def)

lemma in_window_single [simp]: "in_window w [r] = (if rec_window r = w then [r] else [])"
  by (simp add: in_window_def)

lemma in_window_Nil [simp]: "in_window w [] = []"
  by (simp add: in_window_def)

lemma in_window_empty_iff: "in_window w rs = [] \<longleftrightarrow> (\<forall>r \<in> set rs. rec_window r \<noteq> w)"
  by (simp add: in_window_def filter_empty_conv)

lemma exactD: "exact ps rs \<Longrightarrow> flushed_watermark ps < window_end w \<Longrightarrow>
    map_of (open_windows ps) w = build_window (hll_enabled ps) (in_window w rs)"
  by (simp add: exact_def)

section \<open>Every operation keeps exactness\<close>

lemma exact_advance: "is_late ps r \<Longrightarrow> exact ps rs \<Longrightarrow> exact (ps_advance now_wall r ps) (rs @ [r])"
  by (auto simp: exact_def ps_advance_def is_late_def)

lemma exact_fold:
  "ps_ok ps \<Longrightarrow> exact ps rs \<Longrightarrow> \<not> is_late ps r \<Longrightarrow> exact (ps_fold now_wall r ps) (rs @ [r])"
  by (auto simp: exact_def ps_fold_def ps_advance_def is_late_def map_of_bt_alter ps_okD build_window_snoc)

lemma exact_process_event:
  assumes "duration_trunc_spec trunc" and "ps_ok ps" and "rec_ok r" and "exact ps rs"
    and "process_event trunc now_wall ps (snd r) (fst r) = Inr (ps', oc)"
  shows "exact ps' (rs @ [r])"
  using assms process_event_eq [OF assms(1-3), of now_wall]
  by (auto simp: exact_fold exact_advance split: if_splits)

lemma exact_tick [simp]: "exact (tick_idle ps now_wall now_utc) rs = exact ps rs"
  by (simp add: exact_def tick_idle_def)

lemma exact_take:
  assumes "ps_ok ps" and "exact ps rs"
  shows "exact (snd (take_closed_windows ps)) rs"
  using assms bt_inv_distinct [OF ps_okD(1) [OF assms(1)]]
  by (auto simp: take_closed_windows_eq ps_okD exact_def
      map_of_filter_distinct [where P = "\<lambda>s. \<not> window_end s \<le> watermark ps"])

lemma exact_resume:
  assumes "safe_checkpoint lg c wm"
  shows "exact (with_hll_enabled (resume_from now_wall p c wm) hll_on) (before lg c)"
proof -
  have "in_window w (before lg c) = []" if "wm < window_end w" for w
    using assms that by (auto simp: in_window_empty_iff safe_checkpoint_def list_all_iff before_def)
  then show ?thesis by (simp add: exact_def with_hll_enabled_def resume_from_def)
qed

text \<open>The windows handed out by a flush are exactly what the consumed log says they are.\<close>

lemma taken_exact:
  assumes "ps_ok ps" and "exact ps rs" and "(w, win) \<in> set (fst (take_closed_windows ps))"
  shows "build_window (hll_enabled ps) (in_window w rs) = Some win"
    "window_end w \<le> flushed_watermark (snd (take_closed_windows ps))"
proof -
  have d: "distinct (map fst (open_windows ps))"
    using bt_inv_distinct [OF ps_okD(1) [OF assms(1)]] .
  from assms(1,3) have m: "(w, win) \<in> set (open_windows ps)" and "window_end w \<le> watermark ps"
    by (auto simp: take_closed_windows_eq ps_okD)
  then show "window_end w \<le> flushed_watermark (snd (take_closed_windows ps))"
    using assms(1) by (simp add: take_closed_windows_eq ps_okD)
  from m d have "map_of (open_windows ps) w = Some win" by simp
  with exactD [OF assms(2)] ps_okD(3) [OF assms(1)]
  show "build_window (hll_enabled ps) (in_window w rs) = Some win" by metis
qed

section \<open>Checkpoints\<close>

lemma sorted_in_window: "sorted_wrt (<) (map fst rs) \<Longrightarrow> sorted_wrt (<) (map fst (in_window w rs))"
  by (induction rs) (auto simp: in_window_def)

lemma sorted_before: "sorted_wrt (<) (map fst rs) \<Longrightarrow> sorted_wrt (<) (map fst (before rs c))"
  by (induction rs) (auto simp: before_def)

lemma in_window_first:
  assumes "sorted_wrt (<) (map fst rs)" and "build_window hll_on (in_window w rs) = Some win"
  shows "\<exists>x \<in> set rs. min_offset win = fst x" "r \<in> set rs \<Longrightarrow> rec_window r = w \<Longrightarrow> min_offset win \<le> fst r"
proof -
  have s: "sorted_wrt (<) (map fst (in_window w rs))" using assms(1) by (rule sorted_in_window)
  from assms(2) obtain x xs where xs: "in_window w rs = x # xs" by (cases "in_window w rs") auto
  with s have "\<forall>y \<in> set xs. fst x \<le> fst y" by auto
  with assms(2) xs have m: "min_offset win = fst x" by (simp add: build_window_min_offset)
  have "x \<in> set (in_window w rs)" by (simp add: xs)
  with m show "\<exists>x \<in> set rs. min_offset win = fst x" by (auto simp: in_window_def)
  assume "r \<in> set rs" and "rec_window r = w"
  then have "r \<in> set (in_window w rs)" by (simp add: in_window_def)
  with m s xs show "min_offset win \<le> fst r" by auto
qed

lemma committed_le_next:
  assumes "log_ok lg" and "ps_ok ps" and "exact ps (before lg (next_offset ps))"
  shows "committed_offset ps \<le> next_offset ps"
proof (cases "open_windows ps")
  case Nil
  then show ?thesis by (simp add: committed_offset_Nil)
next
  case (Cons sw sws)
  then have m: "map_of (open_windows ps) (fst sw) = Some (snd sw)" by (cases sw) simp
  with exactD [OF assms(3)] ps_okD(3) [OF assms(2)]
  have "build_window (hll_enabled ps) (in_window (fst sw) (before lg (next_offset ps))) = Some (snd sw)"
    by metis
  then have "min_offset (snd sw) < next_offset ps"
    using in_window_first(1) [OF sorted_before] assms(1) by (fastforce simp: log_ok_def before_def)
  with committed_offset_le [OF m] show ?thesis by simp
qed

text \<open>The offset and watermark a flush records form a safe checkpoint.\<close>

lemma safe_checkpoint_committed:
  assumes "log_ok lg" and "ps_ok ps" and "exact ps (before lg (next_offset ps))"
  shows "safe_checkpoint lg (committed_offset ps) (flushed_watermark ps)"
  unfolding safe_checkpoint_def list_all_iff
proof (intro ballI impI)
  fix r
  assume r: "r \<in> set lg" "fst r < committed_offset ps"
  let ?rs = "before lg (next_offset ps)" and ?w = "rec_window r"
  have mem: "r \<in> set ?rs" using r committed_le_next [OF assms] by (simp add: before_def)
  show "window_end ?w \<le> flushed_watermark ps"
  proof (rule ccontr)
    assume "\<not> ?thesis"
    then have m: "map_of (open_windows ps) ?w = build_window (hll_enabled ps) (in_window ?w ?rs)"
      using assms(3) by (simp add: exactD)
    from mem obtain win where win: "build_window (hll_enabled ps) (in_window ?w ?rs) = Some win"
      by (cases "build_window (hll_enabled ps) (in_window ?w ?rs)")
         (auto simp: build_window_Some in_window_empty_iff)
    with m have "committed_offset ps \<le> min_offset win" by (simp add: committed_offset_le)
    moreover have "min_offset win \<le> fst r"
      using in_window_first(2) [OF sorted_before win mem] assms(1) by (simp add: log_ok_def)
    ultimately show False using r(2) by simp
  qed
qed

section \<open>Runs\<close>

lemma process_event_fields:
  assumes "duration_trunc_spec trunc" and "ps_ok ps" and "rec_ok r"
    and "process_event trunc now_wall ps (snd r) (fst r) = Inr (ps', oc)"
  shows "flushed_watermark ps' = flushed_watermark ps" "hll_enabled ps' = hll_enabled ps"
    "next_offset ps' = fst r + 1" "last_event_wall ps' = now_wall"
    "max_event_ts ps' = max (ev_ts (snd r)) (max_event_ts ps)" "ps_partition ps' = ps_partition ps"
  using assms(4) process_event_eq [OF assms(1-3), of now_wall]
  by (auto simp: ps_fold_def ps_advance_def max.commute split: if_splits)

lemma process_all_exact:
  assumes "duration_trunc_spec trunc" and "ps_ok ps" and "list_all rec_ok rs" and "exact ps rs0"
  shows "\<exists>ps'. process_all trunc clock ps rs = Inr ps' \<and> ps_ok ps' \<and> exact ps' (rs0 @ rs) \<and>
    flushed_watermark ps' = flushed_watermark ps \<and> hll_enabled ps' = hll_enabled ps \<and>
    next_offset ps' = (if rs = [] then next_offset ps else fst (last rs) + 1) \<and>
    last_event_wall ps' = (if rs = [] then last_event_wall ps else clock (fst (last rs))) \<and>
    max_event_ts ps' = fold max (map (ev_ts \<circ> snd) rs) (max_event_ts ps)"
  using assms(2-4)
proof (induction rs arbitrary: ps rs0)
  case Nil
  then show ?case by simp
next
  case (Cons r rs)
  then have r: "rec_ok r" by simp
  obtain ps1 oc where ps1: "process_event trunc (clock (fst r)) ps (snd r) (fst r) = Inr (ps1, oc)"
    using process_event_eq [OF assms(1) Cons.prems(1) r, of "clock (fst r)"]
    by (cases "is_late ps r") simp_all
  note fields = process_event_fields [OF assms(1) Cons.prems(1) r ps1]
  have "ps_ok ps1" and "exact ps1 (rs0 @ [r])"
    using ps_ok_process_event [OF assms(1) Cons.prems(1) r ps1]
      exact_process_event [OF assms(1) Cons.prems(1) r Cons.prems(3) ps1] by simp_all
  with Cons.IH [of ps1 "rs0 @ [r]"] Cons.prems(2) show ?case
    by (cases "rs = []") (simp_all add: ps1 fields)
qed

lemma fold_max_ge:
  "(x :: int) \<le> fold max xs x" "y \<in> set xs \<Longrightarrow> y \<le> fold max xs x"
  "(\<And>y. y \<in> insert x (set xs) \<Longrightarrow> y < b) \<Longrightarrow> fold max xs x < b"
proof -
  show ge: "(x :: int) \<le> fold max xs x" for x xs
  proof (induction xs arbitrary: x)
    case (Cons y ys)
    from Cons [of "max y x"] show ?case by simp
  qed simp
  show "y \<in> set xs \<Longrightarrow> y \<le> fold max xs x"
  proof (induction xs arbitrary: x)
    case (Cons z zs)
    then show ?case using ge [of "max z x" zs] by auto
  qed simp
  show "(\<And>y. y \<in> insert x (set xs) \<Longrightarrow> y < b) \<Longrightarrow> fold max xs x < b"
  proof (induction xs arbitrary: x)
    case (Cons z zs)
    from Cons.prems show ?case by (simp, intro Cons.IH) (auto simp: max_def)
  qed simp
qed

lemma open_window_source:
  assumes "ps_ok ps" and "exact ps rs" and "map_of (open_windows ps) w = Some win"
  shows "build_window (hll_enabled ps) (in_window w rs) = Some win" "\<exists>r \<in> set rs. rec_window r = w"
proof -
  show b: "build_window (hll_enabled ps) (in_window w rs) = Some win"
    using exactD [OF assms(2)] ps_okD(3) [OF assms(1,3)] assms(3) by simp
  have "in_window w rs \<noteq> []" using b by (auto simp: build_window_Some [symmetric])
  then show "\<exists>r \<in> set rs. rec_window r = w" by (auto simp: in_window_empty_iff)
qed

lemma take_all_closed:
  assumes "ps_ok ps" and "\<And>w win. map_of (open_windows ps) w = Some win \<Longrightarrow> window_end w \<le> watermark ps"
  shows "fst (take_closed_windows ps) = open_windows ps" "open_windows (snd (take_closed_windows ps)) = []"
proof -
  have "window_end (fst sw) \<le> watermark ps" if "sw \<in> set (open_windows ps)" for sw
    using that assms(2) bt_inv_distinct [OF ps_okD(1) [OF assms(1)]]
    by (metis map_of_eq_Some_iff prod.collapse)
  then show "fst (take_closed_windows ps) = open_windows ps" "open_windows (snd (take_closed_windows ps)) = []"
    using ps_okD(1) [OF assms(1)] by (simp_all add: take_closed_windows_eq)
qed

lemma tick_idle_fires:
  assumes "rs \<noteq> []" and "list_all (\<lambda>r. wm < window_end (rec_window r)) rs"
    and "list_all (\<lambda>r. IDLE_PARTITION_TIMEOUT < now_wall - clock (fst r) \<and>
           window_end (rec_window r) + ALLOWED_LATENESS \<le> now_utc) rs"
    and "last_event_wall ps = clock (fst (last rs))"
    and "max_event_ts ps = fold max (map (ev_ts \<circ> snd) rs) wm"
  shows "max_event_ts (tick_idle ps now_wall now_utc) = now_utc"
proof -
  have l: "last rs \<in> set rs" using assms(1) by simp
  have pos: "0 < ALLOWED_LATENESS" "0 < IDLE_PARTITION_TIMEOUT" by (simp_all add: time_defs)
  have "ev_ts (snd r) < now_utc" if "r \<in> set rs" for r
    using assms(3) that less_window_end_wstart [of "ev_ts (snd r)"] pos
    by (fastforce simp: list_all_iff rec_window_def)
  moreover have "wm < now_utc" using assms(2,3) l pos by (fastforce simp: list_all_iff)
  ultimately have "max_event_ts ps < now_utc" unfolding assms(5) by (intro fold_max_ge(3)) auto
  moreover have "IDLE_PARTITION_TIMEOUT < now_wall - last_event_wall ps"
    using assms(3,4) l by (auto simp: list_all_iff)
  ultimately show ?thesis using pos by (simp add: tick_idle_def)
qed

lemma run_then_flush:
  assumes "duration_trunc_spec trunc" and "list_all rec_ok rs"
    and "list_all (\<lambda>r. wm < window_end (rec_window r)) rs"
    and "list_all (\<lambda>r. IDLE_PARTITION_TIMEOUT < now_wall - clock (fst r) \<and>
           window_end (rec_window r) + ALLOWED_LATENESS \<le> now_utc) rs"
  shows "\<exists>ps cl ps'.
    process_all trunc clock (with_hll_enabled (resume_from wall0 p c wm) hll_on) rs = Inr ps \<and>
    take_closed_windows (tick_idle ps now_wall now_utc) = (cl, ps') \<and> open_windows ps' = [] \<and>
    distinct (map fst cl) \<and> (\<forall>w. map_of cl w = build_window hll_on (in_window w rs))"
proof -
  let ?fresh = "with_hll_enabled (resume_from wall0 p c wm) hll_on"
  have "ps_ok ?fresh" by simp
  moreover have "exact ?fresh []" by (simp add: exact_def with_hll_enabled_def resume_from_def)
  ultimately obtain ps where run: "process_all trunc clock ?fresh rs = Inr ps" and ok: "ps_ok ps" and ex: "exact ps rs"
    and fw: "flushed_watermark ps = wm" and hl: "hll_enabled ps = hll_on"
    and wall: "rs \<noteq> [] \<Longrightarrow> last_event_wall ps = clock (fst (last rs))"
    and mx: "max_event_ts ps = fold max (map (ev_ts \<circ> snd) rs) wm"
    using process_all_exact [OF assms(1) _ assms(2), of ?fresh "[]" clock]
    by (auto simp: with_hll_enabled_def resume_from_def)
  let ?t = "tick_idle ps now_wall now_utc"
  have ow: "open_windows ?t = open_windows ps" by (simp add: tick_idle_def)
  have idle: "max_event_ts ?t = now_utc" if "rs \<noteq> []"
    using tick_idle_fires [of rs wm now_wall clock now_utc ps] that assms(3,4) wall mx by simp
  have "window_end w \<le> watermark ?t" if "map_of (open_windows ?t) w = Some win" for w win
    using open_window_source(2) [OF ok ex, of w win] that assms(4) idle
    by (fastforce simp: ow list_all_iff watermark_def)
  from take_all_closed [of ?t, OF _ this] ok
  have cl: "fst (take_closed_windows ?t) = open_windows ps" "open_windows (snd (take_closed_windows ?t)) = []"
    by (simp_all add: ow)
  have "map_of (open_windows ps) w = build_window hll_on (in_window w rs)" for w
  proof (cases "wm < window_end w")
    case True
    with exactD [OF ex] show ?thesis by (simp add: fw hl)
  next
    case False
    then have "in_window w rs = []" using assms(3) by (auto simp: in_window_empty_iff list_all_iff)
    moreover have "map_of (open_windows ps) w = None"
      using ps_okD(3) [OF ok, of w] False by (cases "map_of (open_windows ps) w") (simp_all add: fw)
    ultimately show ?thesis by simp
  qed
  with cl run bt_inv_distinct [OF ps_okD(1) [OF ok]] show ?thesis
    by (intro exI [of _ ps] exI [of _ "open_windows ps"] exI [of _ "snd (take_closed_windows ?t)"])
       (simp add: prod_eq_iff)
qed

section \<open>Properties\<close>

text \<open>C12: the flushed totals are the true totals, under duplicates and any arrival order. Whatever
  records a partition consumes (repeated event ids, timestamps in any order) as long as none of
  their windows was flushed before, nothing panics, and once the idle detection has moved the
  watermark past every window, one flush hands out every window that has a record and no other,
  leaves nothing open, and in every window every cell carries the number of distinct events and
  the exact set of users of the records of that window.\<close>

theorem flushed_totals_match_true_totals:
  assumes "duration_trunc_spec trunc" and "list_all rec_ok rs"
    and "list_all (\<lambda>r. wm < window_end (rec_window r)) rs"
    and "list_all (\<lambda>r. IDLE_PARTITION_TIMEOUT < now_wall - clock (fst r) \<and>
           window_end (rec_window r) + ALLOWED_LATENESS \<le> now_utc) rs"
  shows "\<exists>ps closed ps'.
    process_all trunc clock (with_hll_enabled (resume_from wall0 p c wm) hll_on) rs = Inr ps \<and>
    take_closed_windows (tick_idle ps now_wall now_utc) = (closed, ps') \<and> open_windows ps' = [] \<and>
    (\<forall>w. map_of closed w = None \<longleftrightarrow> in_window w rs = []) \<and>
    (\<forall>w win k. map_of closed w = Some win \<longrightarrow> cell_matches (map_of (cells win) k) k (in_window w rs))"
proof -
  from run_then_flush [OF assms, of wall0 p c hll_on] obtain ps cl ps'
    where run: "process_all trunc clock (with_hll_enabled (resume_from wall0 p c wm) hll_on) rs = Inr ps"
      "take_closed_windows (tick_idle ps now_wall now_utc) = (cl, ps')" "open_windows ps' = []"
    and win: "\<And>w. map_of cl w = build_window hll_on (in_window w rs)" by blast
  have "map_of cl w = None \<longleftrightarrow> in_window w rs = []" for w by (simp add: win build_window_Some)
  moreover have "cell_matches (map_of (cells v) k) k (in_window w rs)" if "map_of cl w = Some v" for w v k
    using that by (simp add: win cell_matches_built)
  ultimately show ?thesis using run by blast
qed

theorem flushed_totals_match_true_totals_witness:
  "list_all rec_ok [(0, demo_event 1 ''u1'' (seconds 5)), (1, demo_event 1 ''u1'' (seconds 5)),
      (2, demo_event 2 ''u2'' (seconds 3))] \<and>
   (\<exists>ps closed ps'.
     process_all floor_trunc (\<lambda>_. 0) (with_hll_enabled (resume_from 0 0 0 0) False)
       [(0, demo_event 1 ''u1'' (seconds 5)), (1, demo_event 1 ''u1'' (seconds 5)),
        (2, demo_event 2 ''u2'' (seconds 3))] = Inr ps \<and>
     take_closed_windows (tick_idle ps (seconds 11) (seconds 3600)) = (closed, ps') \<and>
     open_windows ps' = [])"
proof -
  let ?rs = "[(0, demo_event 1 ''u1'' (seconds 5)), (1, demo_event 1 ''u1'' (seconds 5)),
      (2, demo_event 2 ''u2'' (seconds 3))]"
  have a: "list_all rec_ok ?rs" by (simp add: rec_ok_def demo_event_def in_i64_def seconds_def)
  have b: "list_all (\<lambda>r. 0 < window_end (rec_window r)) ?rs"
    and c: "list_all (\<lambda>r. IDLE_PARTITION_TIMEOUT < seconds 11 - (\<lambda>_. 0) (fst r) \<and>
           window_end (rec_window r) + ALLOWED_LATENESS \<le> seconds 3600) ?rs"
    by (simp_all add: rec_window_def wstart_def window_end_def demo_event_def time_defs)
  from flushed_totals_match_true_totals [OF floor_trunc_spec a b c] a show ?thesis by blast
qed

text \<open>C21: processing an event follows the documented rules on every branch. The consumed position,
  the high-water timestamp and the receive time advance whatever the outcome; the event is \<open>Late\<close>
  exactly when its window ends at or before the flushed watermark and then no window changes;
  otherwise it is \<open>Duplicate\<close> exactly when its id was already seen in its window, and \<open>Accepted\<close>
  otherwise; a duplicate changes no window, and an accepted event changes its own window only,
  whose id set gains the event.\<close>

theorem process_event_outcomes:
  assumes "duration_trunc_spec trunc" and "ps_ok ps" and "rec_ok (off, e)"
  shows "\<exists>ps' oc. process_event trunc now_wall ps e off = Inr (ps', oc) \<and> ps_ok ps' \<and>
    next_offset ps' = off + 1 \<and> last_event_wall ps' = now_wall \<and>
    max_event_ts ps' = max (max_event_ts ps) (ev_ts e) \<and>
    flushed_watermark ps' = flushed_watermark ps \<and>
    (oc = Late \<longleftrightarrow> window_end (wstart (ev_ts e)) \<le> flushed_watermark ps) \<and>
    (oc = Duplicate \<longleftrightarrow> (\<exists>w. map_of (open_windows ps) (wstart (ev_ts e)) = Some w \<and> event_id e \<in> seen_ids w)) \<and>
    (oc \<noteq> Accepted \<longrightarrow> map_of (open_windows ps') = map_of (open_windows ps)) \<and>
    (oc = Accepted \<longrightarrow> (\<exists>w'. map_of (open_windows ps') =
        (map_of (open_windows ps))(wstart (ev_ts e) \<mapsto> w') \<and> event_id e \<in> seen_ids w'))"
proof -
  let ?r = "(off, e)"
  have eq: "process_event trunc now_wall ps e off = Inr (if is_late ps ?r then (ps_advance now_wall ?r ps, Late)
      else (ps_fold now_wall ?r ps, if is_duplicate ps ?r then Duplicate else Accepted))"
    using process_event_eq [OF assms, of now_wall] by simp
  have late: "is_late ps ?r \<longleftrightarrow> window_end (wstart (ev_ts e)) \<le> flushed_watermark ps"
    by (simp add: is_late_def rec_window_def)
  have dup: "is_duplicate ps ?r \<longleftrightarrow>
      (\<exists>w. map_of (open_windows ps) (wstart (ev_ts e)) = Some w \<and> event_id e \<in> seen_ids w)"
    by (simp add: is_duplicate_def rec_window_def)
  have nl: "\<not> is_late ps ?r" if "is_duplicate ps ?r"
    using that ps_okD(3) [OF assms(2)] by (force simp: late dup)
  have same: "map_of (open_windows (ps_fold now_wall ?r ps)) = map_of (open_windows ps)" if "is_duplicate ps ?r"
    using that ps_okD(1) [OF assms(2)]
    by (auto simp: ps_fold_def map_of_bt_alter win_step_def Let_def is_duplicate_def fun_eq_iff)
  have acc: "\<exists>w'. map_of (open_windows (ps_fold now_wall ?r ps)) =
        (map_of (open_windows ps))(wstart (ev_ts e) \<mapsto> w') \<and> event_id e \<in> seen_ids w'"
    using ps_okD(1) [OF assms(2)]
    by (intro exI [of _ "win_step (hll_enabled ps) ?r (map_of (open_windows ps) (wstart (ev_ts e)))"])
       (auto simp: ps_fold_def map_of_bt_alter rec_window_def win_step_def Let_def)
  show ?thesis
  proof (cases "is_late ps ?r")
    case True
    moreover have "ps_ok (ps_advance now_wall ?r ps)" using assms(2) by simp
    ultimately show ?thesis using eq late dup nl by (auto simp: ps_advance_def)
  next
    case False
    with ps_ok_fold [OF assms(2) False, of now_wall] eq late dup same acc show ?thesis
      by (auto simp: ps_fold_def ps_advance_def)
  qed
qed

theorem process_event_outcomes_witness:
  "rec_ok (7, demo_event 1 ''u1'' (seconds 5)) \<and>
   (\<exists>ps' oc. process_event floor_trunc 0 (resume_from 0 0 0 0) (demo_event 1 ''u1'' (seconds 5)) 7
      = Inr (ps', oc) \<and> next_offset ps' = 8)"
proof -
  have "rec_ok (7, demo_event 1 ''u1'' (seconds 5))"
    by (simp add: rec_ok_def demo_event_def in_i64_def seconds_def)
  from process_event_outcomes [OF floor_trunc_spec ps_ok_resume this, of 0 0 0 0 0] this
  show ?thesis by auto
qed

text \<open>C39: an event whose timestamp does not fit 64-bit nanoseconds (before 1677 or after 2262) makes
  the aggregator panic in every state, although such an event in the past passes the gateway's
  validation. Replaying the log from any earlier offset panics again: the partition cannot
  progress past the record.\<close>

theorem out_of_range_timestamp_panics:
  assumes "duration_trunc_spec trunc" and "\<not> in_i64 (ev_ts e)"
  shows "process_event trunc now_wall ps e off =
      Inl (ExpectFailed ''WINDOW_SIZE is a fixed, non-zero duration'') \<and>
    (\<nexists>ps'. process_all trunc clock ps (rs @ (off, e) # rs') = Inr ps') \<and>
    (ev_ts e < 0 \<and> 0 \<le> now \<and> 0 \<le> ev_namespace e \<and> \<not> blank (ev_user e) \<and> \<not> blank (ev_wiki e) \<and>
       \<not> blank (ev_family e) \<longrightarrow> validate e now = Inr ())"
proof -
  have p: "process_event trunc now_wall ps e off =
      Inl (ExpectFailed ''WINDOW_SIZE is a fixed, non-zero duration'')" for now_wall ps off
    using assms by (simp add: process_event_def Let_def window_start_eq)
  have "process_all trunc clock ps (rs @ (off, e) # rs') \<noteq> Inr ps'" for ps'
    by (induction rs arbitrary: ps) (auto simp: p split: sum.splits)
  with p validate_accepts_iff [of e now] show ?thesis by auto
qed

theorem out_of_range_timestamp_panics_witness:
  "duration_trunc_spec floor_trunc \<and> \<not> in_i64 (ev_ts (demo_event 1 ''u1'' (- (10 ^ 19)))) \<and>
   process_event floor_trunc 0 (resume_from 0 0 0 0) (demo_event 1 ''u1'' (- (10 ^ 19))) 0 =
     Inl (ExpectFailed ''WINDOW_SIZE is a fixed, non-zero duration'') \<and>
   validate (demo_event 1 ''u1'' (- (10 ^ 19))) 0 = Inr ()"
proof -
  have r: "\<not> in_i64 (ev_ts (demo_event 1 ''u1'' (- (10 ^ 19))))" by (simp add: in_i64_def demo_event_def)
  have "validate (demo_event 1 ''u1'' (- (10 ^ 19))) 0 = Inr ()"
    by (simp add: validate_def demo_event_def Let_def seconds_def MAX_FUTURE_SKEW_SECS_def)
  with r out_of_range_timestamp_panics [OF floor_trunc_spec r, of 0 "resume_from 0 0 0 0" 0]
  show ?thesis by blast
qed

end
