(* ===== verification/AggDb.thy ===== *)
theory AggDb
  imports AggReplay
begin

text \<open>
  \<^verbatim>\<open>crates/aggregator/src/db.rs\<close> and the tables of \<^verbatim>\<open>migrations/\<close> it writes. A table is an
  association list from its primary key to its other columns, so \<open>INSERT ... ON CONFLICT ... DO
  UPDATE\<close> is \<open>al_put\<close>. A statement or the commit can fail for reasons outside the program: the
  argument \<open>db_up\<close> says whether the transaction goes through; a transaction that does not go
  through leaves the tables as they were. The callers only log a failure, so a commit whose
  acknowledgement is lost leaves the program and the tables as a commit does. The timestamp columns keep the value written; that
  \<open>timestamptz\<close> drops sub-microsecond digits is immaterial (\<open>safe_checkpoint_micros\<close>).
\<close>

type_synonym agg_pk = "datetime \<times> CellKey \<times> i32"

record AggRow =
  col_events :: i64
  col_users :: i64
  col_users_hll :: "u8 list option"

record PartitionProgress =
  pp_committed_offset :: i64
  pp_flushed_watermark :: datetime

record Database =
  agg_cells :: "(agg_pk \<times> AggRow) list"
  partition_progress :: "(i32 \<times> PartitionProgress) list"

datatype db_error = DbError

definition load_progress :: "bool \<Rightarrow> Database \<Rightarrow> i32 \<Rightarrow> db_error + PartitionProgress option" where
  "load_progress db_up db p = (if db_up then Inr (map_of (partition_progress db) p) else Inl DbError)"

definition row_of :: "CellAgg \<Rightarrow> AggRow" where
  "row_of agg = \<lparr>col_events = u64_as_i64 (agg_events agg), col_users = usize_as_i64 (card (agg_users agg)),
     col_users_hll = map_option to_bytes (agg_hll agg)\<rparr>"

definition upsert_cell :: "i32 \<Rightarrow> datetime \<Rightarrow> CellKey \<times> CellAgg \<Rightarrow> (agg_pk \<times> AggRow) list \<Rightarrow> (agg_pk \<times> AggRow) list" where
  "upsert_cell p w ka rows = al_put (w, fst ka, p) (row_of (snd ka)) rows"

definition upsert_window :: "i32 \<Rightarrow> datetime \<times> Window \<Rightarrow> (agg_pk \<times> AggRow) list \<Rightarrow> (agg_pk \<times> AggRow) list" where
  "upsert_window p sw rows = fold (upsert_cell p (fst sw)) (cells (snd sw)) rows"

definition flush_windows ::
  "bool \<Rightarrow> Database \<Rightarrow> i32 \<Rightarrow> (datetime \<times> Window) list \<Rightarrow> i64 \<Rightarrow> datetime \<Rightarrow> Database \<times> (db_error + unit)" where
  "flush_windows db_up db p cl offset wm =
     (if db_up then
        (db\<lparr>agg_cells := fold (upsert_window p) cl (agg_cells db),
            partition_progress := al_put p \<lparr>pp_committed_offset = offset, pp_flushed_watermark = wm\<rparr>
              (partition_progress db)\<rparr>, Inr ())
      else (db, Inl DbError))"

text \<open>The rows a flush writes, and the invariant of the tables: primary keys are keys.\<close>

definition flush_rows :: "i32 \<Rightarrow> (datetime \<times> Window) list \<Rightarrow> (agg_pk \<times> AggRow) list" where
  "flush_rows p cl =
     concat (map (\<lambda>sw. map (\<lambda>ka. ((fst sw, fst ka, p), row_of (snd ka))) (cells (snd sw))) cl)"

definition db_ok :: "Database \<Rightarrow> bool" where
  "db_ok db \<longleftrightarrow> al_inv (agg_cells db) \<and> al_inv (partition_progress db)"

definition closed_ok :: "(datetime \<times> Window) list \<Rightarrow> bool" where
  "closed_ok cl \<longleftrightarrow> distinct (map fst cl) \<and> list_all (\<lambda>sw. al_inv (cells (snd sw))) cl"

section \<open>What a flush writes\<close>

lemma flush_fold_rows:
  "fold (upsert_window p) cl rows = fold (\<lambda>kv. al_put (fst kv) (snd kv)) (flush_rows p cl) rows"
proof (induction cl arbitrary: rows)
  case (Cons sw cl)
  have "upsert_window p sw rows = fold (\<lambda>kv. al_put (fst kv) (snd kv))
      (map (\<lambda>ka. ((fst sw, fst ka, p), row_of (snd ka))) (cells (snd sw))) rows"
    by (simp add: upsert_window_def upsert_cell_def [abs_def] fold_map comp_def)
  with Cons show ?case by (simp add: flush_rows_def)
qed (simp add: flush_rows_def)

lemma map_of_fold_put:
  "distinct (map fst kvs) \<Longrightarrow>
   map_of (fold (\<lambda>kv. al_put (fst kv) (snd kv)) kvs m) k =
     (case map_of kvs k of None \<Rightarrow> map_of m k | Some v \<Rightarrow> Some v)"
proof (induction kvs arbitrary: m)
  case (Cons kv kvs)
  have "map_of kvs (fst kv) = None" using Cons.prems by (simp add: map_of_eq_None_iff)
  with Cons show ?case by (cases kv) (auto split: option.splits)
qed simp

lemma al_inv_fold_put: "al_inv m \<Longrightarrow> al_inv (fold (\<lambda>kv. al_put (fst kv) (snd kv)) kvs m)"
  by (induction kvs arbitrary: m) (simp_all add: al_inv_put)

lemma al_inv_length: "al_inv m \<Longrightarrow> length m = card (dom (map_of m))"
  using distinct_card [of "map fst m"] by (simp add: al_inv_def dom_map_of_conv_image_fst)

lemma distinct_flush_rows: "closed_ok cl \<Longrightarrow> distinct (map fst (flush_rows p cl))"
proof (induction cl)
  case (Cons sw cl)
  have "distinct (map fst (map (\<lambda>ka. ((fst sw, fst ka, p), row_of (snd ka))) (cells (snd sw))))"
    using Cons.prems by (auto simp: closed_ok_def al_inv_def distinct_map inj_on_def comp_def)
  moreover have "fst sw \<notin> (\<lambda>kv. fst (fst kv)) ` set (flush_rows p cl)"
    using Cons.prems by (auto simp: closed_ok_def flush_rows_def image_iff)
  moreover have "distinct (map fst (flush_rows p cl))"
    using Cons by (simp add: closed_ok_def)
  ultimately show ?case by (force simp: flush_rows_def)
qed (simp add: flush_rows_def)

lemma map_of_flush_rows:
  assumes "closed_ok cl"
  shows "map_of (flush_rows p cl) (w, k, q) =
    (if q = p then (case map_of cl w of None \<Rightarrow> None | Some win \<Rightarrow> map_option row_of (map_of (cells win) k))
     else None)"
  using assms
proof (induction cl)
  case (Cons sw cl)
  have row: "map_of (map (\<lambda>ka. ((v, fst ka, p), row_of (snd ka))) cs) (w, k, q) =
      (if q = p \<and> w = v then map_option row_of (map_of cs k) else None)" for v cs
    by (induction cs) auto
  have none: "map_of cl (fst sw) = None" using Cons.prems by (simp add: closed_ok_def map_of_eq_None_iff)
  have IH: "map_of (flush_rows p cl) (w, k, q) =
      (if q = p then (case map_of cl w of None \<Rightarrow> None | Some win \<Rightarrow> map_option row_of (map_of (cells win) k))
       else None)"
    using Cons by (simp add: closed_ok_def)
  have hd: "flush_rows p (sw # cl) =
      map (\<lambda>ka. ((fst sw, fst ka, p), row_of (snd ka))) (cells (snd sw)) @ flush_rows p cl"
    by (simp add: flush_rows_def)
  show ?case
  proof (cases "w = fst sw")
    case True
    then show ?thesis unfolding hd map_of_append map_add_def row IH using none
      by (cases sw) (simp split: option.split)
  next
    case False
    then show ?thesis unfolding hd map_of_append map_add_def row IH
      by (cases sw) simp
  qed
qed (simp add: flush_rows_def)

lemma flush_lookup:
  assumes "closed_ok cl"
  shows "map_of (agg_cells (fst (flush_windows True db p cl off wm))) (w, k, q) =
    (if q = p then
       (case map_of cl w of
          None \<Rightarrow> map_of (agg_cells db) (w, k, q)
        | Some win \<Rightarrow> (case map_of (cells win) k of None \<Rightarrow> map_of (agg_cells db) (w, k, q)
                                                   | Some a \<Rightarrow> Some (row_of a)))
     else map_of (agg_cells db) (w, k, q))"
  using assms
  by (auto simp: flush_windows_def flush_fold_rows map_of_fold_put distinct_flush_rows map_of_flush_rows
      split: option.splits)

lemma flush_progress:
  "map_of (partition_progress (fst (flush_windows True db p cl off wm))) =
     (map_of (partition_progress db))(p \<mapsto> \<lparr>pp_committed_offset = off, pp_flushed_watermark = wm\<rparr>)"
  by (simp add: flush_windows_def)

lemma flush_db_ok: "db_ok db \<Longrightarrow> db_ok (fst (flush_windows db_up db p cl off wm))"
  by (auto simp: db_ok_def flush_windows_def flush_fold_rows al_inv_fold_put al_inv_put)

section \<open>The store as the workers see it\<close>

text \<open>
  What a worker may rely on when it commits: the rows of the batch replace those of the same keys,
  the partition's mark is replaced, all other rows and marks stay, and a row belongs to the partition
  that wrote it.
\<close>

locale result_store =
  fixes row :: "'db \<Rightarrow> 'k \<Rightarrow> 'r option"
    and mark :: "'db \<Rightarrow> 'p \<Rightarrow> 'c option"
    and commit :: "'db \<Rightarrow> 'p \<Rightarrow> 'b \<Rightarrow> 'c \<Rightarrow> 'db"
    and rows_in :: "'p \<Rightarrow> 'b \<Rightarrow> 'k \<Rightarrow> 'r option"
    and owner :: "'k \<Rightarrow> 'p"
    and good :: "'b \<Rightarrow> bool"
  assumes row_commit: "good b \<Longrightarrow> row (commit db p b c) k = (case rows_in p b k of None \<Rightarrow> row db k | Some r \<Rightarrow> Some r)"
    and mark_commit: "mark (commit db p b c) q = (if q = p then Some c else mark db q)"
    and rows_owned: "good b \<Longrightarrow> rows_in p b k = Some r \<Longrightarrow> owner k = p"
begin

lemma commit_preserves:
  assumes "good b" and "\<And>k r. row db k = Some r \<Longrightarrow> P k r" and "\<And>q d. mark db q = Some d \<Longrightarrow> Q q d"
    and "\<And>k r. rows_in p b k = Some r \<Longrightarrow> P k r" and "Q p c"
  shows "row (commit db p b c) k = Some r \<Longrightarrow> P k r" "mark (commit db p b c) q = Some d \<Longrightarrow> Q q d"
  using assms by (auto simp: row_commit mark_commit split: option.splits if_splits)

lemma commit_idem:
  assumes "good b"
  shows "row (commit (commit db p b c) p b c) = row (commit db p b c)" "mark (commit (commit db p b c) p b c) = mark (commit db p b c)"
  using assms by (auto simp: fun_eq_iff row_commit mark_commit split: option.splits)

lemma commit_commute:
  assumes "good b" and "good b'" and "p \<noteq> q"
  shows "row (commit (commit db p b c) q b' c') = row (commit (commit db q b' c') p b c)"
    "mark (commit (commit db p b c) q b' c') = mark (commit (commit db q b' c') p b c)"
proof -
  have "rows_in p b k = None \<or> rows_in q b' k = None" for k
    using rows_owned [OF assms(1)] rows_owned [OF assms(2)] assms(3) by (metis option.exhaust)
  then show "row (commit (commit db p b c) q b' c') = row (commit (commit db q b' c') p b c)"
    unfolding fun_eq_iff row_commit [OF assms(1)] row_commit [OF assms(2)]
    by (metis (no_types, lifting) option.case(1) option.case(2) option.exhaust)
  show "mark (commit (commit db p b c) q b' c') = mark (commit (commit db q b' c') p b c)"
    using assms(3) by (auto simp: fun_eq_iff mark_commit)
qed

end

lemma flush_row_owner: "map_of (flush_rows p cl) k = Some r \<Longrightarrow> snd (snd k) = p"
  by (drule map_of_SomeD) (auto simp: flush_rows_def)

interpretation store: result_store
  "\<lambda>db. map_of (agg_cells db)" "\<lambda>db. map_of (partition_progress db)"
  "\<lambda>db p cl c. fst (flush_windows True db p cl (pp_committed_offset c) (pp_flushed_watermark c))"
  "\<lambda>p cl. map_of (flush_rows p cl)" "\<lambda>k. snd (snd k)" closed_ok
proof unfold_locales
  show "map_of (agg_cells (fst (flush_windows True db p cl (pp_committed_offset c) (pp_flushed_watermark c)))) k =
      (case map_of (flush_rows p cl) k of None \<Rightarrow> map_of (agg_cells db) k | Some r \<Rightarrow> Some r)" if "closed_ok cl" for cl db p c k
    using that by (simp add: flush_windows_def flush_fold_rows map_of_fold_put distinct_flush_rows)
qed (auto simp: flush_progress flush_row_owner)

lemma flush_failed: "flush_windows False db p cl off wm = (db, Inl DbError)"
  by (simp add: flush_windows_def)

lemma le_trunc:
  assumes "a \<le> (b :: int)" and "k dvd a" and "0 < k"
  shows "a \<le> b - b mod k"
proof -
  from assms(2) obtain q where a: "a = k * q" by (rule dvdE)
  have "k * q div k \<le> b div k" using assms(1,3) unfolding a by (rule zdiv_mono1)
  with assms(3) show ?thesis by (simp add: a minus_mod_eq_mult_div)
qed

lemma safe_checkpoint_micros:
  assumes "safe_checkpoint lg c wm"
  shows "safe_checkpoint lg c (wm - wm mod 1000)"
proof -
  have "window_end (rec_window r) \<le> wm - wm mod 1000" if "window_end (rec_window r) \<le> wm" for r
  proof -
    have "1000 dvd WINDOW_SIZE" by (simp add: time_defs)
    moreover from this have "1000 dvd rec_window r"
      unfolding rec_window_def by (rule dvd_trans [OF _ wstart_dvd])
    ultimately have "1000 dvd window_end (rec_window r)" by (simp add: window_end_def)
    from le_trunc [OF that this] show ?thesis by simp
  qed
  with assms show ?thesis by (auto simp: safe_checkpoint_def list_all_iff)
qed

text \<open>C16: a flush is one atomic upsert. When it goes through, exactly the rows of the flushed windows
  of this partition are replaced, the partition's progress becomes the given checkpoint and nothing
  else changes; flushing the same windows again changes nothing, in particular adds no row; when it
  fails, no table changes.\<close>

theorem flush_windows_atomic_idempotent:
  assumes "closed_ok cl" and "db_ok db"
    and "db1 = fst (flush_windows True db p cl off wm)"
    and "db2 = fst (flush_windows True db1 p cl off wm)"
  shows "(\<forall>w win k a. map_of cl w = Some win \<and> map_of (cells win) k = Some a \<longrightarrow>
       map_of (agg_cells db1) (w, k, p) = Some (row_of a)) \<and>
    (\<forall>w k q. q \<noteq> p \<or> map_of cl w = None \<longrightarrow>
       map_of (agg_cells db1) (w, k, q) = map_of (agg_cells db) (w, k, q)) \<and>
    map_of (partition_progress db1) =
      (map_of (partition_progress db))(p \<mapsto> \<lparr>pp_committed_offset = off, pp_flushed_watermark = wm\<rparr>) \<and>
    map_of (agg_cells db2) = map_of (agg_cells db1) \<and>
    map_of (partition_progress db2) = map_of (partition_progress db1) \<and>
    length (agg_cells db2) = length (agg_cells db1) \<and>
    flush_windows False db p cl off wm = (db, Inl DbError)"
proof -
  have ok: "al_inv (agg_cells db1)" "al_inv (agg_cells db2)"
    using assms flush_db_ok by (auto simp: db_ok_def)
  have same: "map_of (agg_cells db2) = map_of (agg_cells db1)"
    using store.commit_idem(1) [OF assms(1), of db p "\<lparr>pp_committed_offset = off, pp_flushed_watermark = wm\<rparr>"]
    by (simp add: assms(3,4))
  then have "length (agg_cells db2) = length (agg_cells db1)"
    using ok by (simp add: al_inv_length)
  with same assms(1) show ?thesis
    unfolding assms(3,4) by (simp add: flush_lookup flush_progress flush_failed split: option.splits)
qed

theorem flush_windows_atomic_idempotent_witness:
  "\<exists>win db1. build_window False [(4, demo_event 1 ''u1'' (seconds 5))] = Some win \<and>
     db1 = fst (flush_windows True \<lparr>agg_cells = [], partition_progress = []\<rparr> 3 [(0, win)] 5 (seconds 60)) \<and>
     map_of (agg_cells db1) (0, global_key, 3) = Some \<lparr>col_events = 1, col_users = 1, col_users_hll = None\<rparr> \<and>
     map_of (agg_cells (fst (flush_windows True db1 3 [(0, win)] 5 (seconds 60)))) = map_of (agg_cells db1)"
proof -
  let ?r = "(4, demo_event 1 ''u1'' (seconds 5))"
  obtain win where win: "build_window False [?r] = Some win"
    by (simp add: build_window_def)
  let ?db = "\<lparr>agg_cells = [], partition_progress = []\<rparr>"
  have inv: "al_inv (cells win)"
    using win by (auto simp: build_window_fields)
  then have ok: "closed_ok [(0, win)]" by (simp add: closed_ok_def)
  have dbok: "db_ok ?db" by (simp add: db_ok_def)
  have cell: "map_of (cells win) global_key = Some \<lparr>agg_events = 1, agg_users = {''u1''}, agg_hll = None\<rparr>"
  proof -
    have "map_option (\<lambda>w. map_of (cells w) global_key) (build_window False [?r]) =
        Some (Some \<lparr>agg_events = 1, agg_users = {''u1''}, agg_hll = None\<rparr>)" by code_simp
    with win show ?thesis by simp
  qed
  note fl = flush_windows_atomic_idempotent [OF ok dbok refl refl, of 3 5 "seconds 60"]
  from fl cell
  have "map_of (agg_cells (fst (flush_windows True ?db 3 [(0, win)] 5 (seconds 60)))) (0, global_key, 3) =
      Some (row_of \<lparr>agg_events = 1, agg_users = {''u1''}, agg_hll = None\<rparr>)"
    by simp
  then show ?thesis
    using win fl by (auto simp: row_of_def u64_as_i64_def usize_as_i64_id)
qed

end
