(* ===== verification/AggSystem.thy ===== *)
theory AggSystem
  imports AggDb
begin

text \<open>
  The running aggregator: the message loop of \<^verbatim>\<open>main.rs\<close>, the flush and idle loops of
  \<^verbatim>\<open>flush.rs\<close>, the rebalance callbacks of \<^verbatim>\<open>rebalance.rs\<close> and the lag computation of
  \<^verbatim>\<open>lag.rs\<close>, over the shared map of partition states. A worker is one aggregator process; the
  system is any number of workers over one database, and a step is one critical section of one
  worker: the code holds the lock of the shared map exactly for these. What Kafka does is outside
  the repository: the log of a partition is a parameter, and the position from which a worker is
  served next is part of its state (\<open>w_pos\<close>). \<open>serde_json::from_slice\<close> is the parameter
  \<open>decode\<close>.
\<close>

type_synonym states = "(i32 \<times> PartitionState) list"
type_synonym rawrec = "i64 \<times> u8 list option"
type_synonym decode_fn = "u8 list \<Rightarrow> Event option"

definition days :: "int \<Rightarrow> int" where
  "days n = seconds (n * 86400)"

record Message =
  msg_payload :: "u8 list option"
  msg_partition :: i32
  msg_offset :: i64

datatype MessageOutcome = NoPayload | DecodeError | Processed ProcessOutcome

definition handle_message ::
  "decode_fn \<Rightarrow> trunc_fn \<Rightarrow> bool \<Rightarrow> instant \<Rightarrow> Message \<Rightarrow> states \<Rightarrow> (states \<times> MessageOutcome) res" where
  "handle_message decode trunc hll_on now_wall msg sts =
     (case msg_payload msg of
        None \<Rightarrow> Inr (sts, NoPayload)
      | Some payload \<Rightarrow>
          (case decode payload of
             None \<Rightarrow> Inr (sts, DecodeError)
           | Some event \<Rightarrow>
               (let part = msg_partition msg;
                    offset = msg_offset msg;
                    st = (case map_of sts part of
                            None \<Rightarrow> with_hll_enabled (resume_from now_wall part offset (ev_ts event - days 1)) hll_on
                          | Some st \<Rightarrow> st)
                in case process_event trunc now_wall st event offset of
                     Inl p \<Rightarrow> Inl p
                   | Inr (st', oc) \<Rightarrow> Inr (al_put part st' sts, Processed oc))))"

definition idle_iteration :: "instant \<Rightarrow> datetime \<Rightarrow> states \<Rightarrow> states" where
  "idle_iteration now_wall now_utc sts = map (\<lambda>(p, st). (p, tick_idle st now_wall now_utc)) sts"

record Batch =
  b_partition :: i32
  b_closed :: "(datetime \<times> Window) list"
  b_offset :: i64
  b_watermark :: datetime

text \<open>The part of a flush iteration under the lock, and the writes it does afterwards.\<close>

fun drain :: "states \<Rightarrow> Batch list \<times> states" where
  "drain [] = ([], [])"
| "drain ((p, st) # sts) =
     (let (cl, st') = take_closed_windows st;
          (bs, sts') = drain sts
      in (if cl = [] then bs
          else \<lparr>b_partition = p, b_closed = cl, b_offset = committed_offset st',
                b_watermark = flushed_watermark st'\<rparr> # bs,
          (p, st') # sts'))"

definition write_batch :: "bool \<Rightarrow> Batch \<Rightarrow> Database \<Rightarrow> Database" where
  "write_batch db_up b db =
     fst (flush_windows db_up db (b_partition b) (b_closed b) (b_offset b) (b_watermark b))"

definition flush_iteration :: "(i32 \<Rightarrow> bool) \<Rightarrow> states \<times> Database \<Rightarrow> states \<times> Database" where
  "flush_iteration db_up sd =
     (let (bs, sts) = drain (fst sd)
      in (sts, fold (\<lambda>b. write_batch (db_up (b_partition b)) b) bs (snd sd)))"

definition pre_rebalance :: "i32 list \<Rightarrow> states \<Rightarrow> states" where
  "pre_rebalance ps sts = fold al_remove ps sts"

text \<open>One partition of an assignment: whether the two calls to the outside succeed, and the clock
  readings. Without a \<open>seek\<close> the broker serves the partition from the earliest record, since the
  consumer never commits offsets to Kafka and \<open>auto.offset.reset\<close> is \<open>earliest\<close>.\<close>

record AssignElem =
  ae_partition :: i32
  ae_db_up :: bool
  ae_seek_ok :: bool
  ae_now_utc :: datetime
  ae_now_wall :: instant

definition assign_partition :: "bool \<Rightarrow> Database \<Rightarrow> AssignElem \<Rightarrow> states \<times> (i32 \<Rightarrow> i64) \<Rightarrow> states \<times> (i32 \<Rightarrow> i64)" where
  "assign_partition hll_on db el sp =
     (let part = ae_partition el;
          (offset, wm, seek_offset) =
            (case load_progress (ae_db_up el) db part of
               Inr (Some p) \<Rightarrow> (pp_committed_offset p, pp_flushed_watermark p, Some (pp_committed_offset p))
             | Inr None \<Rightarrow> (0, ae_now_utc el - days 1, None)
             | Inl _ \<Rightarrow> (0, ae_now_utc el - days 1, None));
          pos = (case seek_offset of
                   Some so \<Rightarrow> if ae_seek_ok el then so else 0
                 | None \<Rightarrow> 0)
      in (al_put part (with_hll_enabled (resume_from (ae_now_wall el) part offset wm) hll_on) (fst sp),
          (snd sp)(part := pos)))"

definition post_rebalance :: "bool \<Rightarrow> bool \<Rightarrow> Database \<Rightarrow> AssignElem list \<Rightarrow> states \<times> (i32 \<Rightarrow> i64) \<Rightarrow> states \<times> (i32 \<Rightarrow> i64)" where
  "post_rebalance bound hll_on db els sp = (if bound then fold (assign_partition hll_on db) els sp else sp)"

text \<open>One round of the lag loop: \<open>fetch p\<close> is the high watermark the broker reports for a partition, if
  it does; the gauges keep their value where it does not.\<close>

definition partition_lag :: "i64 \<Rightarrow> i64 \<Rightarrow> i64" where
  "partition_lag high processed_offset = max (wrap_i64 (high - processed_offset)) 0"

definition lag_iteration :: "(i32 \<Rightarrow> i64 option) \<Rightarrow> states \<Rightarrow> (i32 \<rightharpoonup> i64) \<Rightarrow> (i32 \<rightharpoonup> i64)" where
  "lag_iteration fetch sts gauges =
     fold (\<lambda>(p, processed_offset) g. case fetch p of
             None \<Rightarrow> g
           | Some high \<Rightarrow> g(p \<mapsto> partition_lag high processed_offset))
       (map (\<lambda>(p, st). (p, next_offset st)) sts) gauges"

section \<open>The system\<close>

record Worker =
  w_states :: states
  w_pending :: "Batch list"
  w_pos :: "i32 \<Rightarrow> i64"

record System =
  workers :: "nat \<Rightarrow> Worker"
  sys_db :: Database

definition worker_init :: Worker where
  "worker_init = \<lparr>w_states = [], w_pending = [], w_pos = (\<lambda>_. 0)\<rparr>"

definition system_init :: System where
  "system_init = \<lparr>workers = (\<lambda>_. worker_init), sys_db = \<lparr>agg_cells = [], partition_progress = []\<rparr>\<rparr>"

text \<open>The record Kafka serves next.\<close>

definition next_record :: "rawrec list \<Rightarrow> i64 \<Rightarrow> rawrec option" where
  "next_record raws pos = List.find (\<lambda>r. pos \<le> fst r) raws"

text \<open>A worker's critical sections. \<open>deliver\<close> takes the next message of a partition the worker
  holds; \<open>drain_all\<close> starts a flush iteration once the previous one has written its batches; \<open>write_one\<close>
  is one transaction, committed or failed; \<open>assign\<close> and \<open>revoke\<close> are the rebalance callbacks;
  \<open>crash\<close> loses everything in memory. librdkafka runs the callbacks inside the poll, so messages come for
  assigned partitions only; the branch of the loop for a partition without state is in \<open>Stray\<close>.\<close>

inductive worker_step ::
  "decode_fn \<Rightarrow> trunc_fn \<Rightarrow> bool \<Rightarrow> (i32 \<Rightarrow> rawrec list) \<Rightarrow> Worker \<Rightarrow> Database \<Rightarrow> Worker \<Rightarrow> Database \<Rightarrow> bool"
  for decode trunc hll_on raw where
  deliver: "\<lbrakk>map_of (w_states w) p \<noteq> None; next_record (raw p) (w_pos w p) = Some (off, payload);
      handle_message decode trunc hll_on now_wall
        \<lparr>msg_payload = payload, msg_partition = p, msg_offset = off\<rparr> (w_states w) = Inr (sts, oc)\<rbrakk>
    \<Longrightarrow> worker_step decode trunc hll_on raw w db
          (w\<lparr>w_states := sts, w_pos := (w_pos w)(p := off + 1)\<rparr>) db"
| idle: "worker_step decode trunc hll_on raw w db
          (w\<lparr>w_states := idle_iteration now_wall now_utc (w_states w)\<rparr>) db"
| drain_all: "\<lbrakk>w_pending w = []; drain (w_states w) = (bs, sts)\<rbrakk>
    \<Longrightarrow> worker_step decode trunc hll_on raw w db (w\<lparr>w_states := sts, w_pending := bs\<rparr>) db"
| write_one: "w_pending w = b # bs
    \<Longrightarrow> worker_step decode trunc hll_on raw w db (w\<lparr>w_pending := bs\<rparr>) (write_batch db_up b db)"
| revoke: "worker_step decode trunc hll_on raw w db (w\<lparr>w_states := pre_rebalance ps (w_states w)\<rparr>) db"
| assign: "post_rebalance bound hll_on db els (w_states w, w_pos w) = (sts, pos)
    \<Longrightarrow> worker_step decode trunc hll_on raw w db (w\<lparr>w_states := sts, w_pos := pos\<rparr>) db"
| crash: "worker_step decode trunc hll_on raw w db (w\<lparr>w_states := [], w_pending := []\<rparr>) db"

inductive reachable ::
  "decode_fn \<Rightarrow> trunc_fn \<Rightarrow> bool \<Rightarrow> (i32 \<Rightarrow> rawrec list) \<Rightarrow> System \<Rightarrow> bool"
  for decode trunc hll_on raw where
  init: "reachable decode trunc hll_on raw system_init"
| step: "\<lbrakk>reachable decode trunc hll_on raw s;
      worker_step decode trunc hll_on raw (workers s i) (sys_db s) w db\<rbrakk>
    \<Longrightarrow> reachable decode trunc hll_on raw \<lparr>workers = (workers s)(i := w), sys_db = db\<rparr>"

inductive_cases worker_stepE: "worker_step decode trunc hll_on raw w db w' db'"

text \<open>The records of a partition that carry an event.\<close>

definition decode_rec :: "decode_fn \<Rightarrow> rawrec \<Rightarrow> logrec option" where
  "decode_rec decode r =
     (case snd r of None \<Rightarrow> None | Some b \<Rightarrow> (case decode b of None \<Rightarrow> None | Some e \<Rightarrow> Some (fst r, e)))"

definition decoded_log :: "decode_fn \<Rightarrow> rawrec list \<Rightarrow> logrec list" where
  "decoded_log decode raws = List.map_filter (decode_rec decode) raws"

text \<open>Kafka's promise on a partition log, and that its events are within the supported range.\<close>

definition raw_ok :: "decode_fn \<Rightarrow> rawrec list \<Rightarrow> bool" where
  "raw_ok decode raws \<longleftrightarrow>
     sorted_wrt (<) (map fst raws) \<and> list_all rec_ok (decoded_log decode raws)"

section \<open>Executing a schedule\<close>

text \<open>A schedule of one worker, for concrete runs.\<close>

datatype Cmd = Deliver i32 instant | Idle instant datetime | Drain | WriteOne bool
  | Revoke "i32 list" | Assign "AssignElem list" | Crash

fun exec_cmd ::
  "decode_fn \<Rightarrow> trunc_fn \<Rightarrow> bool \<Rightarrow> (i32 \<Rightarrow> rawrec list) \<Rightarrow> Cmd \<Rightarrow> Worker \<times> Database \<Rightarrow> (Worker \<times> Database) option" where
  "exec_cmd decode trunc hll_on raw (Deliver p now_wall) (w, db) =
     (case (map_of (w_states w) p, next_record (raw p) (w_pos w p)) of
        (Some _, Some (off, payload)) \<Rightarrow>
          (case handle_message decode trunc hll_on now_wall
                  \<lparr>msg_payload = payload, msg_partition = p, msg_offset = off\<rparr> (w_states w) of
             Inl _ \<Rightarrow> None
           | Inr (sts, oc) \<Rightarrow> Some (w\<lparr>w_states := sts, w_pos := (w_pos w)(p := off + 1)\<rparr>, db))
      | _ \<Rightarrow> None)"
| "exec_cmd decode trunc hll_on raw (Idle now_wall now_utc) (w, db) =
     Some (w\<lparr>w_states := idle_iteration now_wall now_utc (w_states w)\<rparr>, db)"
| "exec_cmd decode trunc hll_on raw Drain (w, db) =
     (if w_pending w = [] then
        (let (bs, sts) = drain (w_states w) in Some (w\<lparr>w_states := sts, w_pending := bs\<rparr>, db))
      else None)"
| "exec_cmd decode trunc hll_on raw (WriteOne db_up) (w, db) =
     (case w_pending w of [] \<Rightarrow> None | b # bs \<Rightarrow> Some (w\<lparr>w_pending := bs\<rparr>, write_batch db_up b db))"
| "exec_cmd decode trunc hll_on raw (Revoke ps) (w, db) =
     Some (w\<lparr>w_states := pre_rebalance ps (w_states w)\<rparr>, db)"
| "exec_cmd decode trunc hll_on raw (Assign els) (w, db) =
     (let (sts, pos) = post_rebalance True hll_on db els (w_states w, w_pos w)
      in Some (w\<lparr>w_states := sts, w_pos := pos\<rparr>, db))"
| "exec_cmd decode trunc hll_on raw Crash (w, db) = Some (w\<lparr>w_states := [], w_pending := []\<rparr>, db)"

fun exec_cmds ::
  "decode_fn \<Rightarrow> trunc_fn \<Rightarrow> bool \<Rightarrow> (i32 \<Rightarrow> rawrec list) \<Rightarrow> Cmd list \<Rightarrow> Worker \<times> Database \<Rightarrow> (Worker \<times> Database) option" where
  "exec_cmds decode trunc hll_on raw [] wd = Some wd"
| "exec_cmds decode trunc hll_on raw (c # cs) wd =
     (case exec_cmd decode trunc hll_on raw c wd of
        None \<Rightarrow> None
      | Some wd' \<Rightarrow> exec_cmds decode trunc hll_on raw cs wd')"

text \<open>A toy wire format and log: a payload is an event number and a minute.\<close>

definition demo_decode :: decode_fn where
  "demo_decode b = (case b of
       [i, m] \<Rightarrow> Some (demo_event (ucast i) (if i = 1 then ''u1'' else ''u2'') (seconds (60 * uint m)))
     | _ \<Rightarrow> None)"

definition demo_raw :: "i32 \<Rightarrow> rawrec list" where
  "demo_raw p = (if p = 0 then [(0, Some [1, 100]), (1, Some [2, 100]), (2, None), (3, Some [3, 110]), (4, Some [4, 120])]
                 else [])"

definition demo_assign :: AssignElem where
  "demo_assign = \<lparr>ae_partition = 0, ae_db_up = True, ae_seek_ok = True, ae_now_utc = seconds 6000, ae_now_wall = 0\<rparr>"

definition demo_run :: "Cmd list \<Rightarrow> (Worker \<times> Database) option" where
  "demo_run cs = exec_cmds demo_decode floor_trunc False demo_raw cs (worker_init, sys_db system_init)"

definition demo_flush :: "Cmd list" where
  "demo_flush = [Assign [demo_assign], Deliver 0 0, Deliver 0 0, Deliver 0 0, Deliver 0 0, Drain, WriteOne True]"

lemma exec_cmd_step:
  "exec_cmd decode trunc hll_on raw c (w, db) = Some (w', db') \<Longrightarrow> worker_step decode trunc hll_on raw w db w' db'"
  by (cases c) (auto split: option.splits sum.splits list.splits prod.splits if_splits
      intro: worker_step.intros)

lemma exec_cmds_reachable:
  assumes "exec_cmds decode trunc hll_on raw cs (workers s i, sys_db s) = Some (w, db)"
    and "reachable decode trunc hll_on raw s"
  shows "reachable decode trunc hll_on raw \<lparr>workers = (workers s)(i := w), sys_db = db\<rparr>"
  using assms
proof (induction cs arbitrary: s)
  case Nil
  then show ?case by (cases s) (auto simp: fun_upd_idem)
next
  case (Cons c cs)
  then obtain w1 db1 where e: "exec_cmd decode trunc hll_on raw c (workers s i, sys_db s) = Some (w1, db1)"
    by (auto split: option.splits)
  let ?s1 = "\<lparr>workers = (workers s)(i := w1), sys_db = db1\<rparr>"
  have "reachable decode trunc hll_on raw ?s1"
    using Cons.prems(2) exec_cmd_step [OF e] by (rule reachable.step)
  from Cons.IH [OF _ this] Cons.prems(1) e show ?case by (simp cong: if_cong)
qed

lemma demo_run_reachable:
  assumes "demo_run cs = Some (w, db)"
  shows "\<exists>s. reachable demo_decode floor_trunc False demo_raw s \<and> workers s 0 = w \<and> sys_db s = db"
  using exec_cmds_reachable [OF _ reachable.init, of demo_decode floor_trunc False demo_raw cs 0 w db] assms
  by (auto simp: demo_run_def system_init_def)

lemma demo_raw_ok: "raw_ok demo_decode (demo_raw p)"
proof (cases "p = 0")
  case True
  then show ?thesis by simp code_simp
next
  case False
  then show ?thesis by (simp add: demo_raw_def raw_ok_def decoded_log_def map_filter_simps)
qed

end
