(* ===== verification/ExactlyOnce.thy ===== *)
theory ExactlyOnce
  imports AggSystem
begin

text \<open>
  The invariant of the running aggregator and what follows from it. It is local to each worker, each
  pending batch and the database, so nothing is assumed about which worker owns which partition:
  crashes, failed writes, rebalances, failed seeks and workers that still write after they lost a
  partition are all steps it survives.
\<close>

definition state_inv :: "bool \<Rightarrow> logrec list \<Rightarrow> PartitionState \<Rightarrow> i64 \<Rightarrow> bool" where
  "state_inv hll_on lg ps pos \<longleftrightarrow>
     ps_ok ps \<and> hll_enabled ps = hll_on \<and>
     exact ps (before lg (next_offset ps)) \<and> exact ps (before lg pos)"

text \<open>A window as some prefix of the log leaves it, and a row written from such a window.\<close>

definition win_from_log :: "bool \<Rightarrow> logrec list \<Rightarrow> datetime \<Rightarrow> Window \<Rightarrow> bool" where
  "win_from_log hll_on lg w win \<longleftrightarrow> (\<exists>n. build_window hll_on (in_window w (before lg n)) = Some win)"

definition row_from_log :: "bool \<Rightarrow> logrec list \<Rightarrow> datetime \<Rightarrow> CellKey \<Rightarrow> AggRow \<Rightarrow> bool" where
  "row_from_log hll_on lg w k row \<longleftrightarrow>
     (\<exists>win a. win_from_log hll_on lg w win \<and> map_of (cells win) k = Some a \<and> row = row_of a)"

definition batch_inv :: "bool \<Rightarrow> (i32 \<Rightarrow> logrec list) \<Rightarrow> Batch \<Rightarrow> bool" where
  "batch_inv hll_on lg b \<longleftrightarrow>
     closed_ok (b_closed b) \<and>
     safe_checkpoint (lg (b_partition b)) (b_offset b) (b_watermark b) \<and>
     list_all (\<lambda>sw. win_from_log hll_on (lg (b_partition b)) (fst sw) (snd sw)) (b_closed b)"

definition worker_inv :: "bool \<Rightarrow> (i32 \<Rightarrow> logrec list) \<Rightarrow> Worker \<Rightarrow> bool" where
  "worker_inv hll_on lg w \<longleftrightarrow>
     al_inv (w_states w) \<and>
     (\<forall>p ps. map_of (w_states w) p = Some ps \<longrightarrow> state_inv hll_on (lg p) ps (w_pos w p)) \<and>
     list_all (batch_inv hll_on lg) (w_pending w)"

definition db_inv :: "bool \<Rightarrow> (i32 \<Rightarrow> logrec list) \<Rightarrow> Database \<Rightarrow> bool" where
  "db_inv hll_on lg db \<longleftrightarrow>
     db_ok db \<and>
     (\<forall>w k p row. map_of (agg_cells db) (w, k, p) = Some row \<longrightarrow> row_from_log hll_on (lg p) w k row) \<and>
     (\<forall>p pp. map_of (partition_progress db) p = Some pp \<longrightarrow>
        safe_checkpoint (lg p) (pp_committed_offset pp) (pp_flushed_watermark pp))"

text \<open>What a row says about a list of records: the number of distinct events, the number of distinct
  users and, with sketches on, the sketch of these users.\<close>

definition row_counts :: "bool \<Rightarrow> CellKey \<Rightarrow> logrec list \<Rightarrow> AggRow \<Rightarrow> bool" where
  "row_counts hll_on k rs row \<longleftrightarrow>
     0 < true_events k rs \<and> col_events row = int (true_events k rs) \<and>
     col_users row = int (card (true_users k rs)) \<and>
     (\<exists>us. set us = true_users k rs \<and>
        col_users_hll row = (if hll_on then Some (to_bytes (fold hll_ins us hll_empty)) else None))"

section \<open>Logs\<close>

lemma decoded_log_Cons:
  "decoded_log decode (r # rs) =
     (case decode_rec decode r of None \<Rightarrow> decoded_log decode rs | Some x \<Rightarrow> x # decoded_log decode rs)"
  by (simp add: decoded_log_def map_filter_simps split: option.split)

lemma decode_rec_fst: "decode_rec decode r = Some x \<Longrightarrow> fst x = fst r"
  by (auto simp: decode_rec_def split: option.splits)

lemma decoded_log_offsets: "fst ` set (decoded_log decode raws) \<subseteq> fst ` set raws"
  by (induction raws) (auto simp: decoded_log_Cons decoded_log_def [of _ "[]"] dest: decode_rec_fst
      split: option.splits)

lemma raw_ok_log_ok: "raw_ok decode raws \<Longrightarrow> log_ok (decoded_log decode raws)"
proof -
  have "sorted_wrt (<) (map fst raws) \<Longrightarrow> sorted_wrt (<) (map fst (decoded_log decode raws))"
  proof (induction raws)
    case (Cons r raws)
    then show ?case using decoded_log_offsets [of decode raws]
      by (fastforce simp: decoded_log_Cons dest!: decode_rec_fst split: option.splits)
  qed (simp add: decoded_log_def)
  then show "raw_ok decode raws \<Longrightarrow> log_ok (decoded_log decode raws)"
    by (simp add: raw_ok_def log_ok_def)
qed

lemma before_next:
  assumes "sorted_wrt (<) (map fst raws)" and "next_record raws pos = Some r"
  shows "before (decoded_log decode raws) (fst r + 1) =
    before (decoded_log decode raws) pos @
      (case decode_rec decode r of None \<Rightarrow> [] | Some x \<Rightarrow> [x])"
  using assms
proof (induction raws)
  case (Cons r' raws)
  show ?case
  proof (cases "pos \<le> fst r'")
    case True
    then have r: "r' = r" using Cons.prems(2) by (simp add: next_record_def)
    have after: "fst r < fst x" if "x \<in> set (decoded_log decode raws)" for x
    proof -
      have "fst x \<in> fst ` set raws" using that decoded_log_offsets by blast
      with Cons.prems(1) show ?thesis by (auto simp: r)
    qed
    then have "before (decoded_log decode raws) (fst r + 1) = []"
      "before (decoded_log decode raws) pos = []"
      using True by (fastforce simp: before_def filter_empty_conv r)+
    with True show ?thesis
      by (auto simp: decoded_log_Cons r before_def dest: decode_rec_fst split: option.splits)
  next
    case False
    then have n: "next_record raws pos = Some r" using Cons.prems(2) by (simp add: next_record_def)
    then have "fst r' < fst r"
      using Cons.prems(1) by (auto simp: next_record_def find_Some_iff)
    with False Cons.IH Cons.prems(1) n show ?thesis
      by (auto simp: decoded_log_Cons before_def dest!: decode_rec_fst split: option.splits)
  qed
qed (simp add: next_record_def)

lemma log_length:
  assumes "log_ok lg"
  shows "length lg < 2 ^ 63"
proof -
  have "distinct (map fst lg)"
    using assms unfolding log_ok_def using strict_sorted_iff by blast
  then have "length lg = card (set (map fst lg))" by (metis distinct_card length_map)
  also have "\<dots> \<le> card {0 :: int ..< 2 ^ 63 - 1}"
    using assms by (intro card_mono) (auto simp: log_ok_def list_all_iff rec_ok_def)
  finally show ?thesis by simp
qed

section \<open>Each critical section keeps the invariant\<close>

lemma state_inv_deliver:
  assumes "duration_trunc_spec trunc" and "raw_ok decode raws"
    and "next_record raws pos = Some (off, Some payload)" and "decode payload = Some e"
    and "state_inv hll_on (decoded_log decode raws) ps pos"
    and "process_event trunc now_wall ps e off = Inr (ps', oc)"
  shows "state_inv hll_on (decoded_log decode raws) ps' (off + 1)"
proof -
  let ?lg = "decoded_log decode raws" and ?r = "(off, e)"
  have dec: "decode_rec decode (off, Some payload) = Some ?r"
    using assms(4) by (simp add: decode_rec_def)
  have b: "before ?lg (off + 1) = before ?lg pos @ [?r]"
    using before_next [OF _ assms(3), of decode] assms(2) by (simp add: raw_ok_def dec)
  then have "?r \<in> set (before ?lg (off + 1))" by simp
  then have ok: "rec_ok ?r"
    using assms(2) by (auto simp: raw_ok_def list_all_iff before_def)
  have pe: "process_event trunc now_wall ps (snd ?r) (fst ?r) = Inr (ps', oc)" using assms(6) by simp
  have inv: "ps_ok ps" "hll_enabled ps = hll_on" "exact ps (before ?lg pos)"
    using assms(5) by (simp_all add: state_inv_def)
  from exact_process_event [OF assms(1) inv(1) ok inv(3) pe]
    ps_ok_process_event [OF assms(1) inv(1) ok pe] process_event_fields [OF assms(1) inv(1) ok pe]
  show ?thesis using inv(2) by (simp add: state_inv_def b)
qed

lemma deliver_inv:
  assumes "duration_trunc_spec trunc" and "\<And>p. raw_ok decode (raw p)"
    and "worker_inv hll_on (\<lambda>p. decoded_log decode (raw p)) w"
    and "map_of (w_states w) p \<noteq> None" and "next_record (raw p) (w_pos w p) = Some (off, payload)"
    and "handle_message decode trunc hll_on now_wall
        \<lparr>msg_payload = payload, msg_partition = p, msg_offset = off\<rparr> (w_states w) = Inr (sts, oc)"
  shows "worker_inv hll_on (\<lambda>p. decoded_log decode (raw p))
    (w\<lparr>w_states := sts, w_pos := (w_pos w)(p := off + 1)\<rparr>)"
proof -
  let ?lg = "\<lambda>p. decoded_log decode (raw p)"
  obtain ps where ps: "map_of (w_states w) p = Some ps" using assms(4) by blast
  have inv: "state_inv hll_on (?lg p) ps (w_pos w p)" using assms(3) ps by (simp add: worker_inv_def)
  consider (skip) "decode_rec decode (off, payload) = None" "sts = w_states w"
    | (event) b e ps' oc' where "payload = Some b" "decode b = Some e"
        "process_event trunc now_wall ps e off = Inr (ps', oc')" "sts = al_put p ps' (w_states w)"
    using assms(6) ps
    by (auto simp: handle_message_def decode_rec_def Let_def split: option.splits sum.splits prod.splits)
  then show ?thesis
  proof cases
    case skip
    have "before (?lg p) (off + 1) = before (?lg p) (w_pos w p)"
      using before_next [OF _ assms(5), of decode] assms(2) [of p] by (simp add: raw_ok_def skip(1))
    with assms(3) skip(2) show ?thesis by (auto simp: worker_inv_def state_inv_def)
  next
    case event
    from state_inv_deliver [OF assms(1,2) assms(5) [unfolded event(1)] event(2) inv event(3)]
    show ?thesis using assms(3) event(4) by (auto simp: worker_inv_def al_inv_put)
  qed
qed

lemma map_of_idle_iteration:
  "map_of (idle_iteration now_wall now_utc sts) p = map_option (\<lambda>st. tick_idle st now_wall now_utc) (map_of sts p)"
  by (induction sts) (auto simp: idle_iteration_def)

lemma tick_idle_fields [simp]:
  "next_offset (tick_idle ps now_wall now_utc) = next_offset ps"
  "hll_enabled (tick_idle ps now_wall now_utc) = hll_enabled ps"
  "open_windows (tick_idle ps now_wall now_utc) = open_windows ps"
  "flushed_watermark (tick_idle ps now_wall now_utc) = flushed_watermark ps"
  "last_event_wall (tick_idle ps now_wall now_utc) = last_event_wall ps"
  by (simp_all add: tick_idle_def)

lemma al_inv_idle: "al_inv sts \<Longrightarrow> al_inv (idle_iteration now_wall now_utc sts)"
  by (simp add: al_inv_def idle_iteration_def comp_def case_prod_unfold)

lemma idle_inv: "worker_inv hll_on lg w \<Longrightarrow>
    worker_inv hll_on lg (w\<lparr>w_states := idle_iteration now_wall now_utc (w_states w)\<rparr>)"
  by (auto simp: worker_inv_def al_inv_idle map_of_idle_iteration state_inv_def)

lemma state_inv_take:
  assumes "log_ok lg" and "state_inv hll_on lg ps pos" and "take_closed_windows ps = (cl, ps')"
  shows "state_inv hll_on lg ps' pos" "closed_ok cl"
    "safe_checkpoint lg (committed_offset ps') (flushed_watermark ps')"
    "list_all (\<lambda>sw. win_from_log hll_on lg (fst sw) (snd sw)) cl"
proof -
  have inv: "ps_ok ps" "hll_enabled ps = hll_on" "exact ps (before lg (next_offset ps))" "exact ps (before lg pos)"
    using assms(2) by (simp_all add: state_inv_def)
  note bt = ps_okD(1) [OF inv(1)]
  have f: "cl = filter (\<lambda>sw. window_end (fst sw) \<le> watermark ps) (open_windows ps)"
    "next_offset ps' = next_offset ps" "hll_enabled ps' = hll_enabled ps"
    using assms(3) by (auto simp: take_closed_windows_eq [OF bt])
  have ok': "ps_ok ps'" using ps_ok_take [OF inv(1)] assms(3) by simp
  have ex': "exact ps' (before lg (next_offset ps'))"
    using exact_take [OF inv(1,3)] assms(3) f(2) by simp
  show "state_inv hll_on lg ps' pos"
    using ok' ex' exact_take [OF inv(1,4)] assms(3) f(3) inv(2) by (simp add: state_inv_def)
  show "safe_checkpoint lg (committed_offset ps') (flushed_watermark ps')"
    by (rule safe_checkpoint_committed [OF assms(1) ok' ex'])
  have t: "build_window hll_on (in_window (fst sw) (before lg pos)) = Some (snd sw)" if "sw \<in> set cl" for sw
    using taken_exact(1) [OF inv(1,4), of "fst sw" "snd sw"] that assms(3) inv(2) by simp
  then show "list_all (\<lambda>sw. win_from_log hll_on lg (fst sw) (snd sw)) cl"
    by (auto simp: list_all_iff win_from_log_def)
  have "distinct (map fst cl)" using bt_inv_distinct [OF bt_inv_filter [OF bt]] f(1) by simp
  with t show "closed_ok cl" by (auto simp: closed_ok_def list_all_iff dest: build_window_fields(1))
qed

lemma drain_inv:
  assumes "\<And>p. log_ok (lg p)" and "al_inv sts" and "drain sts = (bs, sts')"
    and "\<And>p ps. map_of sts p = Some ps \<Longrightarrow> state_inv hll_on (lg p) ps (pos p)"
  shows "map fst sts' = map fst sts \<and>
    (\<forall>p ps. map_of sts' p = Some ps \<longrightarrow> state_inv hll_on (lg p) ps (pos p)) \<and>
    list_all (batch_inv hll_on lg) bs"
  using assms(2-4)
proof (induction sts arbitrary: bs sts')
  case (Cons pst sts)
  obtain p ps where pst: "pst = (p, ps)" by (cases pst)
  obtain cl ps1 where t: "take_closed_windows ps = (cl, ps1)" by (cases "take_closed_windows ps")
  obtain bs1 sts1 where d: "drain sts = (bs1, sts1)" by (cases "drain sts")
  have "map_of (pst # sts) p = Some ps" by (simp add: pst)
  from state_inv_take [OF assms(1) Cons.prems(3) [OF this] t]
  have hd: "state_inv hll_on (lg p) ps1 (pos p)" "closed_ok cl"
    "safe_checkpoint (lg p) (committed_offset ps1) (flushed_watermark ps1)"
    "list_all (\<lambda>sw. win_from_log hll_on (lg p) (fst sw) (snd sw)) cl" by simp_all
  have "map_of sts p = None" using Cons.prems(1) by (simp add: al_inv_def pst map_of_eq_None_iff)
  then have "state_inv hll_on (lg q) qs (pos q)" if "map_of sts q = Some qs" for q qs
    using Cons.prems(3) [of q qs] that by (cases "q = p") (auto simp: pst)
  with Cons.IH [OF _ d] Cons.prems(1)
  have tl: "map fst sts1 = map fst sts" "list_all (batch_inv hll_on lg) bs1"
    "\<And>q qs. map_of sts1 q = Some qs \<Longrightarrow> state_inv hll_on (lg q) qs (pos q)"
    by (auto simp: al_inv_def)
  from Cons.prems(2) have res: "sts' = (p, ps1) # sts1"
    "bs = (if cl = [] then bs1 else \<lparr>b_partition = p, b_closed = cl, b_offset = committed_offset ps1,
        b_watermark = flushed_watermark ps1\<rparr> # bs1)"
    by (auto simp: pst t d)
  have "batch_inv hll_on lg \<lparr>b_partition = p, b_closed = cl, b_offset = committed_offset ps1,
      b_watermark = flushed_watermark ps1\<rparr>"
    using hd by (simp add: batch_inv_def)
  then show ?case unfolding res using hd(1) tl by (auto simp: pst)
qed simp

lemma write_inv:
  assumes "batch_inv hll_on lg b" and "db_inv hll_on lg db"
  shows "db_inv hll_on lg (write_batch db_up b db)"
proof (cases db_up)
  case False
  with assms(2) show ?thesis by (simp add: write_batch_def flush_failed)
next
  case True
  let ?p = "b_partition b"
  let ?db' = "fst (flush_windows True db ?p (b_closed b) (b_offset b) (b_watermark b))"
  have cl: "closed_ok (b_closed b)" "safe_checkpoint (lg ?p) (b_offset b) (b_watermark b)"
    using assms(1) by (simp_all add: batch_inv_def)
  have win: "win_from_log hll_on (lg ?p) w win" if "map_of (b_closed b) w = Some win" for w win
    using assms(1) map_of_SomeD [OF that] by (fastforce simp: batch_inv_def list_all_iff)
  let ?c = "\<lparr>pp_committed_offset = b_offset b, pp_flushed_watermark = b_watermark b\<rparr>"
  have new: "row_from_log hll_on (lg (snd (snd x))) (fst x) (fst (snd x)) row"
    if "map_of (flush_rows ?p (b_closed b)) x = Some row" for x row
    using that win map_of_flush_rows [OF cl(1), of ?p "fst x" "fst (snd x)" "snd (snd x)"]
    by (fastforce simp: row_from_log_def split: if_splits option.splits dest!: sym [of "Some _"])
  note kept = store.commit_preserves [where b = "b_closed b" and db = db and p = ?p and c = ?c
      and P = "\<lambda>x. row_from_log hll_on (lg (snd (snd x))) (fst x) (fst (snd x))"
      and Q = "\<lambda>p pp. safe_checkpoint (lg p) (pp_committed_offset pp) (pp_flushed_watermark pp)", OF cl(1)]
  have "row_from_log hll_on (lg p) w k row" if "map_of (agg_cells ?db') (w, k, p) = Some row" for w k p row
    using kept(1) [of "(w, k, p)" row] new assms(2) cl(2) that by (simp add: db_inv_def)
  moreover have "safe_checkpoint (lg p) (pp_committed_offset pp) (pp_flushed_watermark pp)"
    if "map_of (partition_progress ?db') p = Some pp" for p pp
    using kept(2) [of p pp] new assms(2) cl(2) that by (simp add: db_inv_def)
  moreover have "db_ok ?db'" using assms(2) by (simp add: db_inv_def flush_db_ok)
  ultimately show ?thesis using True by (simp add: write_batch_def db_inv_def)
qed

lemma pre_rebalance_lookup:
  "map_of (pre_rebalance ps sts) p = (if p \<in> set ps then None else map_of sts p)"
  "al_inv sts \<Longrightarrow> al_inv (pre_rebalance ps sts)"
  unfolding pre_rebalance_def by (induction ps arbitrary: sts) (auto intro: al_inv_remove)

lemma state_inv_resume:
  assumes "log_ok lg" and "safe_checkpoint lg c wm" and "pos = c \<or> pos = 0"
  shows "state_inv hll_on lg (with_hll_enabled (resume_from now_wall p c wm) hll_on) pos"
proof -
  let ?ps = "with_hll_enabled (resume_from now_wall p c wm) hll_on"
  have "fst r \<ge> 0" if "r \<in> set lg" for r
    using assms(1) that by (auto simp: log_ok_def list_all_iff rec_ok_def)
  then have "before lg 0 = []" by (fastforce simp: before_def filter_empty_conv)
  moreover have "exact ?ps []" by (simp add: exact_def with_hll_enabled_def resume_from_def)
  ultimately have "exact ?ps (before lg 0)" by simp
  with exact_resume [OF assms(2)] assms(3) show ?thesis
    by (auto simp: state_inv_def) (simp_all add: with_hll_enabled_def resume_from_def)
qed

lemma safe_checkpoint_zero: "log_ok lg \<Longrightarrow> safe_checkpoint lg 0 wm"
  by (auto simp: safe_checkpoint_def log_ok_def list_all_iff rec_ok_def)

definition states_inv :: "bool \<Rightarrow> (i32 \<Rightarrow> logrec list) \<Rightarrow> states \<times> (i32 \<Rightarrow> i64) \<Rightarrow> bool" where
  "states_inv hll_on lg sp \<longleftrightarrow> al_inv (fst sp) \<and>
     (\<forall>p ps. map_of (fst sp) p = Some ps \<longrightarrow> state_inv hll_on (lg p) ps (snd sp p))"

lemma assign_partition_inv:
  assumes "\<And>p. log_ok (lg p)" and "db_inv hll_on lg db" and "states_inv hll_on lg sp"
  shows "states_inv hll_on lg (assign_partition hll_on db el sp)"
proof -
  let ?p = "ae_partition el"
  obtain c wm pos where a: "assign_partition hll_on db el sp =
      (al_put ?p (with_hll_enabled (resume_from (ae_now_wall el) ?p c wm) hll_on) (fst sp), (snd sp)(?p := pos))"
    and s: "safe_checkpoint (lg ?p) c wm" and pos: "pos = c \<or> pos = 0"
  proof (cases "load_progress (ae_db_up el) db ?p")
    case (Inl e)
    then show ?thesis
      by (intro that [of 0 "ae_now_utc el - days 1" 0])
         (simp_all add: assign_partition_def Let_def safe_checkpoint_zero [OF assms(1)])
  next
    case (Inr pp)
    then have pp: "pp = map_of (partition_progress db) ?p" by (auto simp: load_progress_def split: if_splits)
    show ?thesis
    proof (cases pp)
      case None
      with Inr show ?thesis
        by (intro that [of 0 "ae_now_utc el - days 1" 0])
           (simp_all add: assign_partition_def Let_def safe_checkpoint_zero [OF assms(1)])
    next
      case (Some pr)
      with pp assms(2)
      have "safe_checkpoint (lg ?p) (pp_committed_offset pr) (pp_flushed_watermark pr)" by (simp add: db_inv_def)
      with Inr Some show ?thesis
        by (intro that [of "pp_committed_offset pr" "pp_flushed_watermark pr"
              "if ae_seek_ok el then pp_committed_offset pr else 0"])
           (simp_all add: assign_partition_def Let_def)
    qed
  qed
  have "state_inv hll_on (lg ?p) (with_hll_enabled (resume_from (ae_now_wall el) ?p c wm) hll_on) pos"
    using assms(1) s pos by (rule state_inv_resume)
  with assms(3) show ?thesis unfolding a by (auto simp: states_inv_def al_inv_put)
qed

lemma post_rebalance_inv:
  assumes "\<And>p. log_ok (lg p)" and "db_inv hll_on lg db" and "states_inv hll_on lg sp"
  shows "states_inv hll_on lg (post_rebalance bound hll_on db els sp)"
proof -
  have "states_inv hll_on lg (fold (assign_partition hll_on db) els sp)"
    using assms(3) by (induction els arbitrary: sp) (simp_all add: assign_partition_inv assms(1,2))
  with assms(3) show ?thesis by (simp add: post_rebalance_def)
qed

lemma worker_inv_states:
  "worker_inv hll_on lg w \<longleftrightarrow> states_inv hll_on lg (w_states w, w_pos w) \<and> list_all (batch_inv hll_on lg) (w_pending w)"
  by (auto simp: worker_inv_def states_inv_def)

lemma worker_step_inv:
  assumes "worker_step decode trunc hll_on raw w db w' db'"
    and "duration_trunc_spec trunc" and "\<And>p. raw_ok decode (raw p)"
    and "worker_inv hll_on (\<lambda>p. decoded_log decode (raw p)) w"
    and "db_inv hll_on (\<lambda>p. decoded_log decode (raw p)) db"
  shows "worker_inv hll_on (\<lambda>p. decoded_log decode (raw p)) w' \<and> db_inv hll_on (\<lambda>p. decoded_log decode (raw p)) db'"
  using assms(1,4,5)
proof (induction rule: worker_step.induct)
  case (deliver w p off payload now_wall sts oc db)
  then show ?case using deliver_inv [where raw = raw, OF assms(2,3)] by blast
next
  case (idle w db now_wall now_utc)
  then show ?case by (simp add: idle_inv)
next
  case (drain_all w bs sts db)
  then have "al_inv (w_states w)"
    "\<And>p ps. map_of (w_states w) p = Some ps \<Longrightarrow> state_inv hll_on (decoded_log decode (raw p)) ps (w_pos w p)"
    by (simp_all add: worker_inv_def)
  from drain_inv [where lg = "\<lambda>p. decoded_log decode (raw p)" and pos = "w_pos w",
      OF raw_ok_log_ok [OF assms(3)] this(1) drain_all(2) this(2)] this(1) drain_all(4)
  show ?case by (simp add: worker_inv_def al_inv_def)
next
  case (write_one w b bs db db_up)
  then show ?case using write_inv by (auto simp: worker_inv_def)
next
  case (revoke w db ps)
  then show ?case by (auto simp: worker_inv_def pre_rebalance_lookup)
next
  case (assign bound db els w sts pos)
  then show ?case
    using post_rebalance_inv [where lg = "\<lambda>p. decoded_log decode (raw p)", OF raw_ok_log_ok [OF assms(3)], of hll_on db "(w_states w, w_pos w)" bound els]
    by (simp add: worker_inv_states)
next
  case (crash w db)
  then show ?case by (simp add: worker_inv_def)
qed

lemma reachable_inv:
  assumes "reachable decode trunc hll_on raw s"
    and "duration_trunc_spec trunc" and "\<And>p. raw_ok decode (raw p)"
  shows "(\<forall>i. worker_inv hll_on (\<lambda>p. decoded_log decode (raw p)) (workers s i)) \<and>
    db_inv hll_on (\<lambda>p. decoded_log decode (raw p)) (sys_db s)"
  using assms(1)
proof (induction rule: reachable.induct)
  case init
  then show ?case by (simp add: system_init_def worker_init_def worker_inv_def db_inv_def db_ok_def)
next
  case (step s i w db)
  then show ?case using worker_step_inv [OF step(2) assms(2,3)] by simp
qed

section \<open>What the rows and the checkpoints mean\<close>

lemma dedup_subset: "set (dedup seen rs) \<subseteq> set rs"
  by (induction seen rs rule: dedup.induct) auto

lemma length_dedup: "length (dedup seen rs) \<le> length rs"
  by (induction rs arbitrary: seen) (simp_all add: le_SucI)

lemma true_totals_bound:
  "true_events k rs \<le> length rs" "card (true_users k rs) \<le> length rs"
proof -
  have l: "length (contributing k rs) \<le> length rs"
    unfolding contributing_def using length_dedup [of "{}" rs] length_filter_le order_trans by blast
  then show "true_events k rs \<le> length rs" by (simp add: true_events_def)
  have "card (true_users k rs) \<le> card (set (contributing k rs))"
    unfolding true_users_def by (rule card_image_le) simp
  with l card_length [of "contributing k rs"] show "card (true_users k rs) \<le> length rs" by simp
qed

lemma row_counts_of_records:
  assumes "length rs < 2 ^ 63" and "build_window hll_on rs = Some win" and "map_of (cells win) k = Some a"
  shows "row_counts hll_on k rs (row_of a)"
proof -
  let ?us = "cells_of k (dedup {} rs)"
  have small: "true_events k rs < 2 ^ 63" "card (true_users k rs) < 2 ^ 63"
    using true_totals_bound [of k rs] assms(1) by linarith+
  have "cell_total hll_on ?us = Some a" using build_window_fields(3) [OF assms(2)] assms(3) by simp
  then have a: "?us \<noteq> []" "a = \<lparr>agg_events = of_nat (length ?us), agg_users = set ?us,
      agg_hll = (if hll_on then Some (fold hll_ins ?us hll_empty) else None)\<rparr>"
    by (auto simp: cell_total_def split: if_splits)
  have "0 < true_events k rs" using a(1) by (simp flip: cells_of_dedup)
  with small show ?thesis
    unfolding row_counts_def a(2) row_of_def
    by (auto simp: cells_of_dedup u64_as_i64_of_nat usize_as_i64_id intro!: exI [of _ ?us])
qed

lemma in_window_length: "length (in_window w (before lg n)) \<le> length lg"
  unfolding in_window_def before_def using length_filter_le order_trans by blast

lemma row_from_log_counts:
  assumes "log_ok lg" and "row_from_log hll_on lg w k row"
  shows "\<exists>n. row_counts hll_on k (in_window w (before lg n)) row"
proof -
  from assms(2) obtain n win a where "build_window hll_on (in_window w (before lg n)) = Some win"
    "map_of (cells win) k = Some a" "row = row_of a" by (auto simp: row_from_log_def win_from_log_def)
  moreover have "length (in_window w (before lg n)) < 2 ^ 63"
    using in_window_length [of w lg n] log_length [OF assms(1)] by linarith
  ultimately show ?thesis using row_counts_of_records by blast
qed

lemma before_rest:
  "sorted_wrt (<) (map fst lg) \<Longrightarrow> before lg c @ filter (\<lambda>r. c \<le> fst r) lg = lg"
proof (induction lg)
  case (Cons r lg)
  show ?case
  proof (cases "c \<le> fst r")
    case True
    with Cons.prems have "before lg c = []" by (fastforce simp: before_def filter_empty_conv)
    with True Cons show ?thesis by (simp add: before_def)
  qed (use Cons in \<open>simp add: before_def\<close>)
qed (simp add: before_def)

lemma demo_flush_result:
  "case demo_run demo_flush of None \<Rightarrow> False | Some (w, db) \<Rightarrow>
     map_of (agg_cells db) (seconds 6000, global_key, 0) = Some \<lparr>col_events = 2, col_users = 2, col_users_hll = None\<rparr> \<and>
     map_of (partition_progress db) 0 = Some \<lparr>pp_committed_offset = 3, pp_flushed_watermark = seconds 6570\<rparr>"
  by code_simp

text \<open>C4: exactly-once aggregation. Take any number of aggregator workers over one database and any
  interleaving of their steps: delivering messages, idle ticks, flushes whose writes commit or fail,
  rebalances that move partitions with or without a working seek or a readable progress table,
  crashes, and writes by workers that have lost the partition. Every row of \<open>agg_cells\<close> carries,
  for its window, cell and partition, exactly the number of distinct events and of distinct users
  (and their sketch) of some prefix of the partition's log: no event is ever counted twice and no
  row mixes in anything else. Every stored checkpoint is safe: no record before its offset belongs
  to a window after its watermark.\<close>

theorem exactly_once:
  assumes "reachable decode trunc hll_on raw s"
    and "duration_trunc_spec trunc" and "\<forall>p. raw_ok decode (raw p)"
  shows "(\<forall>w k p row. map_of (agg_cells (sys_db s)) (w, k, p) = Some row \<longrightarrow>
        (\<exists>n. row_counts hll_on k (in_window w (before (decoded_log decode (raw p)) n)) row)) \<and>
    (\<forall>p pp. map_of (partition_progress (sys_db s)) p = Some pp \<longrightarrow>
        safe_checkpoint (decoded_log decode (raw p)) (pp_committed_offset pp) (pp_flushed_watermark pp))"
proof -
  have ok: "log_ok (decoded_log decode (raw p))" for p using assms(3) raw_ok_log_ok by blast
  have "db_inv hll_on (\<lambda>p. decoded_log decode (raw p)) (sys_db s)"
    using reachable_inv [OF assms(1,2)] assms(3) by blast
  then show ?thesis using row_from_log_counts [OF ok] by (auto simp: db_inv_def)
qed

theorem exactly_once_witness:
  "\<exists>s. reachable demo_decode floor_trunc False demo_raw s \<and>
     map_of (agg_cells (sys_db s)) (seconds 6000, global_key, 0) =
       Some \<lparr>col_events = 2, col_users = 2, col_users_hll = None\<rparr> \<and>
     (\<exists>n. row_counts False global_key (in_window (seconds 6000) (before (decoded_log demo_decode (demo_raw 0)) n))
        \<lparr>col_events = 2, col_users = 2, col_users_hll = None\<rparr>)"
proof -
  obtain w db where run: "demo_run demo_flush = Some (w, db)"
    and row: "map_of (agg_cells db) (seconds 6000, global_key, 0) = Some \<lparr>col_events = 2, col_users = 2, col_users_hll = None\<rparr>"
    using demo_flush_result by (auto split: option.splits)
  then obtain s where s: "reachable demo_decode floor_trunc False demo_raw s" "sys_db s = db"
    using demo_run_reachable by blast
  with row exactly_once [OF s(1) floor_trunc_spec] demo_raw_ok show ?thesis by blast
qed

text \<open>C5: crash recovery. From every checkpoint the running system ever stored, a worker that resumes
  there and replays the rest of the log cannot panic, and ends up with every window after the
  checkpoint's watermark exactly as if it had read the whole log once: the crash is invisible.\<close>

theorem crash_recovery:
  assumes "reachable decode trunc hll_on raw s"
    and "duration_trunc_spec trunc" and "\<forall>p. raw_ok decode (raw p)"
    and "map_of (partition_progress (sys_db s)) p = Some pp"
    and "lg = decoded_log decode (raw p)"
  shows "\<exists>ps. process_all trunc clock
        (with_hll_enabled (resume_from now_wall p (pp_committed_offset pp) (pp_flushed_watermark pp)) hll_on)
        (filter (\<lambda>r. pp_committed_offset pp \<le> fst r) lg) = Inr ps \<and>
      (\<forall>w. pp_flushed_watermark pp < window_end w \<longrightarrow>
         map_of (open_windows ps) w = build_window hll_on (in_window w lg))"
proof -
  let ?c = "pp_committed_offset pp" and ?wm = "pp_flushed_watermark pp"
  let ?ps0 = "with_hll_enabled (resume_from now_wall p ?c ?wm) hll_on"
  let ?rest = "filter (\<lambda>r. ?c \<le> fst r) lg"
  have ok: "log_ok lg" using assms(3,5) raw_ok_log_ok by blast
  have split: "before lg ?c @ ?rest = lg" using ok by (simp add: log_ok_def before_rest)
  have "db_inv hll_on (\<lambda>p. decoded_log decode (raw p)) (sys_db s)"
    using reachable_inv [OF assms(1,2)] assms(3) by blast
  then have "safe_checkpoint lg ?c ?wm" using assms(4,5) by (simp add: db_inv_def)
  then have "exact ?ps0 (before lg ?c)" by (rule exact_resume)
  moreover have "ps_ok ?ps0" by simp
  moreover have "list_all rec_ok ?rest" using ok by (simp add: log_ok_def list_all_iff)
  ultimately obtain ps where "process_all trunc clock ?ps0 ?rest = Inr ps" "exact ps lg"
    "flushed_watermark ps = flushed_watermark ?ps0" "hll_enabled ps = hll_enabled ?ps0"
    using process_all_exact [OF assms(2), of ?ps0 ?rest "before lg ?c" clock] by (auto simp: split)
  then show ?thesis by (auto simp: exact_def with_hll_enabled_def resume_from_def)
qed

theorem crash_recovery_witness:
  "\<exists>s ps. reachable demo_decode floor_trunc False demo_raw s \<and>
     map_of (partition_progress (sys_db s)) 0 =
       Some \<lparr>pp_committed_offset = 3, pp_flushed_watermark = seconds 6570\<rparr> \<and>
     process_all floor_trunc (\<lambda>_. 0) (with_hll_enabled (resume_from 0 0 3 (seconds 6570)) False)
       (filter (\<lambda>r. 3 \<le> fst r) (decoded_log demo_decode (demo_raw 0))) = Inr ps \<and>
     map_of (open_windows ps) (seconds 6600) =
       build_window False (in_window (seconds 6600) (decoded_log demo_decode (demo_raw 0)))"
proof -
  obtain w db where run: "demo_run demo_flush = Some (w, db)"
    and pr: "map_of (partition_progress db) 0 = Some \<lparr>pp_committed_offset = 3, pp_flushed_watermark = seconds 6570\<rparr>"
    using demo_flush_result by (auto split: option.splits)
  then obtain s where s: "reachable demo_decode floor_trunc False demo_raw s" "sys_db s = db"
    using demo_run_reachable by blast
  have "seconds 6570 < window_end (seconds 6600)" by (simp add: window_end_def time_defs)
  with crash_recovery [OF s(1) floor_trunc_spec _ _ refl, of 0 _ "\<lambda>_. 0" 0] demo_raw_ok pr s show ?thesis
    by fastforce
qed

section \<open>Where the guarantee ends\<close>


text \<open>C37: an idle tick before the replay starts drops the replay. When no message has arrived ten
  seconds after a partition was resumed, the tick moves the high-water timestamp to the wall clock
  and the next flush, although it writes nothing, moves the flushed watermark to thirty seconds
  before it: every record of the backlog whose window ends by then is refused as late, although the
  checkpoint it was resumed from still expected it.\<close>

theorem idle_tick_drops_backlog:
  assumes "duration_trunc_spec trunc" and "rec_ok (off, e)"
    and "wm < window_end (wstart (ev_ts e))"
    and "window_end (wstart (ev_ts e)) + ALLOWED_LATENESS \<le> now_utc"
    and "IDLE_PARTITION_TIMEOUT < now_wall - wall0"
  shows "\<exists>ps ps1. take_closed_windows (tick_idle (resume_from wall0 p c wm) now_wall now_utc) = ([], ps) \<and>
    process_event trunc wall1 ps e off = Inr (ps1, Late) \<and>
    (\<exists>ps2. process_event trunc wall1 (resume_from wall0 p c wm) e off = Inr (ps2, Accepted))"
proof -
  let ?fresh = "resume_from wall0 p c wm"
  let ?t = "tick_idle ?fresh now_wall now_utc"
  let ?ps = "snd (take_closed_windows ?t)"
  have "0 < ALLOWED_LATENESS" "0 < IDLE_PARTITION_TIMEOUT" by (simp_all add: time_defs)
  with assms(3-5) have tick: "max_event_ts ?t = now_utc" "open_windows ?t = []" "flushed_watermark ?t = wm"
    by (simp_all add: tick_idle_def resume_from_def)
  then have t: "take_closed_windows ?t = ([], ?ps)" "flushed_watermark ?ps = max wm (now_utc - ALLOWED_LATENESS)"
    by (simp_all add: take_closed_windows_eq watermark_def)
  have ok: "ps_ok ?ps" by (simp add: ps_ok_take)
  have "is_late ?ps (off, e)" using assms(4) by (simp add: is_late_def rec_window_def t(2))
  with process_event_eq [OF assms(1) ok assms(2), of wall1]
  have "\<exists>ps1. process_event trunc wall1 ?ps e off = Inr (ps1, Late)" by simp
  moreover have "\<not> is_late ?fresh (off, e)" "\<not> is_duplicate ?fresh (off, e)"
    using assms(3) by (simp_all add: is_late_def is_duplicate_def rec_window_def resume_from_def)
  with process_event_eq [OF assms(1) ps_ok_resume assms(2), of wall1 wall0 p c wm]
  have "\<exists>ps2. process_event trunc wall1 ?fresh e off = Inr (ps2, Accepted)" by simp
  ultimately show ?thesis using t(1) by blast
qed

theorem idle_tick_drops_backlog_witness:
  "rec_ok (7, demo_event 1 ''u1'' (seconds 6000)) \<and>
   (\<exists>ps ps1. take_closed_windows (tick_idle (resume_from 0 0 7 (seconds 5970)) (seconds 11) (seconds 6100)) = ([], ps) \<and>
      process_event floor_trunc (seconds 12) ps (demo_event 1 ''u1'' (seconds 6000)) 7 = Inr (ps1, Late))"
proof -
  have ok: "rec_ok (7, demo_event 1 ''u1'' (seconds 6000))" by code_simp
  have "wstart (ev_ts (demo_event 1 ''u1'' (seconds 6000))) = seconds 6000" by code_simp
  then have h: "seconds 5970 < window_end (wstart (ev_ts (demo_event 1 ''u1'' (seconds 6000))))"
    "window_end (wstart (ev_ts (demo_event 1 ''u1'' (seconds 6000)))) + ALLOWED_LATENESS \<le> seconds 6100"
    "IDLE_PARTITION_TIMEOUT < seconds 11 - 0"
    by (simp_all add: window_end_def time_defs)
  from idle_tick_drops_backlog [OF floor_trunc_spec ok h] ok show ?thesis by blast
qed

end
