(* ===== verification/Orderly.thy ===== *)
theory Orderly
  imports ExactlyOnce
begin

text \<open>
  Runs of the aggregator on which nothing may be lost, and the proof that nothing is. The workers of
  \<open>AggSystem\<close> run concurrently over one database as before: messages, idle ticks, flushes, rebalances
  and crashes interleave in any order, a worker may read a partition another one still writes, and
  partitions are replayed from checkpoints or from the start. An orderly run only excludes what
  \<open>ExactlyOnce\<close> shows to be fatal: a write that fails while its worker lives on (a crash at that
  point is allowed), an idle tick that moves the watermark past records the worker has not read, and
  a first assignment that finds records older than the day the code looks back. Of the log it asks
  what \<open>ALLOWED_LATENESS\<close> was chosen for: its records are at most thirty seconds out of order.
\<close>

definition within_lateness :: "logrec list \<Rightarrow> bool" where
  "within_lateness lg \<longleftrightarrow>
     list_all (\<lambda>r. list_all (\<lambda>r'. fst r < fst r' \<longrightarrow> ev_ts (snd r) \<le> ev_ts (snd r') + seconds 30) lg) lg"

definition cmd_orderly :: "(i32 \<Rightarrow> logrec list) \<Rightarrow> Cmd \<Rightarrow> Worker \<times> Database \<Rightarrow> bool" where
  "cmd_orderly lg c wd = (case c of
       Idle now_wall now_utc \<Rightarrow>
         list_all (\<lambda>(p, st). now_wall - last_event_wall st \<le> seconds 10 \<or>
           list_all (\<lambda>r. fst r < w_pos (fst wd) p \<or> now_utc < window_end (rec_window r) + seconds 30) (lg p)) (w_states (fst wd))
     | WriteOne db_up \<Rightarrow> db_up
     | Assign els \<Rightarrow>
         list_all (\<lambda>el. (ae_db_up el \<and> map_of (partition_progress (snd wd)) (ae_partition el) \<noteq> None) \<or>
           list_all (\<lambda>r. ae_now_utc el - days 1 < window_end (rec_window r)) (lg (ae_partition el))) els
     | _ \<Rightarrow> True)"

inductive orderly_run ::
  "decode_fn \<Rightarrow> trunc_fn \<Rightarrow> bool \<Rightarrow> (i32 \<Rightarrow> rawrec list) \<Rightarrow> System \<Rightarrow> bool"
  for decode trunc hll_on raw where
  init: "orderly_run decode trunc hll_on raw system_init"
| step: "\<lbrakk>orderly_run decode trunc hll_on raw s;
      exec_cmd decode trunc hll_on raw c (workers s i, sys_db s) = Some (w, db);
      cmd_orderly (\<lambda>p. decoded_log decode (raw p)) c (workers s i, sys_db s)\<rbrakk>
    \<Longrightarrow> orderly_run decode trunc hll_on raw \<lparr>workers = (workers s)(i := w), sys_db = db\<rparr>"

lemma orderly_reachable: "orderly_run decode trunc hll_on raw s \<Longrightarrow> reachable decode trunc hll_on raw s"
  by (induction rule: orderly_run.induct) (auto intro: reachable.intros exec_cmd_step)

text \<open>An executable check of a concrete schedule of one worker, over logs whose offsets lie below \<open>n\<close> and
  whose windows end after \<open>lo\<close>: idle ticks come when everything was read.\<close>

definition cmd_checked :: "i64 \<Rightarrow> datetime \<Rightarrow> Cmd \<Rightarrow> Worker \<times> Database \<Rightarrow> bool" where
  "cmd_checked n lo c wd = (case c of
       Idle now_wall now_utc \<Rightarrow> list_all (\<lambda>(p, st). n \<le> w_pos (fst wd) p) (w_states (fst wd))
     | WriteOne db_up \<Rightarrow> db_up
     | Assign els \<Rightarrow> list_all (\<lambda>el. ae_now_utc el - days 1 < lo) els
     | _ \<Rightarrow> True)"

fun orderly_cmds ::
  "i64 \<Rightarrow> datetime \<Rightarrow> decode_fn \<Rightarrow> trunc_fn \<Rightarrow> bool \<Rightarrow> (i32 \<Rightarrow> rawrec list) \<Rightarrow> Cmd list \<Rightarrow> Worker \<times> Database \<Rightarrow>
     (Worker \<times> Database) option" where
  "orderly_cmds n lo decode trunc hll_on raw [] wd = Some wd"
| "orderly_cmds n lo decode trunc hll_on raw (c # cs) wd =
     (if cmd_checked n lo c wd then
        (case exec_cmd decode trunc hll_on raw c wd of
           None \<Rightarrow> None
         | Some wd' \<Rightarrow> orderly_cmds n lo decode trunc hll_on raw cs wd')
      else None)"

lemma cmd_checked_orderly:
  assumes "cmd_checked n lo c wd" and "\<And>p. list_all (\<lambda>r. fst r < n \<and> lo < window_end (rec_window r)) (lg p)"
  shows "cmd_orderly lg c wd"
proof (cases c)
  case (Idle now_wall now_utc)
  have "fst r < w_pos (fst wd) p" if "(p, st) \<in> set (w_states (fst wd))" "r \<in> set (lg p)" for p st r
    using assms(1) assms(2) [of p] that by (fastforce simp: cmd_checked_def Idle list_all_iff)
  then show ?thesis by (auto simp: cmd_orderly_def Idle list_all_iff)
next
  case (Assign els)
  have "ae_now_utc el - days 1 < window_end (rec_window r)" if "el \<in> set els" "r \<in> set (lg (ae_partition el))" for el r
    using assms(1) assms(2) [of "ae_partition el"] that by (fastforce simp: cmd_checked_def Assign list_all_iff)
  then show ?thesis by (auto simp: cmd_orderly_def Assign list_all_iff)
qed (use assms(1) in \<open>simp_all add: cmd_orderly_def cmd_checked_def\<close>)

lemma orderly_cmds_run:
  assumes "orderly_cmds n lo decode trunc hll_on raw cs (workers s i, sys_db s) = Some (w, db)"
    and "orderly_run decode trunc hll_on raw s"
    and "\<And>p. list_all (\<lambda>r. fst r < n \<and> lo < window_end (rec_window r)) (decoded_log decode (raw p))"
  shows "orderly_run decode trunc hll_on raw \<lparr>workers = (workers s)(i := w), sys_db = db\<rparr>"
  using assms(1,2)
proof (induction cs arbitrary: s)
  case Nil
  then show ?case by (cases s) (auto simp: fun_upd_idem)
next
  case (Cons c cs)
  then obtain w1 db1 where e: "exec_cmd decode trunc hll_on raw c (workers s i, sys_db s) = Some (w1, db1)"
    and c: "cmd_checked n lo c (workers s i, sys_db s)"
    by (auto split: option.splits if_splits)
  let ?s1 = "\<lparr>workers = (workers s)(i := w1), sys_db = db1\<rparr>"
  have "cmd_orderly (\<lambda>p. decoded_log decode (raw p)) c (workers s i, sys_db s)" by (rule cmd_checked_orderly [OF c assms(3)])
  with Cons.prems(2) e have "orderly_run decode trunc hll_on raw ?s1" by (rule orderly_run.step)
  from Cons.IH [OF _ this] Cons.prems(1) e c show ?case by (simp cong: if_cong)
qed

text \<open>Payloads matter only through the events they decode to.\<close>

definition same_events :: "decode_fn \<Rightarrow> rawrec list \<Rightarrow> decode_fn \<Rightarrow> rawrec list \<Rightarrow> bool" where
  "same_events decode raws decode' raws' \<longleftrightarrow>
     list_all2 (\<lambda>r r'. fst r = fst r' \<and> Option.bind (snd r) decode = Option.bind (snd r') decode') raws raws'"

lemma same_events_Cons: "same_events decode (r # rs) decode' (r' # rs') \<longleftrightarrow>
    (fst r = fst r' \<and> Option.bind (snd r) decode = Option.bind (snd r') decode') \<and> same_events decode rs decode' rs'"
  by (simp add: same_events_def)

lemma same_events_log: "same_events decode raws decode' raws' \<Longrightarrow> decoded_log decode raws = decoded_log decode' raws'"
  unfolding same_events_def
proof (induction rule: list_all2_induct)
  case (Cons r rs r' rs')
  then have "decode_rec decode r = decode_rec decode' r'"
    by (cases "snd r"; cases "snd r'") (auto simp: decode_rec_def split: option.splits)
  with Cons.IH show ?case by (cases "decode_rec decode' r'") (simp_all add: decoded_log_Cons)
qed (simp add: decoded_log_def map_filter_simps)

lemma same_events_next:
  assumes "same_events decode raws decode' raws'"
  shows "rel_option (\<lambda>r r'. fst r = fst r' \<and> Option.bind (snd r) decode = Option.bind (snd r') decode')
    (next_record raws pos) (next_record raws' pos)"
  using assms unfolding same_events_def by (induction rule: list_all2_induct) (auto simp: next_record_def)

lemma handle_message_same:
  assumes "Option.bind payload decode = Option.bind payload' decode'"
  shows "map_sum id fst (handle_message decode trunc hll_on now_wall \<lparr>msg_payload = payload, msg_partition = p, msg_offset = off\<rparr> sts) =
    map_sum id fst (handle_message decode' trunc hll_on now_wall \<lparr>msg_payload = payload', msg_partition = p, msg_offset = off\<rparr> sts)"
  using assms by (cases payload; cases payload') (auto simp: handle_message_def split: option.splits)

lemma exec_cmd_same:
  assumes "\<And>p. same_events decode (raw p) decode' (raw' p)"
  shows "exec_cmd decode trunc hll_on raw c wd = exec_cmd decode' trunc hll_on raw' c wd"
proof (cases c)
  case (Deliver p now_wall)
  obtain w db where wd: "wd = (w, db)" by (cases wd)
  show ?thesis
  proof (cases "next_record (raw p) (w_pos w p)")
    case None
    with same_events_next [OF assms, of p "w_pos w p"] show ?thesis by (simp add: Deliver wd split: option.splits)
  next
    case (Some r)
    with same_events_next [OF assms, of p "w_pos w p"] obtain r' where r': "next_record (raw' p) (w_pos w p) = Some r'"
      "fst r = fst r'" "Option.bind (snd r) decode = Option.bind (snd r') decode'" by (auto simp: option_rel_Some1)
    obtain off pl pl' where rr: "r = (off, pl)" "r' = (off, pl')" using r'(2) by (cases r; cases r') simp
    have "Option.bind pl decode = Option.bind pl' decode'" using r'(3) rr by simp
    note h = handle_message_same [OF this, of trunc hll_on now_wall p off "w_states w"]
    show ?thesis using Some r'(1) h
      by (cases "handle_message decode trunc hll_on now_wall \<lparr>msg_payload = pl, msg_partition = p, msg_offset = off\<rparr> (w_states w)";
          cases "handle_message decode' trunc hll_on now_wall \<lparr>msg_payload = pl', msg_partition = p, msg_offset = off\<rparr> (w_states w)")
        (auto simp: Deliver wd rr split: option.splits)
  qed
qed (cases wd; simp)+

lemma orderly_cmds_same:
  assumes "\<And>p. same_events decode (raw p) decode' (raw' p)"
  shows "orderly_cmds n lo decode trunc hll_on raw cs wd = orderly_cmds n lo decode' trunc hll_on raw' cs wd"
  by (induction cs arbitrary: wd) (auto simp: exec_cmd_same [where raw = raw and raw' = raw', OF assms] split: option.splits)

section \<open>Complete rows\<close>

text \<open>What the whole log of a partition says about a cell of a window, and tables that say the same.\<close>

definition full_row :: "bool \<Rightarrow> logrec list \<Rightarrow> datetime \<Rightarrow> CellKey \<Rightarrow> AggRow option" where
  "full_row hll_on lg w k =
     (case build_window hll_on (in_window w lg) of None \<Rightarrow> None | Some win \<Rightarrow> map_option row_of (map_of (cells win) k))"

definition rows_full :: "bool \<Rightarrow> (i32 \<Rightarrow> logrec list) \<Rightarrow> Database \<Rightarrow> i32 \<Rightarrow> datetime \<Rightarrow> bool" where
  "rows_full hll_on lg db p w \<longleftrightarrow> (\<forall>k. map_of (agg_cells db) (w, k, p) = full_row hll_on (lg p) w k)"

definition db_full :: "bool \<Rightarrow> (i32 \<Rightarrow> logrec list) \<Rightarrow> Database \<Rightarrow> bool" where
  "db_full hll_on lg db \<longleftrightarrow>
     (\<forall>w k p row. map_of (agg_cells db) (w, k, p) = Some row \<longrightarrow> full_row hll_on (lg p) w k = Some row) \<and>
     (\<forall>p pp w. map_of (partition_progress db) p = Some pp \<and> window_end w \<le> pp_flushed_watermark pp \<longrightarrow>
        rows_full hll_on lg db p w)"

definition batch_full :: "bool \<Rightarrow> (i32 \<Rightarrow> logrec list) \<Rightarrow> Database \<Rightarrow> Batch \<Rightarrow> bool" where
  "batch_full hll_on lg db b \<longleftrightarrow>
     (\<forall>w win. map_of (b_closed b) w = Some win \<longrightarrow>
        build_window hll_on (in_window w (lg (b_partition b))) = Some win) \<and>
     (\<forall>w. window_end w \<le> b_watermark b \<longrightarrow>
        rows_full hll_on lg db (b_partition b) w \<or> map_of (b_closed b) w \<noteq> None)"

text \<open>A record not yet read is either ahead of the watermark or long flushed; a flushed window is in the
  table or on its way there.\<close>

definition unread_ahead :: "logrec list \<Rightarrow> PartitionState \<Rightarrow> i64 \<Rightarrow> bool" where
  "unread_ahead lg st pos \<longleftrightarrow>
     (\<forall>r \<in> set lg. pos \<le> fst r \<and> window_end (rec_window r) \<le> watermark st \<longrightarrow>
        window_end (rec_window r) \<le> flushed_watermark st)"

definition flushed_full :: "bool \<Rightarrow> (i32 \<Rightarrow> logrec list) \<Rightarrow> Database \<Rightarrow> Batch list \<Rightarrow> i32 \<Rightarrow> PartitionState \<Rightarrow> bool" where
  "flushed_full hll_on lg db pend p st \<longleftrightarrow>
     (\<forall>w. window_end w \<le> flushed_watermark st \<longrightarrow>
        rows_full hll_on lg db p w \<or> (\<exists>b \<in> set pend. b_partition b = p \<and> map_of (b_closed b) w \<noteq> None))"

definition worker_full :: "bool \<Rightarrow> (i32 \<Rightarrow> logrec list) \<Rightarrow> Database \<Rightarrow> Worker \<Rightarrow> bool" where
  "worker_full hll_on lg db w \<longleftrightarrow>
     (\<forall>p st. map_of (w_states w) p = Some st \<longrightarrow>
        unread_ahead (lg p) st (w_pos w p) \<and> flushed_full hll_on lg db (w_pending w) p st) \<and>
     list_all (batch_full hll_on lg db) (w_pending w)"

definition grows_full :: "bool \<Rightarrow> (i32 \<Rightarrow> logrec list) \<Rightarrow> Database \<Rightarrow> Database \<Rightarrow> bool" where
  "grows_full hll_on lg db db' \<longleftrightarrow> (\<forall>p w. rows_full hll_on lg db p w \<longrightarrow> rows_full hll_on lg db' p w)"

lemma grows_refl [simp]: "grows_full hll_on lg db db"
  by (simp add: grows_full_def)

lemma batch_full_grows: "batch_full hll_on lg db b \<Longrightarrow> grows_full hll_on lg db db' \<Longrightarrow> batch_full hll_on lg db' b"
  unfolding batch_full_def grows_full_def by blast

lemma flushed_full_grows:
  "flushed_full hll_on lg db pend p st \<Longrightarrow> grows_full hll_on lg db db' \<Longrightarrow> flushed_full hll_on lg db' pend p st"
  unfolding flushed_full_def grows_full_def by blast

lemma worker_full_grows: "worker_full hll_on lg db w \<Longrightarrow> grows_full hll_on lg db db' \<Longrightarrow> worker_full hll_on lg db' w"
  unfolding worker_full_def list_all_iff using batch_full_grows flushed_full_grows by blast

section \<open>Writing a batch\<close>

lemma write_full:
  assumes "db_full hll_on lg db" and "batch_full hll_on lg db b" and "closed_ok (b_closed b)"
  shows "db_full hll_on lg (write_batch True b db)" "grows_full hll_on lg db (write_batch True b db)"
    "map_of (b_closed b) w \<noteq> None \<Longrightarrow> rows_full hll_on lg (write_batch True b db) (b_partition b) w"
proof -
  let ?db = "write_batch True b db" and ?p = "b_partition b"
  have lk: "map_of (agg_cells ?db) (w, k, q) = (if q = ?p then
       (case map_of (b_closed b) w of None \<Rightarrow> map_of (agg_cells db) (w, k, q)
        | Some win \<Rightarrow> (case map_of (cells win) k of None \<Rightarrow> map_of (agg_cells db) (w, k, q) | Some a \<Rightarrow> Some (row_of a)))
     else map_of (agg_cells db) (w, k, q))" for w k q
    unfolding write_batch_def by (rule flush_lookup [OF assms(3)])
  have old: "full_row hll_on (lg q) w k = Some row" if "map_of (agg_cells db) (w, k, q) = Some row" for w k q row
    using assms(1) that by (simp add: db_full_def)
  have win: "full_row hll_on (lg ?p) w k = map_option row_of (map_of (cells win) k)"
    if "map_of (b_closed b) w = Some win" for w win k
    using assms(2) that by (simp add: batch_full_def full_row_def)
  have new: "full_row hll_on (lg q) w k = Some row" if "map_of (agg_cells ?db) (w, k, q) = Some row" for w k q row
    using that old [of w k q row] win [of w _ k] by (auto simp: lk split: if_splits option.splits)
  have closed: "rows_full hll_on lg ?db ?p w" if "map_of (b_closed b) w \<noteq> None" for w
    unfolding rows_full_def
  proof
    fix k
    from that obtain win' where w: "map_of (b_closed b) w = Some win'" by blast
    show "map_of (agg_cells ?db) (w, k, ?p) = full_row hll_on (lg ?p) w k"
      using win [OF w, of k] old [of w k ?p]
      by (cases "map_of (cells win') k"; cases "map_of (agg_cells db) (w, k, ?p)") (auto simp: lk w)
  qed
  then show "map_of (b_closed b) w \<noteq> None \<Longrightarrow> rows_full hll_on lg ?db ?p w" .
  have keep: "rows_full hll_on lg ?db q w" if "rows_full hll_on lg db q w" for q w
  proof (cases "q = ?p \<and> map_of (b_closed b) w \<noteq> None")
    case False
    with that show ?thesis by (auto simp: rows_full_def lk)
  qed (use closed in blast)
  then show "grows_full hll_on lg db ?db" by (simp add: grows_full_def)
  have pr: "map_of (partition_progress ?db) =
      (map_of (partition_progress db))(?p \<mapsto> \<lparr>pp_committed_offset = b_offset b, pp_flushed_watermark = b_watermark b\<rparr>)"
    unfolding write_batch_def by (rule flush_progress)
  have "rows_full hll_on lg ?db q w"
    if "map_of (partition_progress ?db) q = Some pp" "window_end w \<le> pp_flushed_watermark pp" for q pp w
  proof (cases "q = ?p")
    case True
    with that have "window_end w \<le> b_watermark b" by (auto simp: pr)
    with assms(2) have "rows_full hll_on lg db ?p w \<or> map_of (b_closed b) w \<noteq> None" by (simp add: batch_full_def)
    with keep closed True show ?thesis by blast
  next
    case False
    with that assms(1) have "rows_full hll_on lg db q w" by (auto simp: pr db_full_def)
    then show ?thesis by (rule keep)
  qed
  with new show "db_full hll_on lg ?db" by (simp add: db_full_def)
qed

section \<open>Taking the closed windows\<close>

lemma drain_states: "snd (drain sts) = map (\<lambda>(p, st). (p, snd (take_closed_windows st))) sts"
  by (induction sts) (auto simp: Let_def split: prod.splits)

lemma drain_taken: "map_of (snd (drain sts)) p = map_option (\<lambda>st. snd (take_closed_windows st)) (map_of sts p)"
  unfolding drain_states by (induction sts) auto

lemma drain_from:
  assumes "al_inv sts" and "drain sts = (bs, sts')"
  shows "map_of sts' p = Some st' \<Longrightarrow> \<exists>st cl. map_of sts p = Some st \<and> take_closed_windows st = (cl, st') \<and>
      (cl \<noteq> [] \<longrightarrow> (\<exists>b \<in> set bs. b_partition b = p \<and> b_closed b = cl))"
    "b \<in> set bs \<Longrightarrow> \<exists>st st'. map_of sts (b_partition b) = Some st \<and> take_closed_windows st = (b_closed b, st') \<and>
      b_watermark b = flushed_watermark st'"
proof -
  have "(map_of sts' p = Some st' \<longrightarrow> (\<exists>st cl. map_of sts p = Some st \<and> take_closed_windows st = (cl, st') \<and>
      (cl \<noteq> [] \<longrightarrow> (\<exists>b \<in> set bs. b_partition b = p \<and> b_closed b = cl)))) \<and>
    (\<forall>b \<in> set bs. \<exists>st st'. map_of sts (b_partition b) = Some st \<and> take_closed_windows st = (b_closed b, st') \<and>
      b_watermark b = flushed_watermark st')"
    using assms
  proof (induction sts arbitrary: bs sts')
    case (Cons x sts)
    obtain q s0 where x: "x = (q, s0)" by (cases x)
    obtain cl s1 where t: "take_closed_windows s0 = (cl, s1)" by (cases "take_closed_windows s0")
    obtain bs1 sts1 where d: "drain sts = (bs1, sts1)" by (cases "drain sts")
    have al: "al_inv sts" and q: "map_of sts q = None"
      using Cons.prems(1) by (auto simp: al_inv_def x map_of_eq_None_iff)
    note IH = Cons.IH [OF al d]
    have r: "sts' = (q, s1) # sts1" "bs = (if cl = [] then bs1 else \<lparr>b_partition = q, b_closed = cl,
        b_offset = committed_offset s1, b_watermark = flushed_watermark s1\<rparr> # bs1)"
      using Cons.prems(2) by (auto simp: x t d)
    have "\<exists>st st'. map_of (x # sts) (b_partition b) = Some st \<and> take_closed_windows st = (b_closed b, st') \<and>
      b_watermark b = flushed_watermark st'" if "b \<in> set bs" for b
    proof (cases "b \<in> set bs1")
      case True
      with IH obtain st st' where st: "map_of sts (b_partition b) = Some st" "take_closed_windows st = (b_closed b, st')"
        "b_watermark b = flushed_watermark st'" by blast
      with q have "b_partition b \<noteq> q" by auto
      with st show ?thesis by (auto simp: x)
    next
      case False
      with that have "b = \<lparr>b_partition = q, b_closed = cl, b_offset = committed_offset s1, b_watermark = flushed_watermark s1\<rparr>"
        by (auto simp: r split: if_splits)
      with t show ?thesis by (auto simp: x)
    qed
    moreover have "\<exists>st cl. map_of (x # sts) p = Some st \<and> take_closed_windows st = (cl, st') \<and>
      (cl \<noteq> [] \<longrightarrow> (\<exists>b \<in> set bs. b_partition b = p \<and> b_closed b = cl))" if m: "map_of sts' p = Some st'"
    proof (cases "p = q")
      case True
      with m t show ?thesis by (auto simp: r x)
    next
      case False
      with m IH obtain st cl' where "map_of sts p = Some st" "take_closed_windows st = (cl', st')"
        "cl' \<noteq> [] \<longrightarrow> (\<exists>b \<in> set bs1. b_partition b = p \<and> b_closed b = cl')" by (auto simp: r)
      with False show ?thesis by (auto simp: x r)
    qed
    ultimately show ?case by blast
  qed simp
  then show "map_of sts' p = Some st' \<Longrightarrow> \<exists>st cl. map_of sts p = Some st \<and> take_closed_windows st = (cl, st') \<and>
      (cl \<noteq> [] \<longrightarrow> (\<exists>b \<in> set bs. b_partition b = p \<and> b_closed b = cl))"
    "b \<in> set bs \<Longrightarrow> \<exists>st st'. map_of sts (b_partition b) = Some st \<and> take_closed_windows st = (b_closed b, st') \<and>
      b_watermark b = flushed_watermark st'" by blast+
qed

text \<open>Where nothing unread is behind the watermark, a closed window is a window of the whole log.\<close>

lemma take_full:
  assumes "log_ok lg" and "state_inv hll_on lg st pos" and "unread_ahead lg st pos"
    and "take_closed_windows st = (cl, st')"
  shows "map_of cl w = Some win \<Longrightarrow> build_window hll_on (in_window w lg) = Some win"
    "flushed_watermark st < window_end w \<Longrightarrow> window_end w \<le> flushed_watermark st' \<Longrightarrow>
       map_of cl w = build_window hll_on (in_window w lg)"
    "unread_ahead lg st' pos" "flushed_watermark st \<le> flushed_watermark st'"
proof -
  have inv: "ps_ok st" "hll_enabled st = hll_on" "exact st (before lg pos)" using assms(2) by (simp_all add: state_inv_def)
  note bt = ps_okD(1) [OF inv(1)]
  have f: "cl = filter (\<lambda>sw. window_end (fst sw) \<le> watermark st) (open_windows st)" "watermark st' = watermark st"
    "flushed_watermark st' = max (flushed_watermark st) (watermark st)"
    using assms(4) by (auto simp: take_closed_windows_eq [OF bt] watermark_def)
  have lk: "map_of cl w = (if window_end w \<le> watermark st then map_of (open_windows st) w else None)" for w
    unfolding f(1) by (rule map_of_filter_distinct [where P = "\<lambda>s. window_end s \<le> watermark st", OF bt_inv_distinct [OF bt]])
  have all: "in_window w (before lg pos) = in_window w lg"
    if "flushed_watermark st < window_end w" "window_end w \<le> watermark st" for w
  proof -
    have "rec_window r \<noteq> w" if "r \<in> set lg" "pos \<le> fst r" for r
      using assms(3) that \<open>flushed_watermark st < window_end w\<close> \<open>window_end w \<le> watermark st\<close>
      by (fastforce simp: unread_ahead_def)
    then have "in_window w (filter (\<lambda>r. pos \<le> fst r) lg) = []" by (auto simp: in_window_empty_iff)
    with before_rest [of lg pos] assms(1) show ?thesis
      by (metis append_Nil2 in_window_append log_ok_def)
  qed
  have main: "map_of cl w = build_window hll_on (in_window w lg)"
    if "flushed_watermark st < window_end w" "window_end w \<le> watermark st" for w
    using exactD [OF inv(3) that(1)] all [OF that] that(2) by (simp add: lk inv(2))
  show "map_of cl w = build_window hll_on (in_window w lg)"
    if "flushed_watermark st < window_end w" "window_end w \<le> flushed_watermark st'" for w
    using main [OF that(1)] that by (simp add: f(3) max_def split: if_splits)
  show "build_window hll_on (in_window w lg) = Some win" if "map_of cl w = Some win"
  proof -
    from that have m: "map_of (open_windows st) w = Some win" "window_end w \<le> watermark st" by (auto simp: lk split: if_splits)
    with ps_okD(3) [OF inv(1)] main [of w] that show ?thesis by auto
  qed
  show "unread_ahead lg st' pos" using assms(3) by (auto simp: unread_ahead_def f)
  show "flushed_watermark st \<le> flushed_watermark st'" by (simp add: f(3))
qed

section \<open>Every step keeps it\<close>

lemma handle_message_max:
  assumes "duration_trunc_spec trunc" and "raw_ok decode raws"
    and "next_record raws pos = Some (off, payload)" and "al_inv sts" and "map_of sts p = Some st"
    and "state_inv hll_on (decoded_log decode raws) st pos"
    and "handle_message decode trunc hll_on now_wall \<lparr>msg_payload = payload, msg_partition = p, msg_offset = off\<rparr> sts = Inr (sts', oc)"
  obtains st' where "sts' = al_put p st' sts \<or> (sts' = sts \<and> st' = st)" "flushed_watermark st' = flushed_watermark st"
    "max_event_ts st' = max_event_ts st \<or>
       (\<exists>e. (off, e) \<in> set (decoded_log decode raws) \<and> max_event_ts st' = max (ev_ts e) (max_event_ts st))"
proof -
  consider (skip) "sts' = sts"
    | (event) b e st' oc' where "payload = Some b" "decode b = Some e"
        "process_event trunc now_wall st e off = Inr (st', oc')" "sts' = al_put p st' sts"
    using assms(7) assms(5)
    by (auto simp: handle_message_def Let_def split: option.splits sum.splits prod.splits)
  then show thesis
  proof cases
    case skip
    then show thesis by (intro that [of st]) simp_all
  next
    case event
    have "before (decoded_log decode raws) (off + 1) = before (decoded_log decode raws) pos @ [(off, e)]"
      using before_next [OF _ assms(3), of decode] assms(2) event(1,2) by (simp add: raw_ok_def decode_rec_def)
    then have m: "(off, e) \<in> set (decoded_log decode raws)" by (auto simp: before_def dest!: arg_cong [of _ _ set])
    with assms(2) have ok: "rec_ok (off, e)" by (auto simp: raw_ok_def list_all_iff)
    have pe: "process_event trunc now_wall st (snd (off, e)) (fst (off, e)) = Inr (st', oc')" using event(3) by simp
    have "ps_ok st" using assms(6) by (simp add: state_inv_def)
    note f = process_event_fields [OF assms(1) this ok pe]
    from f m event(4) show thesis by (intro that [of st']) auto
  qed
qed

lemma unread_ahead_deliver:
  assumes "unread_ahead lg st pos" and "within_lateness lg" and "pos \<le> off"
    and "flushed_watermark st' = flushed_watermark st"
    and "max_event_ts st' = max_event_ts st \<or> (\<exists>e. (off, e) \<in> set lg \<and> max_event_ts st' = max (ev_ts e) (max_event_ts st))"
  shows "unread_ahead lg st' (off + 1)"
  unfolding unread_ahead_def
proof (intro ballI impI)
  fix r assume r: "r \<in> set lg" and b: "off + 1 \<le> fst r \<and> window_end (rec_window r) \<le> watermark st'"
  have "window_end (rec_window r) \<le> watermark st"
  proof (rule ccontr)
    assume "\<not> window_end (rec_window r) \<le> watermark st"
    with assms(5) b obtain e where e: "(off, e) \<in> set lg" "window_end (rec_window r) \<le> ev_ts e - ALLOWED_LATENESS"
      by (auto simp: watermark_def max_def split: if_splits)
    with assms(2) r b have "ev_ts e \<le> ev_ts (snd r) + seconds 30" by (fastforce simp: within_lateness_def list_all_iff)
    with e(2) less_window_end_wstart [of "ev_ts (snd r)"] show False
      by (simp add: rec_window_def ALLOWED_LATENESS_def)
  qed
  with assms(1,3,4) r b show "window_end (rec_window r) \<le> flushed_watermark st'" by (simp add: unread_ahead_def)
qed

lemma next_record_pos: "next_record raws pos = Some r \<Longrightarrow> pos \<le> fst r"
  by (auto simp: next_record_def find_Some_iff)

lemma deliver_full:
  assumes "duration_trunc_spec trunc" and "\<And>p. raw_ok decode (raw p)" and "lg = (\<lambda>p. decoded_log decode (raw p))"
    and "\<And>p. within_lateness (lg p)" and "worker_inv hll_on lg w" and "worker_full hll_on lg db w"
    and "map_of (w_states w) p = Some st" and "next_record (raw p) (w_pos w p) = Some (off, payload)"
    and "handle_message decode trunc hll_on now_wall \<lparr>msg_payload = payload, msg_partition = p, msg_offset = off\<rparr> (w_states w) = Inr (sts, oc)"
  shows "worker_full hll_on lg db (w\<lparr>w_states := sts, w_pos := (w_pos w)(p := off + 1)\<rparr>)"
proof -
  have al: "al_inv (w_states w)" and si: "state_inv hll_on (decoded_log decode (raw p)) st (w_pos w p)"
    using assms(5,7) by (simp_all add: worker_inv_def assms(3))
  obtain st' where st': "sts = al_put p st' (w_states w) \<or> (sts = w_states w \<and> st' = st)"
    "flushed_watermark st' = flushed_watermark st"
    "max_event_ts st' = max_event_ts st \<or> (\<exists>e. (off, e) \<in> set (lg p) \<and> max_event_ts st' = max (ev_ts e) (max_event_ts st))"
    using handle_message_max [OF assms(1,2) assms(8) al assms(7) si assms(9)] by (auto simp: assms(3))
  have f: "unread_ahead (lg p) st (w_pos w p)" "flushed_full hll_on lg db (w_pending w) p st"
    using assms(6,7) by (simp_all add: worker_full_def)
  have "unread_ahead (lg p) st' (off + 1)"
    using unread_ahead_deliver [OF f(1) assms(4) _ st'(2,3)] next_record_pos [OF assms(8)] by simp
  moreover have "flushed_full hll_on lg db (w_pending w) p st'" using f(2) by (simp add: flushed_full_def st'(2))
  moreover have "map_of sts q = (if q = p then Some st' else map_of (w_states w) q)" for q
    using st'(1) assms(7) by (auto simp: map_of_al_put)
  ultimately show ?thesis using assms(6) by (auto simp: worker_full_def)
qed

lemma idle_full:
  assumes "cmd_orderly lg (Idle now_wall now_utc) (w, db)" and "worker_full hll_on lg db w"
  shows "worker_full hll_on lg db (w\<lparr>w_states := idle_iteration now_wall now_utc (w_states w)\<rparr>)"
proof -
  have "unread_ahead (lg p) (tick_idle st now_wall now_utc) (w_pos w p)" if st: "map_of (w_states w) p = Some st" for p st
  proof (cases "tick_idle st now_wall now_utc = st")
    case True
    with assms(2) st show ?thesis by (simp add: worker_full_def)
  next
    case False
    then have t: "seconds 10 < now_wall - last_event_wall st" "watermark (tick_idle st now_wall now_utc) = now_utc - seconds 30"
      by (auto simp: tick_idle_def watermark_def IDLE_PARTITION_TIMEOUT_def ALLOWED_LATENESS_def seconds_def split: if_splits)
    from assms(1) map_of_SomeD [OF st] t(1)
    have "\<forall>r \<in> set (lg p). fst r < w_pos w p \<or> now_utc < window_end (rec_window r) + seconds 30"
      by (fastforce simp: cmd_orderly_def list_all_iff)
    then show ?thesis by (fastforce simp: unread_ahead_def t(2))
  qed
  moreover have "flushed_full hll_on lg db pend p (tick_idle st now_wall now_utc) = flushed_full hll_on lg db pend p st" for pend p st
    by (simp add: flushed_full_def)
  ultimately show ?thesis using assms(2) by (auto simp: worker_full_def map_of_idle_iteration)
qed

lemma drain_full:
  assumes "\<And>p. log_ok (lg p)" and "worker_inv hll_on lg w" and "db_full hll_on lg db" and "worker_full hll_on lg db w"
    and "w_pending w = []" and "drain (w_states w) = (bs, sts)"
  shows "worker_full hll_on lg db (w\<lparr>w_states := sts, w_pending := bs\<rparr>)"
proof -
  have al: "al_inv (w_states w)" using assms(2) by (simp add: worker_inv_def)
  have si: "state_inv hll_on (lg p) st (w_pos w p)" if "map_of (w_states w) p = Some st" for p st
    using assms(2) that by (simp add: worker_inv_def)
  have u: "unread_ahead (lg p) st (w_pos w p)" if "map_of (w_states w) p = Some st" for p st
    using assms(4) that by (simp add: worker_full_def)
  have cover: "rows_full hll_on lg db p v \<or> map_of cl v \<noteq> None"
    if st: "map_of (w_states w) p = Some st" and t: "take_closed_windows st = (cl, st')" and v: "window_end v \<le> flushed_watermark st'"
    for p st cl st' v
  proof (cases "window_end v \<le> flushed_watermark st")
    case True
    with assms(4,5) st show ?thesis by (fastforce simp: worker_full_def flushed_full_def)
  next
    case False
    then have c: "map_of cl v = build_window hll_on (in_window v (lg p))"
      using take_full(2) [OF assms(1) si [OF st] u [OF st] t] v by simp
    show ?thesis
    proof (cases "map_of cl v")
      case None
      then have "full_row hll_on (lg p) v k = None" for k by (simp add: full_row_def flip: c)
      with assms(3) have "rows_full hll_on lg db p v"
        unfolding rows_full_def db_full_def by (metis option.exhaust)
      then show ?thesis ..
    qed simp
  qed
  have "unread_ahead (lg p) st' (w_pos w p) \<and> flushed_full hll_on lg db bs p st'" if m: "map_of sts p = Some st'" for p st'
  proof -
    obtain st cl where st: "map_of (w_states w) p = Some st" and t: "take_closed_windows st = (cl, st')"
      and b: "cl \<noteq> [] \<longrightarrow> (\<exists>b \<in> set bs. b_partition b = p \<and> b_closed b = cl)"
      using drain_from(1) [OF al assms(6) m] by blast
    have "flushed_full hll_on lg db bs p st'"
      unfolding flushed_full_def
    proof (intro allI impI)
      fix v assume "window_end v \<le> flushed_watermark st'"
      from cover [OF st t this] b
      show "rows_full hll_on lg db p v \<or> (\<exists>b \<in> set bs. b_partition b = p \<and> map_of (b_closed b) v \<noteq> None)"
        by (cases "cl = []") auto
    qed
    with take_full(3) [OF assms(1) si [OF st] u [OF st] t] show ?thesis by blast
  qed
  moreover have "batch_full hll_on lg db b" if b: "b \<in> set bs" for b
  proof -
    obtain st st' where st: "map_of (w_states w) (b_partition b) = Some st"
      and t: "take_closed_windows st = (b_closed b, st')" and wm: "b_watermark b = flushed_watermark st'"
      using drain_from(2) [OF al assms(6) b] by blast
    show ?thesis
      using take_full(1) [OF assms(1) si [OF st] u [OF st] t] cover [OF st t] by (auto simp: batch_full_def wm)
  qed
  ultimately show ?thesis by (simp add: worker_full_def list_all_iff)
qed

lemma write_one_full:
  assumes "worker_inv hll_on lg w" and "db_full hll_on lg db" and "worker_full hll_on lg db w" and "w_pending w = b # bs"
  shows "db_full hll_on lg (write_batch True b db)" "grows_full hll_on lg db (write_batch True b db)"
    "worker_full hll_on lg (write_batch True b db) (w\<lparr>w_pending := bs\<rparr>)"
proof -
  have b: "batch_full hll_on lg db b" "closed_ok (b_closed b)"
    using assms(1,3,4) by (simp_all add: worker_full_def worker_inv_def batch_inv_def)
  note wr = write_full [OF assms(2) b]
  show "db_full hll_on lg (write_batch True b db)" and g: "grows_full hll_on lg db (write_batch True b db)" by (rule wr(1,2))+
  have "flushed_full hll_on lg (write_batch True b db) bs p st" if "map_of (w_states w) p = Some st" for p st
  proof -
    have "flushed_full hll_on lg db (b # bs) p st" using assms(3,4) that by (simp add: worker_full_def)
    with g wr(3) show ?thesis unfolding flushed_full_def grows_full_def by auto
  qed
  with assms(3,4) batch_full_grows [OF _ g] show "worker_full hll_on lg (write_batch True b db) (w\<lparr>w_pending := bs\<rparr>)"
    by (auto simp: worker_full_def list_all_iff)
qed

lemma assign_full:
  assumes "\<And>p. log_ok (lg p)" and "db_inv hll_on lg db" and "db_full hll_on lg db" and "worker_full hll_on lg db w"
    and "cmd_orderly lg (Assign els) (w, db)" and "post_rebalance True hll_on db els (w_states w, w_pos w) = (sts, pos)"
  shows "worker_full hll_on lg db (w\<lparr>w_states := sts, w_pos := pos\<rparr>)"
proof -
  let ?ok = "\<lambda>sp. \<forall>p st. map_of (fst sp) p = Some st \<longrightarrow>
      unread_ahead (lg p) st (snd sp p) \<and> flushed_full hll_on lg db (w_pending w) p st"
  have start: "unread_ahead (lg p) (with_hll_enabled (resume_from t p c wm) hll_on) n" for p t c wm n
    by (auto simp: unread_ahead_def watermark_def with_hll_enabled_def resume_from_def time_defs)
  have one: "?ok (assign_partition hll_on db el sp)" if el: "el \<in> set els" and sp: "?ok sp" for el sp
  proof -
    let ?p = "ae_partition el"
    obtain c wm n where a: "assign_partition hll_on db el sp =
        (al_put ?p (with_hll_enabled (resume_from (ae_now_wall el) ?p c wm) hll_on) (fst sp), (snd sp)(?p := n))"
      and full: "\<And>v. window_end v \<le> wm \<Longrightarrow> rows_full hll_on lg db ?p v"
    proof (cases "ae_db_up el \<and> map_of (partition_progress db) ?p \<noteq> None")
      case True
      then obtain pr where pr: "map_of (partition_progress db) ?p = Some pr" by blast
      with assms(3) have "rows_full hll_on lg db ?p v" if "window_end v \<le> pp_flushed_watermark pr" for v
        using that by (simp add: db_full_def)
      with True pr show ?thesis
        by (intro that [of "pp_committed_offset pr" "pp_flushed_watermark pr" "if ae_seek_ok el then pp_committed_offset pr else 0"])
          (simp_all add: assign_partition_def load_progress_def Let_def)
    next
      case False
      with assms(5) el have old: "\<forall>r \<in> set (lg ?p). ae_now_utc el - days 1 < window_end (rec_window r)"
        by (auto simp: cmd_orderly_def list_all_iff)
      have "rows_full hll_on lg db ?p v" if "window_end v \<le> ae_now_utc el - days 1" for v
      proof -
        have "in_window v (lg ?p) = []" using old that by (auto simp: in_window_empty_iff)
        then have "full_row hll_on (lg ?p) v k = None" for k by (simp add: full_row_def)
        with assms(3) show ?thesis unfolding rows_full_def db_full_def by (metis option.exhaust)
      qed
      with False show ?thesis
        by (intro that [of 0 "ae_now_utc el - days 1" 0]) (auto simp: assign_partition_def load_progress_def Let_def)
    qed
    have "flushed_full hll_on lg db (w_pending w) ?p (with_hll_enabled (resume_from (ae_now_wall el) ?p c wm) hll_on)"
      using full by (simp add: flushed_full_def with_hll_enabled_def resume_from_def)
    with start sp show ?thesis by (auto simp: a)
  qed
  have "?ok (fold (assign_partition hll_on db) es sp)" if "set es \<subseteq> set els" "?ok sp" for es sp
    using that
  proof (induction es arbitrary: sp)
    case (Cons e es)
    have "?ok (assign_partition hll_on db e sp)" by (rule one) (use Cons.prems in simp_all)
    with Cons.IH Cons.prems(1) show ?case by simp
  qed simp
  from this [OF subset_refl, of "(w_states w, w_pos w)"] assms(4,6) show ?thesis
    by (auto simp: worker_full_def post_rebalance_def)
qed

lemma exec_full:
  assumes "duration_trunc_spec trunc" and "\<And>p. raw_ok decode (raw p)" and "lg = (\<lambda>p. decoded_log decode (raw p))"
    and "\<And>p. within_lateness (lg p)" and "worker_inv hll_on lg w" and "db_inv hll_on lg db"
    and "db_full hll_on lg db" and "worker_full hll_on lg db w"
    and "exec_cmd decode trunc hll_on raw c (w, db) = Some (w', db')" and "cmd_orderly lg c (w, db)"
  shows "db_full hll_on lg db' \<and> grows_full hll_on lg db db' \<and> worker_full hll_on lg db' w'"
proof -
  have ok: "log_ok (lg p)" for p using raw_ok_log_ok [OF assms(2)] by (simp add: assms(3))
  show ?thesis
  proof (cases c)
    case (Deliver p now_wall)
    with assms(9) obtain st off payload sts oc where "map_of (w_states w) p = Some st"
      "next_record (raw p) (w_pos w p) = Some (off, payload)"
      "handle_message decode trunc hll_on now_wall \<lparr>msg_payload = payload, msg_partition = p, msg_offset = off\<rparr> (w_states w) = Inr (sts, oc)"
      "w' = w\<lparr>w_states := sts, w_pos := (w_pos w)(p := off + 1)\<rparr>" "db' = db"
      by (auto split: option.splits sum.splits prod.splits)
    with deliver_full [OF assms(1-5,8)] assms(7) show ?thesis by simp
  next
    case (Idle now_wall now_utc)
    with idle_full [OF _ assms(8)] assms(7,9,10) show ?thesis by auto
  next
    case Drain
    then obtain bs sts where "w_pending w = []" "drain (w_states w) = (bs, sts)"
      "w' = w\<lparr>w_states := sts, w_pending := bs\<rparr>" "db' = db"
      using assms(9) by (auto split: if_splits prod.splits)
    with drain_full [OF ok assms(5,7,8)] assms(7) show ?thesis by simp
  next
    case (WriteOne db_up)
    with assms(9,10) obtain b bs where "w_pending w = b # bs" "w' = w\<lparr>w_pending := bs\<rparr>" "db' = write_batch True b db"
      by (auto simp: cmd_orderly_def split: list.splits)
    with write_one_full [OF assms(5,7,8)] show ?thesis by simp
  next
    case (Revoke ps)
    with assms(7,8,9) show ?thesis by (auto simp: worker_full_def pre_rebalance_lookup split: if_splits)
  next
    case (Assign els)
    with assms(9) obtain sts pos where "post_rebalance True hll_on db els (w_states w, w_pos w) = (sts, pos)"
      "w' = w\<lparr>w_states := sts, w_pos := pos\<rparr>" "db' = db" by (auto split: prod.splits)
    with assign_full [OF ok assms(6-8)] assms(7,10) Assign show ?thesis by simp
  next
    case Crash
    with assms(7,9) show ?thesis by (auto simp: worker_full_def)
  qed
qed

lemma orderly_full:
  assumes "orderly_run decode trunc hll_on raw s" and "duration_trunc_spec trunc" and "\<And>p. raw_ok decode (raw p)"
    and "lg = (\<lambda>p. decoded_log decode (raw p))" and "\<And>p. within_lateness (lg p)"
  shows "db_full hll_on lg (sys_db s) \<and> (\<forall>i. worker_full hll_on lg (sys_db s) (workers s i))"
  using assms(1)
proof (induction rule: orderly_run.induct)
  case init
  then show ?case by (simp add: system_init_def worker_init_def db_full_def worker_full_def)
next
  case (step s c i w db)
  have inv: "worker_inv hll_on lg (workers s i)" "db_inv hll_on lg (sys_db s)"
    using reachable_inv [OF orderly_reachable [OF step.hyps(1)] assms(2,3)] by (simp_all add: assms(4))
  from step.IH have f: "db_full hll_on lg (sys_db s)" "worker_full hll_on lg (sys_db s) (workers s i)" by blast+
  have o1: "cmd_orderly lg c (workers s i, sys_db s)" using step.hyps(3) by (simp add: assms(4))
  note e = exec_full [OF assms(2-5) inv f step.hyps(2) o1]
  have "worker_full hll_on lg db (workers s j)" for j
    using worker_full_grows step.IH e by blast
  with e show ?case by simp
qed

text \<open>The tables of an orderly run: no row is ever partial, and every window behind the stored watermark of
  its partition is complete.\<close>

lemma orderly_rows:
  assumes "orderly_run decode trunc hll_on raw s" and "duration_trunc_spec trunc" and "\<And>p. raw_ok decode (raw p)"
    and "\<And>p. within_lateness (decoded_log decode (raw p))"
  shows "map_of (agg_cells (sys_db s)) (w, k, p) = Some row \<Longrightarrow> full_row hll_on (decoded_log decode (raw p)) w k = Some row"
    "map_of (partition_progress (sys_db s)) p = Some pp \<Longrightarrow> window_end w \<le> pp_flushed_watermark pp \<Longrightarrow>
       map_of (agg_cells (sys_db s)) (w, k, p) = full_row hll_on (decoded_log decode (raw p)) w k"
  using orderly_full [OF assms(1-3) refl assms(4)] unfolding db_full_def rows_full_def by blast+

lemma orderly_window_rows:
  assumes "orderly_run decode trunc hll_on raw s" and "duration_trunc_spec trunc" and "\<And>p. raw_ok decode (raw p)"
    and "\<And>p. within_lateness (decoded_log decode (raw p))"
    and "in_window w (decoded_log decode (raw p)) \<noteq> [] \<Longrightarrow>
      \<exists>pp. map_of (partition_progress (sys_db s)) p = Some pp \<and> window_end w \<le> pp_flushed_watermark pp"
  shows "map_of (agg_cells (sys_db s)) (w, k, p) = full_row hll_on (decoded_log decode (raw p)) w k"
proof (cases "in_window w (decoded_log decode (raw p)) = []")
  case True
  then have "full_row hll_on (decoded_log decode (raw p)) w k = None" by (simp add: full_row_def)
  with orderly_rows(1) [OF assms(1-4), of w k p] show ?thesis by (cases "map_of (agg_cells (sys_db s)) (w, k, p)") auto
qed (use assms(5) orderly_rows(2) [OF assms(1-4)] in blast)

text \<open>C34: nothing is lost in an orderly run. At every moment of it, whatever its workers have read, flushed,
  crashed or replayed so far, each row of the table is the complete row of its cell and window over the whole
  log of its partition, and every window that ends by a partition's stored watermark has all its
  rows. So the checkpoint in the database never claims more than the table holds.\<close>

theorem orderly_tables_complete:
  assumes "orderly_run decode trunc hll_on raw s" and "duration_trunc_spec trunc" and "\<forall>p. raw_ok decode (raw p)"
    and "\<forall>p. within_lateness (decoded_log decode (raw p))"
  shows "(map_of (agg_cells (sys_db s)) (w, k, p) = Some row \<longrightarrow> full_row hll_on (decoded_log decode (raw p)) w k = Some row) \<and>
    (map_of (partition_progress (sys_db s)) p = Some pp \<and> window_end w \<le> pp_flushed_watermark pp \<longrightarrow>
       map_of (agg_cells (sys_db s)) (w, k, p) = full_row hll_on (decoded_log decode (raw p)) w k)"
  using orderly_rows [OF assms(1,2) _ _] assms(3,4) by blast

lemma demo_log_orderly:
  "within_lateness (decoded_log demo_decode (demo_raw 0)) \<and>
   list_all (\<lambda>r. fst r < 5 \<and> seconds 5000 < window_end (rec_window r)) (decoded_log demo_decode (demo_raw 0))"
  by code_simp

lemma demo_flush_orderly:
  "case orderly_cmds 5 (seconds 5000) demo_decode floor_trunc False demo_raw (Assign [demo_assign\<lparr>ae_now_utc := 0\<rparr>] # tl demo_flush)
       (worker_init, sys_db system_init) of
     None \<Rightarrow> False
   | Some (w, db) \<Rightarrow> map_of (agg_cells db) (seconds 6000, global_key, 0) = Some \<lparr>col_events = 2, col_users = 2, col_users_hll = None\<rparr>"
  by code_simp

theorem orderly_tables_complete_witness:
  "\<exists>s. orderly_run demo_decode floor_trunc False demo_raw s \<and>
     map_of (agg_cells (sys_db s)) (seconds 6000, global_key, 0) = Some \<lparr>col_events = 2, col_users = 2, col_users_hll = None\<rparr> \<and>
     full_row False (decoded_log demo_decode (demo_raw 0)) (seconds 6000) global_key = Some \<lparr>col_events = 2, col_users = 2, col_users_hll = None\<rparr>"
proof -
  have other: "p \<noteq> 0 \<Longrightarrow> decoded_log demo_decode (demo_raw p) = []" for p
    by (simp add: demo_raw_def decoded_log_def map_filter_simps)
  have log: "list_all (\<lambda>r. fst r < 5 \<and> seconds 5000 < window_end (rec_window r)) (decoded_log demo_decode (demo_raw p))" for p
    using demo_log_orderly other [of p] by (cases "p = 0") simp_all
  have late: "\<forall>p. within_lateness (decoded_log demo_decode (demo_raw p))"
  proof
    show "within_lateness (decoded_log demo_decode (demo_raw p))" for p
      using demo_log_orderly other [of p] by (cases "p = 0") (simp_all add: within_lateness_def)
  qed
  obtain w db where c: "orderly_cmds 5 (seconds 5000) demo_decode floor_trunc False demo_raw
      (Assign [demo_assign\<lparr>ae_now_utc := 0\<rparr>] # tl demo_flush) (worker_init, sys_db system_init) = Some (w, db)"
    and row: "map_of (agg_cells db) (seconds 6000, global_key, 0) = Some \<lparr>col_events = 2, col_users = 2, col_users_hll = None\<rparr>"
    using demo_flush_orderly by (auto split: option.splits)
  have "workers system_init 0 = worker_init" by (simp add: system_init_def)
  with c orderly_cmds_run [OF _ orderly_run.init log, where cs = "Assign [demo_assign\<lparr>ae_now_utc := 0\<rparr>] # tl demo_flush" and i = 0]
  have run: "orderly_run demo_decode floor_trunc False demo_raw \<lparr>workers = (workers system_init)(0 := w), sys_db = db\<rparr>" by simp
  have raw: "\<forall>p. raw_ok demo_decode (demo_raw p)" by (simp add: demo_raw_ok)
  from orderly_tables_complete [OF run floor_trunc_spec raw late, of "seconds 6000" global_key 0 "\<lparr>col_events = 2, col_users = 2, col_users_hll = None\<rparr>"]
    row run show ?thesis by (intro exI [of _ "\<lparr>workers = (workers system_init)(0 := w), sys_db = db\<rparr>"]) simp
qed

end
