(* ===== verification/Privacy.thy ===== *)
theory Privacy
  imports CellHierarchy "HOL-Library.Multiset" "HOL-Library.While_Combinator"
begin

text \<open>
  \<^verbatim>\<open>crates/query-api/src/privacy.rs\<close>: k-threshold suppression of one parent's children. All
  counts are \<open>u64\<close> words, so sums wrap as in a release build; the properties that need sums not to
  wrap say so.
\<close>

record RawCell =
  rc_family :: string
  rc_wiki :: string
  rc_namespace :: i32
  rc_events :: u64
  rc_users :: u64

datatype ResultCell =
    Visible (vis_family: string) (vis_wiki: string) (vis_namespace: i32) (res_events: u64) (res_users: u64)
  | Other (res_events: u64) (res_users: u64)

definition DEFAULT_K :: u64 where
  "DEFAULT_K = 10"

definition saturating_sub :: "u64 \<Rightarrow> u64 \<Rightarrow> u64" where
  "saturating_sub a b = (if b \<le> a then a - b else 0)"

definition visible_total :: "RawCell list \<Rightarrow> u64" where
  "visible_total vis = sum_list (map rc_users vis)"

text \<open>The loop that pulls the smallest visible child into the hidden group: its condition and its body on
  the state \<open>(hidden_effective, visible, hidden)\<close>, and the recursion the loop amounts to. \<open>remove(0)\<close>
  panics on an empty vector, which the condition rules out.\<close>

definition pull_test :: "u64 \<Rightarrow> u64 \<times> RawCell list \<times> RawCell list \<Rightarrow> bool" where
  "pull_test k s \<longleftrightarrow> (case s of (hidden_effective, visible, hidden) \<Rightarrow>
     0 < hidden_effective \<and> hidden_effective < k \<and> visible \<noteq> [])"

definition pull_body :: "u64 \<times> RawCell list \<times> RawCell list \<Rightarrow> u64 \<times> RawCell list \<times> RawCell list" where
  "pull_body s = (case s of (hidden_effective, visible, hidden) \<Rightarrow>
     (let pulled = hd visible in (hidden_effective + rc_users pulled, tl visible, hidden @ [pulled])))"

fun pull :: "u64 \<Rightarrow> u64 \<Rightarrow> RawCell list \<Rightarrow> RawCell list \<Rightarrow> u64 \<times> RawCell list \<times> RawCell list" where
  "pull k hidden_effective [] hidden = (hidden_effective, [], hidden)"
| "pull k hidden_effective (pulled # visible) hidden =
     (if 0 < hidden_effective \<and> hidden_effective < k
      then pull k (hidden_effective + rc_users pulled) visible (hidden @ [pulled])
      else (hidden_effective, pulled # visible, hidden))"

definition as_visible :: "RawCell \<Rightarrow> ResultCell" where
  "as_visible c = Visible (rc_family c) (rc_wiki c) (rc_namespace c) (rc_events c) (rc_users c)"

definition suppress :: "u64 \<Rightarrow> RawCell list \<Rightarrow> u64 \<Rightarrow> ResultCell list" where
  "suppress parent_users children k =
     (let hidden = filter (\<lambda>c. rc_users c < k) children;
          visible = filter (\<lambda>c. \<not> rc_users c < k) children;
          hidden_users = sum_list (map rc_users hidden);
          visible = sort_key rc_users visible;
          residual = saturating_sub parent_users (visible_total visible + hidden_users);
          (hidden_effective, visible, hidden) = pull k (hidden_users + residual) visible hidden
      in map as_visible visible @
         (if hidden \<noteq> [] \<and> hidden_effective \<ge> k
          then [Other (sum_list (map rc_events hidden)) hidden_effective]
          else []))"

definition suppress_single :: "RawCell \<Rightarrow> u64 \<Rightarrow> bool" where
  "suppress_single cell k \<longleftrightarrow> rc_users cell \<ge> k"

text \<open>The number of users a list of cells reports, over the integers.\<close>

definition users_sum :: "RawCell list \<Rightarrow> nat" where
  "users_sum cs = sum_list (map (unat \<circ> rc_users) cs)"

definition visible_sum :: "ResultCell list \<Rightarrow> nat" where
  "visible_sum cs = sum_list (map (\<lambda>c. case c of Visible _ _ _ _ u \<Rightarrow> unat u | Other _ _ \<Rightarrow> 0) cs)"

definition demo_cell :: "string \<Rightarrow> u64 \<Rightarrow> RawCell" where
  "demo_cell name users = \<lparr>rc_family = ''wikipedia'', rc_wiki = name, rc_namespace = - 1,
     rc_events = users * 3, rc_users = users\<rparr>"

section \<open>The pulling loop\<close>

lemma pull_spec:
  assumes "pull k he visible hidden = (he', visible', hidden')"
  shows "\<exists>pulled. visible = pulled @ visible' \<and> hidden' = hidden @ pulled \<and>
    he' = he + sum_list (map rc_users pulled)"
  using assms
proof (induction k he visible hidden rule: pull.induct)
  case (2 k he p visible hidden)
  show ?case
  proof (cases "0 < he \<and> he < k")
    case True
    with 2 obtain pulled where "visible = pulled @ visible'" "hidden' = (hidden @ [p]) @ pulled"
      "he' = he + rc_users p + sum_list (map rc_users pulled)" by auto
    then show ?thesis by (intro exI [of _ "p # pulled"]) (simp add: add.assoc)
  next
    case False
    with "2.prems" have "visible' = p # visible" "hidden' = hidden" "he' = he" by auto
    then show ?thesis by simp
  qed
qed simp

lemma pull_stops:
  "pull k he visible hidden = (he', visible', hidden') \<Longrightarrow> visible' \<noteq> [] \<Longrightarrow> he' = 0 \<or> k \<le> he'"
  by (induction k he visible hidden rule: pull.induct) (auto simp: not_less word_gt_0 split: if_splits)

lemma pull_idle: "he = 0 \<or> k \<le> he \<Longrightarrow> pull k he visible hidden = (he, visible, hidden)"
  by (cases visible) auto

lemma pull_hidden: "pull k he visible hidden = (he', visible', hidden') \<Longrightarrow> hidden \<noteq> [] \<Longrightarrow> hidden' \<noteq> []"
  by (drule pull_spec) auto

lemma pull_test_simps [simp]:
  "pull_test k (he, [], hidden) \<longleftrightarrow> False"
  "pull_test k (he, c # visible, hidden) \<longleftrightarrow> 0 < he \<and> he < k"
  by (simp_all add: pull_test_def)

lemma pull_body_Cons [simp]: "pull_body (he, c # visible, hidden) = (he + rc_users c, visible, hidden @ [c])"
  by (simp add: pull_body_def)

lemma pull_while: "while_option (pull_test k) pull_body (he, visible, hidden) = Some (pull k he visible hidden)"
proof (induction visible arbitrary: he hidden)
  case Nil
  then show ?case by (simp add: while_option_unfold)
next
  case (Cons c visible)
  then show ?case by (subst while_option_unfold) simp
qed

lemma pull_iterations:
  "\<exists>n \<le> length visible. pull k he visible hidden = (pull_body ^^ n) (he, visible, hidden)"
proof (induction visible arbitrary: he hidden)
  case (Cons c visible)
  show ?case
  proof (cases "0 < he \<and> he < k")
    case True
    from Cons.IH [of "he + rc_users c" "hidden @ [c]"] obtain n where n: "n \<le> length visible"
      "pull k (he + rc_users c) visible (hidden @ [c]) = (pull_body ^^ n) (he + rc_users c, visible, hidden @ [c])" by blast
    then have "pull k he (c # visible) hidden = (pull_body ^^ Suc n) (he, c # visible, hidden)"
      using True by (simp add: funpow_swap1)
    with n(1) show ?thesis by (intro exI [of _ "Suc n"]) simp
  qed (auto intro: exI [of _ 0])
qed simp

section \<open>What suppression releases\<close>

text \<open>The released list in terms of the two groups the code ends with.\<close>

definition hidden0 :: "u64 \<Rightarrow> RawCell list \<Rightarrow> RawCell list" where
  "hidden0 k children = filter (\<lambda>c. rc_users c < k) children"

definition visible0 :: "u64 \<Rightarrow> RawCell list \<Rightarrow> RawCell list" where
  "visible0 k children = sort_key rc_users (filter (\<lambda>c. \<not> rc_users c < k) children)"

definition effective0 :: "u64 \<Rightarrow> RawCell list \<Rightarrow> u64 \<Rightarrow> u64" where
  "effective0 parent_users children k =
     sum_list (map rc_users (hidden0 k children)) +
     saturating_sub parent_users (visible_total (visible0 k children) + sum_list (map rc_users (hidden0 k children)))"

lemma suppress_split:
  obtains he vis hid pulled where
    "suppress parent_users children k =
       map as_visible vis @ (if hid \<noteq> [] \<and> k \<le> he then [Other (sum_list (map rc_events hid)) he] else [])"
    "pull k (effective0 parent_users children k) (visible0 k children) (hidden0 k children) = (he, vis, hid)"
    "visible0 k children = pulled @ vis" "hid = hidden0 k children @ pulled"
    "he = effective0 parent_users children k + sum_list (map rc_users pulled)"
proof -
  obtain he vis hid where p:
    "pull k (effective0 parent_users children k) (visible0 k children) (hidden0 k children) = (he, vis, hid)"
    by (cases "pull k (effective0 parent_users children k) (visible0 k children) (hidden0 k children)")
  from pull_spec [OF this] obtain pulled where s: "visible0 k children = pulled @ vis"
    "hid = hidden0 k children @ pulled" "he = effective0 parent_users children k + sum_list (map rc_users pulled)"
    by blast
  have "suppress parent_users children k =
       map as_visible vis @ (if hid \<noteq> [] \<and> k \<le> he then [Other (sum_list (map rc_events hid)) he] else [])"
    using p by (simp add: suppress_def Let_def effective0_def visible0_def hidden0_def)
  from that [OF this p s] show ?thesis .
qed

lemma visible0_ge: "list_all (\<lambda>c. k \<le> rc_users c) (visible0 k children)"
  by (simp add: visible0_def list_all_iff not_less)

lemma hidden0_less: "list_all (\<lambda>c. rc_users c < k) (hidden0 k children)"
  by (simp add: hidden0_def list_all_iff)

lemma mset_groups: "mset (visible0 k children) + mset (hidden0 k children) = mset children"
  by (simp add: visible0_def hidden0_def add.commute)

lemma suppressed_ge: "list_all (\<lambda>c. k \<le> res_users c) (suppress parent_users children k)"
proof -
  obtain he vis hid pulled where s: "suppress parent_users children k =
       map as_visible vis @ (if hid \<noteq> [] \<and> k \<le> he then [Other (sum_list (map rc_events hid)) he] else [])"
    and "pull k (effective0 parent_users children k) (visible0 k children) (hidden0 k children) = (he, vis, hid)"
    and v: "visible0 k children = pulled @ vis" and "hid = hidden0 k children @ pulled"
    and "he = effective0 parent_users children k + sum_list (map rc_users pulled)"
    by (rule suppress_split)
  show ?thesis using visible0_ge [of k children] unfolding s v by (auto simp: list_all_iff as_visible_def)
qed

text \<open>C7: nothing below the threshold is ever released. Whatever the parent's count and the children,
  overflowing sums included, every released row, visible or merged, reports at least \<open>k\<close> users.\<close>

theorem suppress_k_anonymous:
  "list_all (\<lambda>c. k \<le> res_users c) (suppress parent_users children k) \<and>
   (suppress_single cell k \<longleftrightarrow> k \<le> rc_users cell)"
  by (simp add: suppressed_ge suppress_single_def)

text \<open>C17: suppression only merges. The children are split into a visible and a hidden group, each child
  in exactly one of them; visible children are released unchanged in ascending order of users, every
  hidden child has at most as many users as every visible one, and the hidden group is released as
  one row carrying the sum of its events, or not at all. When what is hidden at first is nothing or
  already reaches \<open>k\<close>, no child at or above the threshold is hidden.\<close>

theorem suppress_partitions_children:
  "\<exists>vis hid he. mset vis + mset hid = mset children \<and>
     suppress parent_users children k = map as_visible vis @
       (if hid \<noteq> [] \<and> k \<le> he then [Other (sum_list (map rc_events hid)) he] else []) \<and>
     sorted (map rc_users vis) \<and>
     list_all (\<lambda>h. list_all (\<lambda>v. rc_users h \<le> rc_users v) vis) hid \<and>
     (effective0 parent_users children k = 0 \<or> k \<le> effective0 parent_users children k \<longrightarrow>
        hid = filter (\<lambda>c. rc_users c < k) children)"
proof -
  obtain he vis hid pulled where s: "suppress parent_users children k =
       map as_visible vis @ (if hid \<noteq> [] \<and> k \<le> he then [Other (sum_list (map rc_events hid)) he] else [])"
    and p: "pull k (effective0 parent_users children k) (visible0 k children) (hidden0 k children) = (he, vis, hid)"
    and v: "visible0 k children = pulled @ vis" and h: "hid = hidden0 k children @ pulled"
    and "he = effective0 parent_users children k + sum_list (map rc_users pulled)"
    by (rule suppress_split)
  have m: "mset vis + mset hid = mset children"
    using mset_groups [of k children] by (simp add: v h ac_simps)
  have "sorted (map rc_users (pulled @ vis))" unfolding v [symmetric] visible0_def by simp
  then have so: "sorted (map rc_users vis)" "list_all (\<lambda>h. list_all (\<lambda>v. rc_users h \<le> rc_users v) vis) pulled"
    by (auto simp: sorted_append list_all_iff)
  have "rc_users h' \<le> rc_users v'" if "h' \<in> set (hidden0 k children)" "v' \<in> set vis" for h' v'
  proof -
    have "rc_users h' < k" using that(1) hidden0_less by (simp add: list_all_iff)
    also have "k \<le> rc_users v'" using that(2) visible0_ge [of k children] v by (simp add: list_all_iff)
    finally show ?thesis by simp
  qed
  with so(2) have le: "list_all (\<lambda>h. list_all (\<lambda>v. rc_users h \<le> rc_users v) vis) hid"
    by (auto simp: h list_all_iff)
  have "hid = filter (\<lambda>c. rc_users c < k) children"
    if "effective0 parent_users children k = 0 \<or> k \<le> effective0 parent_users children k"
    using p by (simp add: pull_idle [OF that] hidden0_def)
  with m s so(1) le show ?thesis by blast
qed

theorem suppress_partitions_children_witness:
  "\<exists>vis hid he. mset vis + mset hid = mset [demo_cell ''a'' 50, demo_cell ''b'' 6, demo_cell ''c'' 5] \<and>
     suppress 61 [demo_cell ''a'' 50, demo_cell ''b'' 6, demo_cell ''c'' 5] 10 = map as_visible vis @
       (if hid \<noteq> [] \<and> 10 \<le> he then [Other (sum_list (map rc_events hid)) he] else []) \<and>
     hid = [demo_cell ''b'' 6, demo_cell ''c'' 5]"
proof -
  let ?cs = "[demo_cell ''a'' 50, demo_cell ''b'' 6, demo_cell ''c'' 5]"
  have "effective0 61 ?cs 10 = 11" by code_simp
  moreover have "filter (\<lambda>c. rc_users c < 10) ?cs = [demo_cell ''b'' 6, demo_cell ''c'' 5]"
    by (simp add: demo_cell_def)
  ultimately show ?thesis using suppress_partitions_children [of ?cs 61 10] by auto
qed

section \<open>Differencing\<close>

lemma unat_sum_users:
  "users_sum cs < 2 ^ 64 \<Longrightarrow> unat (sum_list (map rc_users cs)) = users_sum cs"
proof (induction cs)
  case (Cons c cs)
  then have "unat (sum_list (map rc_users cs)) = users_sum cs" by (simp add: users_sum_def)
  with Cons.prems have "unat (rc_users c) + unat (sum_list (map rc_users cs)) < 2 ^ LENGTH(64)"
    by (simp add: users_sum_def)
  then have "unat (rc_users c + sum_list (map rc_users cs)) = unat (rc_users c) + unat (sum_list (map rc_users cs))"
    by (rule unat_add_lem [THEN iffD1])
  with \<open>unat (sum_list (map rc_users cs)) = users_sum cs\<close> show ?case by (simp add: users_sum_def)
qed (simp add: users_sum_def)

lemma users_sum_append [simp]: "users_sum (xs @ ys) = users_sum xs + users_sum ys"
  by (simp add: users_sum_def)

lemma users_sum_mset: "mset xs = mset ys \<Longrightarrow> users_sum xs = users_sum ys"
  unfolding users_sum_def by (metis mset_map sum_mset_sum_list)

lemma visible_sum_suppressed:
  "visible_sum (map as_visible vis @ (if b then [Other e u] else [])) = users_sum vis"
  by (simp add: visible_sum_def users_sum_def as_visible_def comp_def)

lemma unat_add_small: "unat (a :: u64) + unat b < 2 ^ 64 \<Longrightarrow> unat (a + b) = unat a + unat b"
  using unat_add_lem [of a b] by simp

lemma effective0_exact:
  assumes "users_sum children \<le> unat parent_users"
  shows "unat (effective0 parent_users children k) = unat parent_users - users_sum (visible0 k children)"
proof -
  let ?v = "visible0 k children" and ?h = "hidden0 k children"
  have p: "unat parent_users < 2 ^ 64" using unsigned_less [of parent_users] by simp
  have s: "users_sum ?v + users_sum ?h = users_sum children"
    using users_sum_mset [of "?v @ ?h" children] mset_groups [of k children] by simp
  have v: "unat (visible_total ?v) = users_sum ?v" and h: "unat (sum_list (map rc_users ?h)) = users_sum ?h"
    using s assms p unat_sum_users [of ?v] unat_sum_users [of ?h] by (simp_all add: visible_total_def)
  have vh: "unat (visible_total ?v + sum_list (map rc_users ?h)) = users_sum children"
    using unat_add_small [of "visible_total ?v" "sum_list (map rc_users ?h)"] s assms p v h by simp
  then have le: "visible_total ?v + sum_list (map rc_users ?h) \<le> parent_users"
    using assms by (simp add: word_le_nat_alt)
  then have "unat (saturating_sub parent_users (visible_total ?v + sum_list (map rc_users ?h)))
      = unat parent_users - users_sum children"
    by (simp add: saturating_sub_def unat_sub vh)
  with h s assms p show ?thesis
    unfolding effective0_def by (subst unat_add_small) simp_all
qed

text \<open>C8: the differencing defence. When no user is counted in two children (the children's counts sum to
  at most the parent's), subtracting the visible rows from the parent's count reveals either nothing
  at all, or a group of at least \<open>k\<close> users, unless nothing whatsoever was released; and when the
  merged row is released, it reports exactly the remaining users.\<close>

theorem suppress_defeats_differencing:
  assumes "users_sum children \<le> unat parent_users"
  shows "(visible_sum (suppress parent_users children k) = unat parent_users \<or>
      unat k \<le> unat parent_users - visible_sum (suppress parent_users children k) \<or>
      suppress parent_users children k = []) \<and>
    visible_sum (suppress parent_users children k) \<le> unat parent_users \<and>
    list_all (\<lambda>c. case c of Visible _ _ _ _ _ \<Rightarrow> True
        | Other _ u \<Rightarrow> unat u = unat parent_users - visible_sum (suppress parent_users children k))
      (suppress parent_users children k)"
proof -
  obtain he vis hid pulled where s: "suppress parent_users children k =
       map as_visible vis @ (if hid \<noteq> [] \<and> k \<le> he then [Other (sum_list (map rc_events hid)) he] else [])"
    and p: "pull k (effective0 parent_users children k) (visible0 k children) (hidden0 k children) = (he, vis, hid)"
    and v: "visible0 k children = pulled @ vis" and h: "hid = hidden0 k children @ pulled"
    and e: "he = effective0 parent_users children k + sum_list (map rc_users pulled)"
    by (rule suppress_split)
  have vs: "visible_sum (suppress parent_users children k) = users_sum vis"
    unfolding s by (rule visible_sum_suppressed)
  have "users_sum (visible0 k children) + users_sum (hidden0 k children) = users_sum children"
    using users_sum_mset [of "visible0 k children @ hidden0 k children" children] mset_groups [of k children] by simp
  then have le: "users_sum pulled + users_sum vis \<le> unat parent_users" using assms by (simp add: v)
  have p64: "unat parent_users < 2 ^ 64" using unsigned_less [of parent_users] by simp
  have "unat (sum_list (map rc_users pulled)) = users_sum pulled"
    using le p64 by (intro unat_sum_users) simp
  then have he: "unat he = unat parent_users - users_sum vis"
    using effective0_exact [OF assms, of k] le p64 unfolding e v by (subst unat_add_small) simp_all
  have "users_sum vis = unat parent_users \<or> unat k \<le> unat parent_users - users_sum vis \<or>
      suppress parent_users children k = []"
  proof (cases "vis = []")
    case True
    then show ?thesis using he s by (cases "k \<le> he") (simp_all add: word_le_nat_alt)
  next
    case False
    with pull_stops [OF p] he le show ?thesis by (auto simp: word_le_nat_alt)
  qed
  moreover have "list_all (\<lambda>c. case c of Visible _ _ _ _ _ \<Rightarrow> True
      | Other _ u \<Rightarrow> unat u = unat parent_users - users_sum vis) (suppress parent_users children k)"
    using he unfolding s by (auto simp: list_all_iff as_visible_def)
  ultimately show ?thesis using le unfolding vs by simp
qed

theorem suppress_defeats_differencing_witness:
  "users_sum [demo_cell ''big'' 45, demo_cell ''small'' 5] \<le> unat (50 :: u64) \<and>
   suppress 50 [demo_cell ''big'' 45, demo_cell ''small'' 5] 10 = [Other 150 50] \<and>
   list_all (\<lambda>c. case c of Visible _ _ _ _ _ \<Rightarrow> True
        | Other _ u \<Rightarrow> unat u = unat (50 :: u64) - visible_sum (suppress 50 [demo_cell ''big'' 45, demo_cell ''small'' 5] 10))
      (suppress 50 [demo_cell ''big'' 45, demo_cell ''small'' 5] 10)"
proof -
  have a: "users_sum [demo_cell ''big'' 45, demo_cell ''small'' 5] \<le> unat (50 :: u64)" by code_simp
  moreover have "suppress 50 [demo_cell ''big'' 45, demo_cell ''small'' 5] 10 = [Other 150 50]" by code_simp
  ultimately show ?thesis using suppress_defeats_differencing [OF a, of 10] by blast
qed

text \<open>C18: the suppression loop ends. Whatever the counts, wrap-around included, the \<open>while\<close> loop as it is
  written runs at most once per visible child, ends in a state where its condition is false, and
  that state is the one suppression goes on with.\<close>

theorem suppression_loop_terminates:
  "while_option (pull_test k) pull_body (he, visible, hidden) = Some (pull k he visible hidden) \<and>
   \<not> pull_test k (pull k he visible hidden) \<and>
   (\<exists>n \<le> length visible. pull k he visible hidden = (pull_body ^^ n) (he, visible, hidden))"
  using pull_while [of k he visible hidden] while_option_stop [OF pull_while [of k he visible hidden]]
    pull_iterations [of visible k he hidden] by blast

text \<open>The documented limit of the defence. When the same users are active in several hidden
  children their counts add up, so the merged row can be released although the group behind it has
  fewer than \<open>k\<close> members: two wikis edited by the same five users are released as one row of ten.\<close>

theorem other_row_overstates_group:
  "\<exists>A B C :: string set. card (A \<union> B \<union> C) = 25 \<and> card (B \<union> C) = 5 \<and>
     suppress (of_nat (card (A \<union> B \<union> C)))
       [demo_cell ''a'' (of_nat (card A)), demo_cell ''b'' (of_nat (card B)), demo_cell ''c'' (of_nat (card C))] 10 =
     [Visible ''wikipedia'' ''a'' (- 1) 60 20, Other 30 10]"
proof -
  define u :: "nat \<Rightarrow> string" where "u n = replicate n CHR ''u''" for n
  have inj: "inj_on u X" for X by (rule inj_onI) (metis length_replicate u_def)
  let ?A = "u ` {0..<20}" and ?B = "u ` {20..<25}"
  have c: "card ?A = 20" "card ?B = 5" "card (?A \<union> ?B) = 25"
    by (simp_all add: card_image inj card_Un_disjoint flip: image_Un)
  have "suppress 25 [demo_cell ''a'' 20, demo_cell ''b'' 5, demo_cell ''c'' 5] 10 =
      [Visible ''wikipedia'' ''a'' (- 1) 60 20, Other 30 10]" by code_simp
  with c show ?thesis by (intro exI [of _ ?A] exI [of _ ?B]) (simp add: Un_assoc)
qed

end
