(* ===== verification/QueryDb.thy ===== *)
theory QueryDb
  imports Privacy AggDb
begin

text \<open>
  \<^verbatim>\<open>crates/query-api/src/db.rs\<close>: the reads of the query API, over the tables the aggregator writes.
  A \<open>WHERE\<close> clause is a filter on the rows, \<open>GROUP BY\<close> a grouping that keeps the order of first
  occurrence (SQL leaves the order open; the callers do not depend on it), \<open>SUM\<close> of \<open>bigint\<close> is
  computed exactly and its cast back to \<open>bigint\<close> fails out of range. \<open>db_up\<close> says whether the
  query reaches the database. Merging sketches can panic, hence the two kinds of failure. Windows are
  compared as bound; the truncation of a bound timestamp to microseconds, which matters only for
  queries between whole microseconds, is left out.
\<close>

datatype query_error = QueryFailed db_error | Bail string | Panicked panic

type_synonym row = "agg_pk \<times> AggRow"

fun row_window :: "row \<Rightarrow> datetime" where "row_window ((w, k, p), r) = w"
fun row_key :: "row \<Rightarrow> CellKey" where "row_key ((w, k, p), r) = k"
fun row_partition :: "row \<Rightarrow> i32" where "row_partition ((w, k, p), r) = p"

definition min_flushed_watermark :: "bool \<Rightarrow> Database \<Rightarrow> query_error + datetime option" where
  "min_flushed_watermark db_up db =
     (if db_up then
        Inr (case map (pp_flushed_watermark \<circ> snd) (partition_progress db) of
               [] \<Rightarrow> None
             | x # xs \<Rightarrow> Some (fold min xs x))
      else Inl (QueryFailed DbError))"

definition sum_bigint :: "int list \<Rightarrow> query_error + i64" where
  "sum_bigint xs = (if in_i64 (sum_list xs) then Inr (sum_list xs) else Inl (QueryFailed DbError))"

definition raw_cell :: "string \<times> string \<times> i32 \<Rightarrow> i64 \<Rightarrow> i64 \<Rightarrow> RawCell" where
  "raw_cell fwn events users = \<lparr>rc_family = fst fwn, rc_wiki = fst (snd fwn), rc_namespace = snd (snd fwn),
     rc_events = i64_as_u64 events, rc_users = i64_as_u64 users\<rparr>"

definition summed_cell :: "string \<times> string \<times> i32 \<Rightarrow> AggRow list \<Rightarrow> query_error + RawCell" where
  "summed_cell fwn rs =
     (case sum_bigint (map col_events rs) of
        Inl e \<Rightarrow> Inl e
      | Inr events \<Rightarrow>
          (case sum_bigint (map col_users rs) of
             Inl e \<Rightarrow> Inl e
           | Inr users \<Rightarrow> Inr (raw_cell fwn events users)))"

definition cell_where :: "Database \<Rightarrow> datetime \<Rightarrow> CellKey \<Rightarrow> AggRow list" where
  "cell_where db w key = map snd (filter (\<lambda>r. row_window r = w \<and> row_key r = key) (agg_cells db))"

text \<open>An aggregate without \<open>GROUP BY\<close> always returns one row, so the result is never \<open>None\<close>.\<close>

definition fetch_cell :: "bool \<Rightarrow> Database \<Rightarrow> datetime \<Rightarrow> CellKey \<Rightarrow> query_error + RawCell option" where
  "fetch_cell db_up db w key =
     (if db_up then
        map_sum id Some (summed_cell (ck_family key, ck_wiki key, ck_namespace key) (cell_where db w key))
      else Inl (QueryFailed DbError))"

text \<open>The three \<open>SELECT\<close>s over the children of a cell: which rows, grouped by which columns.\<close>

definition child_where :: "Database \<Rightarrow> datetime \<Rightarrow> CellKey \<Rightarrow> row list" where
  "child_where db w par =
     (let child_level = ck_level par + 1
      in if ck_level par = 0 then
           filter (\<lambda>r. row_window r = w \<and> ck_level (row_key r) = child_level) (agg_cells db)
         else if ck_level par = 1 then
           filter (\<lambda>r. row_window r = w \<and> ck_level (row_key r) = child_level \<and>
                       ck_family (row_key r) = ck_family par) (agg_cells db)
         else if ck_level par = 2 then
           filter (\<lambda>r. row_window r = w \<and> ck_level (row_key r) = child_level \<and>
                       ck_family (row_key r) = ck_family par \<and> ck_wiki (row_key r) = ck_wiki par) (agg_cells db)
         else [])"

definition child_columns :: "CellKey \<Rightarrow> row \<Rightarrow> string \<times> string \<times> i32" where
  "child_columns par r =
     (let k = row_key r
      in if ck_level par = 0 then (ck_family k, ''*'', - 1)
         else if ck_level par = 1 then (ck_family k, ck_wiki k, - 1)
         else (ck_family k, ck_wiki k, ck_namespace k))"

definition group_add :: "AggRow \<Rightarrow> AggRow list option \<Rightarrow> AggRow list" where
  "group_add r g = (case g of None \<Rightarrow> [r] | Some rs \<Rightarrow> rs @ [r])"

definition group_by :: "(row \<Rightarrow> 'k) \<Rightarrow> row list \<Rightarrow> ('k \<times> AggRow list) list" where
  "group_by key rows = fold (\<lambda>r. al_alter (key r) (group_add (snd r))) rows []"

fun map_res :: "('a \<Rightarrow> 'e + 'b) \<Rightarrow> 'a list \<Rightarrow> 'e + 'b list" where
  "map_res f [] = Inr []"
| "map_res f (x # xs) =
     (case f x of
        Inl e \<Rightarrow> Inl e
      | Inr y \<Rightarrow> (case map_res f xs of Inl e \<Rightarrow> Inl e | Inr ys \<Rightarrow> Inr (y # ys)))"

definition fetch_children :: "bool \<Rightarrow> Database \<Rightarrow> datetime \<Rightarrow> CellKey \<Rightarrow> query_error + RawCell list" where
  "fetch_children db_up db w par =
     (if db_up then map_res (\<lambda>(fwn, rs). summed_cell fwn rs) (group_by (child_columns par) (child_where db w par))
      else Inl (QueryFailed DbError))"

section \<open>Sketches\<close>

definition merge_hll_bytes :: "HyperLogLog option \<Rightarrow> u8 list option \<Rightarrow> HyperLogLog option res" where
  "merge_hll_bytes acc bytes =
     (case bytes of
        None \<Rightarrow> Inr acc
      | Some bytes \<Rightarrow>
          (case from_bytes bytes of
             None \<Rightarrow> Inr acc
           | Some sk \<Rightarrow>
               (case acc of
                  Some existing \<Rightarrow> map_sum id Some (hll_merge existing sk)
                | None \<Rightarrow> Inr (Some sk))))"

text \<open>\<open>f64::round\<close> rounds half away from zero; the cast to \<open>u64\<close> saturates.\<close>

definition f64_round :: "real \<Rightarrow> int" where
  "f64_round x = (if 0 \<le> x then \<lfloor>x + 1 / 2\<rfloor> else - \<lfloor>1 / 2 - x\<rfloor>)"

definition f64_as_u64 :: "int \<Rightarrow> u64" where
  "f64_as_u64 x = word_of_int (max 0 (min x (2 ^ 64 - 1)))"

definition estimated_users :: "HyperLogLog option \<Rightarrow> u64" where
  "estimated_users h = (case h of None \<Rightarrow> 0 | Some h \<Rightarrow> f64_as_u64 (f64_round (estimate h)))"

definition add_hll_row :: "AggRow \<Rightarrow> i64 \<times> HyperLogLog option \<Rightarrow> (i64 \<times> HyperLogLog option) res" where
  "add_hll_row r acc =
     (case merge_hll_bytes (snd acc) (col_users_hll r) of
        Inl p \<Rightarrow> Inl p
      | Inr h \<Rightarrow> Inr (wrap_i64 (fst acc + col_events r), h))"

definition estimated_cell :: "string \<times> string \<times> i32 \<Rightarrow> i64 \<times> HyperLogLog option \<Rightarrow> RawCell" where
  "estimated_cell fwn acc =
     \<lparr>rc_family = fst fwn, rc_wiki = fst (snd fwn), rc_namespace = snd (snd fwn),
      rc_events = i64_as_u64 (fst acc), rc_users = estimated_users (snd acc)\<rparr>"

definition fetch_cell_hll :: "bool \<Rightarrow> Database \<Rightarrow> datetime \<Rightarrow> CellKey \<Rightarrow> query_error + RawCell option" where
  "fetch_cell_hll db_up db w key =
     (if db_up then
        (let rows = cell_where db w key
         in if rows = [] then Inr None
            else map_sum Panicked (\<lambda>acc. Some (estimated_cell (ck_family key, ck_wiki key, ck_namespace key) acc))
                   (fold_res add_hll_row rows (0, None)))
      else Inl (QueryFailed DbError))"

text \<open>The grouping in application code: one pass over the rows, one accumulator per cell.\<close>

definition full_columns :: "row \<Rightarrow> string \<times> string \<times> i32" where
  "full_columns r = (ck_family (row_key r), ck_wiki (row_key r), ck_namespace (row_key r))"

type_synonym hll_groups = "((string \<times> string \<times> i32) \<times> (i64 \<times> HyperLogLog option)) list"

definition group_hll_row :: "row \<Rightarrow> hll_groups \<Rightarrow> hll_groups res" where
  "group_hll_row r grouped =
     (let entry = (case map_of grouped (full_columns r) of None \<Rightarrow> (0, None) | Some en \<Rightarrow> en)
      in case add_hll_row (snd r) entry of
           Inl p \<Rightarrow> Inl p
         | Inr entry' \<Rightarrow> Inr (al_put (full_columns r) entry' grouped))"

definition fetch_children_hll :: "bool \<Rightarrow> Database \<Rightarrow> datetime \<Rightarrow> CellKey \<Rightarrow> query_error + RawCell list" where
  "fetch_children_hll db_up db w par =
     (if db_up then
        map_sum Panicked (map (\<lambda>(fwn, acc). estimated_cell fwn acc))
          (fold_res group_hll_row (child_where db w par) [])
      else Inl (QueryFailed DbError))"

definition demo_db :: Database where
  "demo_db = \<lparr>agg_cells =
       [((0, family_key ''wikipedia'', 0), \<lparr>col_events = 3, col_users = 2, col_users_hll = None\<rparr>),
        ((0, family_key ''wikipedia'', 1), \<lparr>col_events = 2, col_users = 2, col_users_hll = None\<rparr>),
        ((0, global_key, 0), \<lparr>col_events = 3, col_users = 2, col_users_hll = None\<rparr>),
        ((0, global_key, 1), \<lparr>col_events = 2, col_users = 2, col_users_hll = None\<rparr>)],
     partition_progress = [(0, \<lparr>pp_committed_offset = 3, pp_flushed_watermark = seconds 90\<rparr>),
        (1, \<lparr>pp_committed_offset = 2, pp_flushed_watermark = seconds 100\<rparr>)]\<rparr>"

section \<open>Casts\<close>

lemma unat_f64_as_u64: "unat (f64_as_u64 i) = nat (max 0 (min i (2 ^ 64 - 1)))"
proof -
  have "uint (f64_as_u64 i) = max 0 (min i (2 ^ 64 - 1))"
    unfolding f64_as_u64_def by (subst uint_word_of_int) (auto simp: min_def max_def)
  then show ?thesis by (simp only: unat_eq_nat_uint)
qed

section \<open>Grouping\<close>

lemma fold_group_add:
  "fold (\<lambda>r g. Some (group_add (snd r) g)) rows g0 =
     (if rows = [] then g0 else Some (case g0 of None \<Rightarrow> map snd rows | Some rs \<Rightarrow> rs @ map snd rows))"
  by (induction rows arbitrary: g0) (auto simp: group_add_def split: option.splits)

lemma map_of_group_by:
  "map_of (group_by key rows) k =
     (if \<exists>r \<in> set rows. key r = k then Some (map snd (filter (\<lambda>r. key r = k) rows)) else None)"
  unfolding group_by_def
  using hash.lookup_fold [where key = key and upd = "\<lambda>r. group_add (snd r)" and m = "[]" and xs = rows and k = k]
  by (auto simp: fold_group_add filter_empty_conv)

lemma al_inv_group_by: "al_inv (group_by key rows)"
  unfolding group_by_def
  using hash.invar_fold [where key = key and upd = "\<lambda>r. group_add (snd r)" and m = "[]" and xs = rows] by simp

lemma list_all2_origin: "list_all2 P xs ys \<Longrightarrow> y \<in> set ys \<Longrightarrow> \<exists>x \<in> set xs. P x y"
  by (induction rule: list_all2_induct) auto

lemma map_res_all2: "map_res f xs = Inr ys \<Longrightarrow> list_all2 (\<lambda>x y. f x = Inr y) xs ys"
  by (induction xs arbitrary: ys) (auto split: sum.splits)

lemma map_res_total: "(\<And>x. x \<in> set xs \<Longrightarrow> \<exists>y. f x = Inr y) \<Longrightarrow> \<exists>ys. map_res f xs = Inr ys"
  by (induction xs) (fastforce split: sum.splits)+

section \<open>The children of a cell\<close>

definition child_key :: "CellKey \<Rightarrow> string \<times> string \<times> i32 \<Rightarrow> CellKey" where
  "child_key par fwn = \<lparr>ck_level = ck_level par + 1, ck_family = fst fwn, ck_wiki = fst (snd fwn),
     ck_namespace = snd (snd fwn)\<rparr>"

definition key_of_cell :: "CellKey \<Rightarrow> RawCell \<Rightarrow> CellKey" where
  "key_of_cell par rc = child_key par (rc_family rc, rc_wiki rc, rc_namespace rc)"

definition keys_wf :: "Database \<Rightarrow> bool" where
  "keys_wf db \<longleftrightarrow> list_all (\<lambda>r. wf_key (row_key r)) (agg_cells db)"

text \<open>The cells that have children in the hierarchy.\<close>

definition inner_key :: "CellKey \<Rightarrow> bool" where
  "inner_key par \<longleftrightarrow> wf_key par \<and> ck_level par < 3"

lemma inner_key_cases [consumes 1, case_names global family wiki]:
  assumes "inner_key par"
  obtains "par = global_key" | f where "par = family_key f" | f w where "par = wiki_key f w"
proof -
  from assms have "wf_key par" "ck_level par < 3" by (simp_all add: inner_key_def)
  then show ?thesis using that by (cases rule: wf_key_cases) auto
qed

lemma child_where_eq:
  assumes "inner_key par" and "keys_wf db"
  shows "child_where db w par = filter (\<lambda>r. row_window r = w \<and> parent (row_key r) = Some par) (agg_cells db)"
proof -
  have wf: "wf_key (row_key r)" if "r \<in> set (agg_cells db)" for r
    using assms(2) that by (simp add: keys_wf_def list_all_iff)
  from assms(1) show ?thesis
  proof (cases rule: inner_key_cases)
    case global
    then show ?thesis unfolding child_where_def Let_def
      by (auto intro!: filter_cong dest!: wf elim!: wf_key_cases)
  next
    case family
    then show ?thesis unfolding child_where_def Let_def
      by (auto intro!: filter_cong dest!: wf elim!: wf_key_cases)
  next
    case wiki
    then show ?thesis unfolding child_where_def Let_def
      by (auto intro!: filter_cong dest!: wf elim!: wf_key_cases)
  qed
qed

lemma child_columns_full:
  assumes "wf_key (row_key r)" and "parent (row_key r) = Some par"
  shows "child_columns par r = full_columns r" "ck_level (row_key r) = ck_level par + 1"
proof -
  from assms(1) show "child_columns par r = full_columns r"
  proof (cases rule: wf_key_cases)
    case global
    with assms(2) show ?thesis by simp
  next
    case (family f)
    with assms(2) have "par = global_key" by simp
    with family show ?thesis
      by (simp add: child_columns_def full_columns_def Let_def) (simp add: key_defs ROLLUP_STR_def ROLLUP_NAMESPACE_def)
  next
    case (wiki f w)
    with assms(2) have "par = family_key f" by simp
    with wiki show ?thesis
      by (simp add: child_columns_def full_columns_def Let_def) (simp add: key_defs ROLLUP_NAMESPACE_def)
  next
    case (namespace f w n)
    with assms(2) have "par = wiki_key f w" by simp
    with namespace show ?thesis by (simp add: child_columns_def full_columns_def Let_def)
  qed
  from assms(1) show "ck_level (row_key r) = ck_level par + 1"
    using assms(2) by (cases rule: wf_key_cases) auto
qed

lemma child_columns_eq:
  assumes "wf_key (row_key r)" and "parent (row_key r) = Some par"
  shows "child_columns par r = fwn \<longleftrightarrow> row_key r = child_key par fwn"
  using child_columns_full(2) [OF assms] unfolding child_columns_full(1) [OF assms]
  by (cases "row_key r"; cases fwn) (simp add: full_columns_def child_key_def)

lemma group_members:
  assumes "inner_key par" and "keys_wf db"
    and "(fwn, rs) \<in> set (group_by (child_columns par) (child_where db w par))"
  shows "parent (child_key par fwn) = Some par" "wf_key (child_key par fwn)"
    "rs = cell_where db w (child_key par fwn)" "rs \<noteq> []"
proof -
  let ?rows = "child_where db w par"
  have wf: "wf_key (row_key r)" "parent (row_key r) = Some par" "row_window r = w" if "r \<in> set ?rows" for r
    using that assms(2) by (auto simp: child_where_eq [OF assms(1,2)] keys_wf_def list_all_iff)
  have "map_of (group_by (child_columns par) ?rows) fwn = Some rs"
    using assms(3) al_inv_group_by [of "child_columns par" ?rows] by (simp add: al_inv_def)
  then obtain r where r: "r \<in> set ?rows" "child_columns par r = fwn"
    and rs: "rs = map snd (filter (\<lambda>r. child_columns par r = fwn) ?rows)"
    by (auto simp: map_of_group_by split: if_splits)
  have k: "row_key r = child_key par fwn"
    using child_columns_eq [OF wf(1,2) [OF r(1)], of fwn] r(2) by blast
  then show "parent (child_key par fwn) = Some par" "wf_key (child_key par fwn)"
    using wf [OF r(1)] by simp_all
  have "filter (\<lambda>r. child_columns par r = fwn) ?rows = filter (\<lambda>r. row_key r = child_key par fwn) ?rows"
    by (rule filter_cong) (simp_all add: child_columns_eq wf)
  also have "\<dots> = filter (\<lambda>r. row_window r = w \<and> row_key r = child_key par fwn) (agg_cells db)"
    using k wf(2) [OF r(1)] unfolding child_where_eq [OF assms(1,2)] filter_filter by (auto intro: filter_cong)
  finally show "rs = cell_where db w (child_key par fwn)" by (simp add: rs cell_where_def)
  show "rs \<noteq> []" using r by (auto simp: rs filter_empty_conv)
qed

lemma group_keys:
  assumes "inner_key par" and "keys_wf db"
  shows "(\<exists>rs. (fwn, rs) \<in> set (group_by (child_columns par) (child_where db w par))) \<longleftrightarrow>
    parent (child_key par fwn) = Some par \<and> wf_key (child_key par fwn) \<and> cell_where db w (child_key par fwn) \<noteq> []"
proof
  assume "\<exists>rs. (fwn, rs) \<in> set (group_by (child_columns par) (child_where db w par))"
  then show "parent (child_key par fwn) = Some par \<and> wf_key (child_key par fwn) \<and> cell_where db w (child_key par fwn) \<noteq> []"
    using group_members [OF assms] by metis
next
  assume a: "parent (child_key par fwn) = Some par \<and> wf_key (child_key par fwn) \<and> cell_where db w (child_key par fwn) \<noteq> []"
  then obtain r where r: "r \<in> set (agg_cells db)" "row_window r = w" "row_key r = child_key par fwn"
    by (auto simp: cell_where_def filter_empty_conv)
  then have "r \<in> set (child_where db w par)" using a by (simp add: child_where_eq [OF assms])
  moreover have "child_columns par r = fwn" using child_columns_eq [of r par fwn] a r(3) by simp
  ultimately have "map_of (group_by (child_columns par) (child_where db w par)) fwn \<noteq> None"
    by (auto simp: map_of_group_by)
  then show "\<exists>rs. (fwn, rs) \<in> set (group_by (child_columns par) (child_where db w par))"
    by (auto dest: map_of_SomeD)
qed

lemma summed_cell_fields:
  "summed_cell fwn rs = Inr rc \<Longrightarrow> (rc_family rc, rc_wiki rc, rc_namespace rc) = fwn"
  by (auto simp: summed_cell_def raw_cell_def split: sum.splits)

lemma child_key_inject [simp]: "child_key par x = child_key par y \<longleftrightarrow> x = y"
  by (auto simp: child_key_def prod_eq_iff)

text \<open>The children query returns the children. For every inner cell of the hierarchy, the rows that
  come back are exactly the cells whose parent it is and that have a row in the window, each once,
  and each carries the very totals a query for that cell alone returns.\<close>

lemma fetch_children_are_the_children:
  assumes "inner_key par" and "keys_wf db" and "fetch_children True db w par = Inr cs"
  shows "distinct (map (key_of_cell par) cs) \<and>
    set (map (key_of_cell par) cs) = {c. parent c = Some par \<and> wf_key c \<and> cell_where db w c \<noteq> []} \<and>
    list_all (\<lambda>rc. fetch_cell True db w (key_of_cell par rc) = Inr (Some rc)) cs"
proof -
  let ?g = "group_by (child_columns par) (child_where db w par)"
  have l2: "list_all2 (\<lambda>(fwn, rs) rc. summed_cell fwn rs = Inr rc) ?g cs"
    using map_res_all2 assms(3) by (fastforce simp: fetch_children_def case_prod_unfold)
  then have "list_all2 (\<lambda>x rc. child_key par (fst x) = key_of_cell par rc) ?g cs"
    by (rule list_all2_mono) (auto simp: key_of_cell_def dest: summed_cell_fields)
  then have keys: "map (key_of_cell par) cs = map (child_key par) (map fst ?g)"
    by (auto simp: list_all2_conv_all_nth intro!: nth_equalityI)
  have d: "distinct (map (key_of_cell par) cs)"
    using al_inv_group_by [of "child_columns par" "child_where db w par"]
    unfolding keys distinct_map by (auto simp: al_inv_def inj_on_def distinct_map)
  have lev: "c = child_key par (ck_family c, ck_wiki c, ck_namespace c)" if "parent c = Some par" "wf_key c" for c
    using child_columns_full(2) [of "((0, c, 0), undefined)" par] that
    by (cases c) (simp add: child_key_def)
  have "c \<in> set (map (key_of_cell par) cs) \<longleftrightarrow> parent c = Some par \<and> wf_key c \<and> cell_where db w c \<noteq> []" for c
  proof -
    have "c \<in> set (map (key_of_cell par) cs) \<longleftrightarrow> (\<exists>fwn rs. c = child_key par fwn \<and> (fwn, rs) \<in> set ?g)"
      unfolding keys by force
    also have "\<dots> \<longleftrightarrow> (\<exists>fwn. c = child_key par fwn \<and> parent c = Some par \<and> wf_key c \<and> cell_where db w c \<noteq> [])"
      using group_keys [OF assms(1,2), of _ w] by auto
    also have "\<dots> \<longleftrightarrow> parent c = Some par \<and> wf_key c \<and> cell_where db w c \<noteq> []" using lev by blast
    finally show ?thesis .
  qed
  moreover have "fetch_cell True db w (key_of_cell par rc) = Inr (Some rc)" if "rc \<in> set cs" for rc
  proof -
    from list_all2_origin [OF l2 that] obtain fwn rs where m: "(fwn, rs) \<in> set ?g" and sc: "summed_cell fwn rs = Inr rc"
      by auto
    then have "key_of_cell par rc = child_key par fwn" by (simp add: key_of_cell_def summed_cell_fields)
    with group_members(3) [OF assms(1,2) m] sc show ?thesis by (simp add: fetch_cell_def child_key_def)
  qed
  ultimately show ?thesis using d by (auto simp: list_all_iff)
qed

section \<open>Summing over partitions\<close>

text \<open>The rows of one cell as the aggregators of the partitions \<open>ps\<close> leave them: a row for every
  partition that counted something, and nothing else.\<close>

definition rows_by_partition ::
  "Database \<Rightarrow> datetime \<Rightarrow> CellKey \<Rightarrow> i32 set \<Rightarrow> (i32 \<Rightarrow> nat) \<Rightarrow> (i32 \<Rightarrow> string set) \<Rightarrow> bool" where
  "rows_by_partition db w key ps ev us \<longleftrightarrow>
     al_inv (agg_cells db) \<and>
     (\<forall>p. case map_of (agg_cells db) (w, key, p) of
            None \<Rightarrow> p \<in> ps \<longrightarrow> ev p = 0 \<and> us p = {}
          | Some row \<Rightarrow> p \<in> ps \<and> col_events row = int (ev p) \<and> col_users row = int (card (us p)))"

lemma rows_by_partitionD:
  assumes "rows_by_partition db w key ps ev us"
  shows "map_of (agg_cells db) (w, key, p) = Some row \<Longrightarrow>
      p \<in> ps \<and> col_events row = int (ev p) \<and> col_users row = int (card (us p))"
    "map_of (agg_cells db) (w, key, p) = None \<Longrightarrow> p \<in> ps \<Longrightarrow> ev p = 0 \<and> us p = {}"
  using spec [OF conjunct2 [OF assms [unfolded rows_by_partition_def]], of p] by simp_all

lemma cell_rows_partitions:
  assumes "al_inv (agg_cells db)"
  shows "distinct (map row_partition (filter (\<lambda>r. row_window r = w \<and> row_key r = key) (agg_cells db)))"
    "r \<in> set (filter (\<lambda>r. row_window r = w \<and> row_key r = key) (agg_cells db)) \<longleftrightarrow>
       row_window r = w \<and> row_key r = key \<and> map_of (agg_cells db) (w, key, row_partition r) = Some (snd r)"
proof -
  let ?rs = "filter (\<lambda>r. row_window r = w \<and> row_key r = key) (agg_cells db)"
  have pk: "fst r = (w, key, row_partition r)" if "r \<in> set ?rs" for r
    using that by (cases r rule: row_window.cases) auto
  have d: "distinct (map fst ?rs)" using assms by (simp add: al_inv_def distinct_map_filter)
  have "inj_on row_partition (set ?rs)"
  proof (rule inj_onI)
    fix x y assume "x \<in> set ?rs" "y \<in> set ?rs" "row_partition x = row_partition y"
    then have "fst x = fst y" by (simp only: pk)
    moreover have "inj_on fst (set ?rs)" using d by (simp only: distinct_map)
    ultimately show "x = y" using \<open>x \<in> set ?rs\<close> \<open>y \<in> set ?rs\<close> by (auto dest: inj_onD)
  qed
  with d show "distinct (map row_partition ?rs)" by (simp add: distinct_map)
  show "r \<in> set ?rs \<longleftrightarrow>
      row_window r = w \<and> row_key r = key \<and> map_of (agg_cells db) (w, key, row_partition r) = Some (snd r)"
    using assms by (cases r rule: row_window.cases) (auto simp: al_inv_def)
qed

lemma sum_rows:
  fixes c :: "AggRow \<Rightarrow> int"
  assumes "rows_by_partition db w key ps ev us" and "finite ps"
    and "\<And>p row. map_of (agg_cells db) (w, key, p) = Some row \<Longrightarrow> c row = int (f p)"
    and "\<And>p. p \<in> ps \<Longrightarrow> map_of (agg_cells db) (w, key, p) = None \<Longrightarrow> f p = 0"
  shows "sum_list (map c (cell_where db w key)) = int (sum f ps)"
proof -
  let ?rs = "filter (\<lambda>r. row_window r = w \<and> row_key r = key) (agg_cells db)"
  have inv: "al_inv (agg_cells db)" using assms(1) by (simp add: rows_by_partition_def)
  note rows = cell_rows_partitions [OF inv, where w = w and key = key]
  let ?qs = "row_partition ` set ?rs"
  have q: "p \<in> ?qs \<longleftrightarrow> map_of (agg_cells db) (w, key, p) \<noteq> None" for p
  proof
    assume "map_of (agg_cells db) (w, key, p) \<noteq> None"
    then obtain row where "map_of (agg_cells db) (w, key, p) = Some row" by blast
    then have "((w, key, p), row) \<in> set ?rs" using rows(2) [of "((w, key, p), row)"] by simp
    then show "p \<in> ?qs" by force
  qed (use rows(2) in auto)
  have sub: "?qs \<subseteq> ps"
  proof
    fix p assume "p \<in> ?qs"
    then obtain row where "map_of (agg_cells db) (w, key, p) = Some row" unfolding q by blast
    with rows_by_partitionD(1) [OF assms(1)] show "p \<in> ps" by blast
  qed
  have "c (snd r) = int (f (row_partition r))" if "r \<in> set ?rs" for r
    using rows(2) [of r] that assms(3) by blast
  then have "sum_list (map c (cell_where db w key)) = sum_list (map (int \<circ> f \<circ> row_partition) ?rs)"
    unfolding cell_where_def map_map by (intro arg_cong [where f = sum_list] map_cong) simp_all
  also have "\<dots> = (\<Sum>p \<in> ?qs. int (f p))"
    using sum_list_distinct_conv_sum_set [OF rows(1), of "int \<circ> f"] by (simp add: comp_def)
  also have "\<dots> = (\<Sum>p \<in> ps. int (f p))"
    using sub assms(2,4) q by (intro sum.mono_neutral_left) auto
  finally show ?thesis by simp
qed

text \<open>Summing over partitions is an exact distinct count. When every user's events land in one
  partition (the producer keys by user), the cell the query API reads carries exactly the number of
  events and the number of distinct users over all partitions, with no error and no wrap-around as
  long as the true totals fit 63 bits.\<close>

lemma fetch_cell_exact_distinct:
  assumes "rows_by_partition db w key ps ev us" and "finite ps" and "\<forall>p. finite (us p)"
    and "\<forall>p q. p \<noteq> q \<longrightarrow> us p \<inter> us q = {}"
    and "sum ev ps < 2 ^ 63" and "card (\<Union>p \<in> ps. us p) < 2 ^ 63"
  shows "\<exists>rc. fetch_cell True db w key = Inr (Some rc) \<and>
    unat (rc_events rc) = sum ev ps \<and> unat (rc_users rc) = card (\<Union>p \<in> ps. us p)"
proof -
  have ev: "sum_list (map col_events (cell_where db w key)) = int (sum ev ps)"
    by (rule sum_rows [OF assms(1,2)]) (use rows_by_partitionD [OF assms(1)] in blast)+
  have "sum_list (map col_users (cell_where db w key)) = int (sum (\<lambda>p. card (us p)) ps)"
    by (rule sum_rows [OF assms(1,2)]) (use rows_by_partitionD [OF assms(1)] in auto)
  also have "sum (\<lambda>p. card (us p)) ps = card (\<Union>p \<in> ps. us p)"
    using assms(2-4) by (intro card_UN_disjoint [symmetric]) auto
  finally have us: "sum_list (map col_users (cell_where db w key)) = int (card (\<Union>p \<in> ps. us p))" .
  have un: "unat (i64_as_u64 (int n)) = n" if "n < 2 ^ 63" for n
  proof -
    have "unat (of_nat n :: u64) = n mod 2 ^ 64" by (simp add: unsigned_of_nat take_bit_eq_mod)
    with that show ?thesis by (simp add: i64_as_u64_int)
  qed
  have "in_i64 (int n)" if "n < 2 ^ 63" for n using that by (simp add: in_i64_def)
  from this [OF assms(5)] this [OF assms(6)]
  have "fetch_cell True db w key = Inr (Some (raw_cell (ck_family key, ck_wiki key, ck_namespace key)
      (int (sum ev ps)) (int (card (\<Union>p \<in> ps. us p)))))"
    by (simp only: fetch_cell_def summed_cell_def sum_bigint_def ev us if_True sum.case map_sum.simps)
  then show ?thesis using un [OF assms(5)] un [OF assms(6)] by (simp add: raw_cell_def)
qed

section \<open>Merging sketches\<close>

definition sketch_rows :: "AggRow list \<Rightarrow> string list list \<Rightarrow> bool" where
  "sketch_rows rs uss \<longleftrightarrow>
     list_all2 (\<lambda>r us. col_users_hll r = Some (to_bytes (fold hll_ins us hll_empty))) rs uss"

lemma from_to_bytes: "hll_ok h \<Longrightarrow> from_bytes (to_bytes h) = Some h"
  by (auto simp: hll_ok_def from_bytes_def to_bytes_def DEFAULT_PRECISION_def)

lemma merge_rows:
  "sketch_rows rs uss \<Longrightarrow>
   \<exists>e'. fold_res add_hll_row rs (e, Some (fold hll_ins us hll_empty)) =
     Inr (e', Some (fold hll_ins (us @ concat uss) hll_empty))"
  unfolding sketch_rows_def
proof (induction rs uss arbitrary: e us rule: list_all2_induct)
  case (Cons r rs vs uss)
  have "hll_merge (fold hll_ins us hll_empty) (fold hll_ins vs hll_empty) = Inr (fold hll_ins (us @ vs) hll_empty)"
    using hll.merge_fold_ins [of "fold hll_ins us hll_empty" vs] by (simp add: hll_merge_eq)
  then have "add_hll_row r (e, Some (fold hll_ins us hll_empty)) =
      Inr (wrap_i64 (e + col_events r), Some (fold hll_ins (us @ vs) hll_empty))"
    using Cons(1) by (simp add: add_hll_row_def merge_hll_bytes_def from_to_bytes)
  with Cons.IH [of "wrap_i64 (e + col_events r)" "us @ vs"] show ?case by simp
qed simp

text \<open>C27: the estimator path reads the union. Merging the stored per-partition sketches of a cell never
  panics and yields the estimate of the one sketch of all users of all partitions together, so a
  user present in several partitions is not counted twice.\<close>

theorem fetch_cell_hll_estimates_union:
  assumes "cell_where db w key = r # rs" and "sketch_rows (r # rs) uss"
  shows "\<exists>rc. fetch_cell_hll True db w key = Inr (Some rc) \<and>
    rc_users rc = estimated_users (Some (fold hll_ins (concat uss) hll_empty))"
proof -
  from assms(2) obtain us uss' where u: "uss = us # uss'" "col_users_hll r = Some (to_bytes (fold hll_ins us hll_empty))"
    "sketch_rows rs uss'" by (auto simp: sketch_rows_def list_all2_Cons1)
  have "add_hll_row r (0, None) = Inr (wrap_i64 (col_events r), Some (fold hll_ins us hll_empty))"
    using u(2) by (simp add: add_hll_row_def merge_hll_bytes_def from_to_bytes)
  with merge_rows [OF u(3), of "wrap_i64 (col_events r)" us] show ?thesis
    by (auto simp: fetch_cell_hll_def assms(1) u(1) estimated_cell_def)
qed

theorem fetch_cell_hll_estimates_union_witness:
  "\<exists>db rc. cell_where db 0 global_key \<noteq> [] \<and> fetch_cell_hll True db 0 global_key = Inr (Some rc) \<and>
     rc_users rc = estimated_users (Some (fold hll_ins [''a'', ''b'', ''b''] hll_empty))"
proof -
  let ?r = "\<lambda>us. \<lparr>col_events = 1, col_users = 1, col_users_hll = Some (to_bytes (fold hll_ins us hll_empty))\<rparr>"
  let ?db = "\<lparr>agg_cells = [((0, global_key, 0), ?r [''a'', ''b'']), ((0, global_key, 1), ?r [''b''])], partition_progress = []\<rparr>"
  have c: "cell_where ?db 0 global_key = [?r [''a'', ''b''], ?r [''b'']]" by (simp add: cell_where_def)
  have "sketch_rows [?r [''a'', ''b''], ?r [''b'']] [[''a'', ''b''], [''b'']]" by (simp add: sketch_rows_def)
  from fetch_cell_hll_estimates_union [OF c this] c show ?thesis
    by (intro exI [of _ ?db]) simp
qed

end
