(* ===== verification/QueryApi.thy ===== *)
theory QueryApi
  imports QueryDb
begin

text \<open>
  \<^verbatim>\<open>crates/query-api/src/handlers.rs\<close>, \<^verbatim>\<open>dp.rs\<close> and the \<open>AppState\<close> of \<^verbatim>\<open>main.rs\<close>. Floating-point
  numbers are reals; the uniform draws of the random generator are an argument (the sequence of its
  future values), and so is chrono's \<open>to_rfc3339\<close>. The moka cache is the map of the entries it
  currently holds: \<open>get\<close> reads it, \<open>insert\<close> adds to it, and it may drop entries at any time
  (\<open>evict\<close>). \<open>up i\<close> says whether the \<open>i\<close>-th database query of the request succeeds.
\<close>

section \<open>Differential privacy\<close>

definition USER_COUNT_SENSITIVITY :: real where
  "USER_COUNT_SENSITIVITY = 1"

definition f64_signum :: "real \<Rightarrow> real" where
  "f64_signum x = (if 0 \<le> x then 1 else - 1)"

text \<open>At the left end of the half-open range the logarithm is minus infinity, here \<open>None\<close>.\<close>

definition sample_laplace :: "real \<Rightarrow> real \<Rightarrow> real option" where
  "sample_laplace b u =
     (if 1 - 2 * \<bar>u\<bar> = 0 then None else Some (- b * f64_signum u * ln (1 - 2 * \<bar>u\<bar>)))"

text \<open>The infinite cases written out: with \<open>epsilon\<close> zero the scale is infinite and the sum is plus or
  minus infinity or, for \<open>u = 0\<close>, not a number, which \<open>max(0.0)\<close> turns into zero; the cast saturates.\<close>

definition noisy_count :: "u64 \<Rightarrow> real \<Rightarrow> real \<Rightarrow> real \<Rightarrow> u64" where
  "noisy_count true_value sensitivity epsilon u =
     (let b = sensitivity / epsilon
      in if epsilon = 0 then (if 0 < u then - 1 else 0)
         else case sample_laplace b u of
           None \<Rightarrow> (if b < 0 then - 1 else 0)
         | Some x \<Rightarrow> f64_as_u64 (f64_round (max (real (unat true_value) + x) 0)))"

section \<open>Requests and responses\<close>

datatype Estimator = Exact | Hll

record StatsQuery =
  q_window :: datetime
  q_level :: i16
  q_family :: "string option"
  q_wiki :: "string option"
  q_estimator :: Estimator

record StatsResponse =
  resp_window_start :: datetime
  resp_level :: i16
  resp_cells :: "ResultCell list"

datatype 'a http = HttpOk 'a | HttpErr nat string | HttpPanic panic

record AppState =
  as_db :: Database
  as_cache :: "string \<rightharpoonup> StatsResponse"
  as_k :: u64
  as_dp_enabled :: bool
  as_dp_epsilon :: real

definition bad_request :: "string \<Rightarrow> 'a http" where
  "bad_request msg = HttpErr 400 msg"

definition internal_error :: "query_error \<Rightarrow> 'a http" where
  "internal_error e = (case e of Panicked p \<Rightarrow> HttpPanic p | _ \<Rightarrow> HttpErr 500 ''internal error'')"

definition set_users :: "u64 \<Rightarrow> ResultCell \<Rightarrow> ResultCell" where
  "set_users u c = (case c of Visible f w n e _ \<Rightarrow> Visible f w n e u | Other e _ \<Rightarrow> Other e u)"

fun noise_cells :: "real \<Rightarrow> (nat \<Rightarrow> real) \<Rightarrow> ResultCell list \<Rightarrow> ResultCell list" where
  "noise_cells epsilon rng [] = []"
| "noise_cells epsilon rng (c # cs) =
     set_users (noisy_count (res_users c) USER_COUNT_SENSITIVITY epsilon (rng 0)) c #
     noise_cells epsilon (\<lambda>i. rng (Suc i)) cs"

definition apply_dp_noise :: "ResultCell list \<Rightarrow> bool \<Rightarrow> real \<Rightarrow> (nat \<Rightarrow> real) \<Rightarrow> ResultCell list" where
  "apply_dp_noise cs enabled epsilon rng = (if \<not> enabled then cs else noise_cells epsilon rng cs)"

definition parent_key :: "StatsQuery \<Rightarrow> query_error + CellKey" where
  "parent_key q =
     (if q_level q = LEVEL_FAMILY then Inr global_key
      else if q_level q = LEVEL_WIKI then
        (case q_family q of
           None \<Rightarrow> Inl (Panicked UnwrapNone)
         | Some f \<Rightarrow> Inr \<lparr>ck_level = LEVEL_FAMILY, ck_family = f, ck_wiki = ROLLUP_STR,
                           ck_namespace = ROLLUP_NAMESPACE\<rparr>)
      else if q_level q = LEVEL_NAMESPACE then
        (case (q_family q, q_wiki q) of
           (Some f, Some w) \<Rightarrow> Inr \<lparr>ck_level = LEVEL_WIKI, ck_family = f, ck_wiki = w,
                                    ck_namespace = ROLLUP_NAMESPACE\<rparr>
         | _ \<Rightarrow> Inl (Panicked UnwrapNone))
      else Inl (Bail ''unsupported level''))"

definition global_result :: "u64 \<Rightarrow> RawCell \<Rightarrow> ResultCell" where
  "global_result k c =
     (if suppress_single c k
      then Visible (rc_family c) (rc_wiki c) (rc_namespace c) (rc_events c) (rc_users c)
      else Other (rc_events c) (rc_users c))"

definition compute_stats :: "(nat \<Rightarrow> bool) \<Rightarrow> (nat \<Rightarrow> real) \<Rightarrow> AppState \<Rightarrow> StatsQuery \<Rightarrow> query_error + StatsResponse" where
  "compute_stats up rng st q =
     (if q_level q = LEVEL_GLOBAL then
        (case (case q_estimator q of
                 Exact \<Rightarrow> fetch_cell (up 1) (as_db st) (q_window q) global_key
               | Hll \<Rightarrow> fetch_cell_hll (up 1) (as_db st) (q_window q) global_key) of
           Inl e \<Rightarrow> Inl e
         | Inr global \<Rightarrow>
             Inr \<lparr>resp_window_start = q_window q, resp_level = q_level q,
                  resp_cells = apply_dp_noise
                    (case global of None \<Rightarrow> [] | Some c \<Rightarrow> [global_result (as_k st) c])
                    (as_dp_enabled st) (as_dp_epsilon st) rng\<rparr>)
      else
        (case parent_key q of
           Inl e \<Rightarrow> Inl e
         | Inr par \<Rightarrow>
             (case (case q_estimator q of
                      Exact \<Rightarrow> fetch_cell (up 1) (as_db st) (q_window q) par
                    | Hll \<Rightarrow> fetch_cell_hll (up 1) (as_db st) (q_window q) par) of
                Inl e \<Rightarrow> Inl e
              | Inr parent_cell \<Rightarrow>
                  (case (case q_estimator q of
                           Exact \<Rightarrow> fetch_children (up 2) (as_db st) (q_window q) par
                         | Hll \<Rightarrow> fetch_children_hll (up 2) (as_db st) (q_window q) par) of
                     Inl e \<Rightarrow> Inl e
                   | Inr children \<Rightarrow>
                       (let parent_users = (case parent_cell of None \<Rightarrow> 0 | Some c \<Rightarrow> rc_users c)
                        in Inr \<lparr>resp_window_start = q_window q, resp_level = q_level q,
                                resp_cells = apply_dp_noise (suppress parent_users children (as_k st))
                                  (as_dp_enabled st) (as_dp_epsilon st) rng\<rparr>)))))"

section \<open>The handlers\<close>

definition show_int :: "int \<Rightarrow> string" where
  "show_int i = (if i < 0 then CHR ''-'' # show_nat (nat (- i)) else show_nat (nat i))"

definition show_estimator :: "Estimator \<Rightarrow> string" where
  "show_estimator e = (case e of Exact \<Rightarrow> ''Exact'' | Hll \<Rightarrow> ''Hll'')"

definition or_default :: "string option \<Rightarrow> string" where
  "or_default s = (case s of None \<Rightarrow> '''' | Some s \<Rightarrow> s)"

definition cache_key :: "(datetime \<Rightarrow> string) \<Rightarrow> StatsQuery \<Rightarrow> string" where
  "cache_key to_rfc3339 q =
     to_rfc3339 (q_window q) @ '':'' @ show_int (q_level q) @ '':'' @ or_default (q_family q) @ '':'' @
     or_default (q_wiki q) @ '':'' @ show_estimator (q_estimator q)"

definition is_complete :: "datetime option \<Rightarrow> StatsQuery \<Rightarrow> bool" where
  "is_complete min_watermark q = (case min_watermark of None \<Rightarrow> False | Some wm \<Rightarrow> window_end (q_window q) \<le> wm)"

definition get_stats ::
  "(datetime \<Rightarrow> string) \<Rightarrow> (nat \<Rightarrow> bool) \<Rightarrow> (nat \<Rightarrow> real) \<Rightarrow> AppState \<Rightarrow> StatsQuery \<Rightarrow> AppState \<times> StatsResponse http" where
  "get_stats to_rfc3339 up rng st q =
     (if \<not> (LEVEL_GLOBAL \<le> q_level q \<and> q_level q \<le> LEVEL_NAMESPACE) then
        (st, bad_request ''level must be between 0 and 3'')
      else if q_level q \<ge> LEVEL_WIKI \<and> q_family q = None then
        (st, bad_request ''family is required for level >= 2'')
      else if q_level q \<ge> LEVEL_NAMESPACE \<and> q_wiki q = None then
        (st, bad_request ''wiki is required for level >= 3'')
      else
        (case min_flushed_watermark (up 0) (as_db st) of
           Inl e \<Rightarrow> (st, internal_error e)
         | Inr min_watermark \<Rightarrow>
             (if \<not> is_complete min_watermark q then
                (st, HttpErr 409 ''window is not yet fully flushed by every partition'')
              else
                (let key = cache_key to_rfc3339 q
                 in case as_cache st key of
                      Some hit \<Rightarrow> (st, HttpOk hit)
                    | None \<Rightarrow>
                        (case compute_stats up rng st q of
                           Inl e \<Rightarrow> (st, internal_error e)
                         | Inr response \<Rightarrow>
                             (st\<lparr>as_cache := (as_cache st)(key \<mapsto> response)\<rparr>, HttpOk response))))))"

definition evict :: "string set \<Rightarrow> AppState \<Rightarrow> AppState" where
  "evict ks st = st\<lparr>as_cache := as_cache st |` (- ks)\<rparr>"

definition get_latest_window :: "trunc_fn \<Rightarrow> (nat \<Rightarrow> bool) \<Rightarrow> AppState \<Rightarrow> datetime option http" where
  "get_latest_window trunc up st =
     (case min_flushed_watermark (up 0) (as_db st) of
        Inl e \<Rightarrow> internal_error e
      | Inr None \<Rightarrow> HttpOk None
      | Inr (Some wm) \<Rightarrow>
          (case window_start trunc wm of
             Inl p \<Rightarrow> HttpPanic p
           | Inr w \<Rightarrow> HttpOk (Some (w - WINDOW_SIZE))))"

definition healthz :: nat where
  "healthz = 200"

section \<open>Noise\<close>

text \<open>The distribution function of Laplace(0, b).\<close>

definition laplace_cdf :: "real \<Rightarrow> real \<Rightarrow> real" where
  "laplace_cdf b x = (if x < 0 then exp (x / b) / 2 else 1 - exp (- x / b) / 2)"

text \<open>On the open range the sampler inverts the distribution function of Laplace(0, b).\<close>

lemma sample_laplace_inverts_cdf:
  assumes "0 < b" and "- 1 / 2 < u" and "u < 1 / 2"
  shows "\<exists>x. sample_laplace b u = Some x \<and> laplace_cdf b x = u + 1 / 2 \<and> (0 \<le> u \<longleftrightarrow> 0 \<le> x)"
proof (cases "0 \<le> u")
  case True
  have x: "sample_laplace b u = Some (- b * ln (1 - 2 * u))"
    using True assms(3) by (simp add: sample_laplace_def f64_signum_def)
  have "ln (1 - 2 * u) \<le> 0" using True assms(3) by simp
  then have nn: "0 \<le> - b * ln (1 - 2 * u)" using assms(1) by (simp add: mult_nonneg_nonpos)
  have "laplace_cdf b (- b * ln (1 - 2 * u)) = 1 - exp (ln (1 - 2 * u)) / 2"
    using nn assms(1) by (simp add: laplace_cdf_def)
  also have "\<dots> = u + 1 / 2" using assms(3) by (simp add: field_simps)
  finally show ?thesis using True x nn by simp
next
  case False
  have x: "sample_laplace b u = Some (b * ln (1 + 2 * u))"
    using False assms(2) by (simp add: sample_laplace_def f64_signum_def)
  have "ln (1 + 2 * u) < 0" using False assms(2) by simp
  then have neg: "b * ln (1 + 2 * u) < 0" using assms(1) by (simp add: mult_pos_neg)
  have "laplace_cdf b (b * ln (1 + 2 * u)) = exp (ln (1 + 2 * u)) / 2"
    using neg assms(1) by (simp add: laplace_cdf_def)
  also have "\<dots> = u + 1 / 2" using assms(2) by (simp add: field_simps)
  finally show ?thesis using False x neg by simp
qed

lemma laplace_cdf_shift:
  assumes "0 < b" and "0 \<le> d"
  shows "laplace_cdf b x \<le> exp (d / b) * laplace_cdf b (x - d)"
proof -
  define a where "a = exp (- x / b)"
  define D where "D = exp (d / b)"
  have a: "0 < a" and D: "1 \<le> D" using assms by (simp_all add: a_def D_def)
  have shift: "exp (- (x - d) / b) = a * D" by (simp add: a_def D_def diff_divide_distrib flip: exp_add)
  consider (neg) "x < 0" | (mixed) "0 \<le> x" "x < d" | (pos) "d \<le> x" by linarith
  then show ?thesis
  proof cases
    case neg
    then have "x - d < 0" using assms(2) by simp
    with neg show ?thesis by (simp add: laplace_cdf_def diff_divide_distrib exp_diff)
  next
    case mixed
    have "exp (d / b) * laplace_cdf b (x - d) = 1 / (2 * a)"
      using mixed by (simp add: laplace_cdf_def a_def diff_divide_distrib exp_diff exp_minus field_simps)
    moreover have "1 - a / 2 \<le> 1 / (2 * a)"
    proof -
      have "0 \<le> (1 - a) * (1 - a)" by simp
      then have "(1 - a / 2) * (2 * a) \<le> 1" by (simp add: algebra_simps)
      then show ?thesis using a by (simp add: pos_le_divide_eq)
    qed
    ultimately show ?thesis using mixed by (simp add: laplace_cdf_def a_def)
  next
    case pos
    then have "a * D \<le> 1" using assms(1) by (simp add: divide_nonpos_pos flip: shift)
    moreover have "a \<le> 1" using pos assms by (simp add: a_def)
    ultimately have "0 \<le> (D - 1) * (2 - a * D - a)" using D by (intro mult_nonneg_nonneg) auto
    then have "1 - a / 2 \<le> D * (1 - a * D / 2)" by (simp add: algebra_simps)
    then show ?thesis using pos assms(2) shift by (simp add: laplace_cdf_def a_def D_def)
  qed
qed

lemma laplace_cdf_strict_mono:
  assumes "0 < b" and "x < y"
  shows "laplace_cdf b x < laplace_cdf b y"
proof -
  have lt: "exp (x / b) < exp (y / b)" "exp (- y / b) < exp (- x / b)"
    using assms by (simp_all add: divide_strict_right_mono)
  consider (neg) "y < 0" | (mixed) "x < 0" "0 \<le> y" | (pos) "0 \<le> x" using assms(2) by linarith
  then show ?thesis
  proof cases
    case mixed
    have "exp (x / b) < 1" "exp (- y / b) \<le> 1" using mixed assms(1) by (simp_all add: divide_neg_pos)
    then have "exp (x / b) / 2 < 1 - exp (- y / b) / 2" by linarith
    with mixed show ?thesis by (simp add: laplace_cdf_def)
  qed (use lt assms(2) in \<open>simp_all add: laplace_cdf_def\<close>)
qed

lemma laplace_cdf_less_iff: "0 < b \<Longrightarrow> laplace_cdf b x < laplace_cdf b y \<longleftrightarrow> x < y"
  using laplace_cdf_strict_mono [of b x y] laplace_cdf_strict_mono [of b y x] by (cases x y rule: linorder_cases) auto

lemma laplace_cdf_neighbours:
  assumes "0 < b" and "\<bar>x - y\<bar> \<le> 1"
  shows "laplace_cdf b x \<le> exp (1 / b) * laplace_cdf b y"
proof -
  have "laplace_cdf b x \<le> laplace_cdf b (y + 1)"
    using laplace_cdf_less_iff [OF assms(1), of "y + 1" x] assms(2) by linarith
  also have "\<dots> \<le> exp (1 / b) * laplace_cdf b y"
    using laplace_cdf_shift [OF assms(1), of 1 "y + 1"] by simp
  finally show ?thesis .
qed

lemma rounded_le_iff:
  assumes "t < 2 ^ 64 - 1"
  shows "unat (f64_as_u64 (f64_round (max z 0))) \<le> t \<longleftrightarrow> z < real t + 1 / 2"
proof -
  have "f64_round (max z 0) = \<lfloor>max z 0 + 1 / 2\<rfloor>" by (simp add: f64_round_def)
  moreover have "\<lfloor>max z 0 + 1 / 2\<rfloor> \<le> int t \<longleftrightarrow> max z 0 + 1 / 2 < real t + 1"
    by (simp add: floor_le_iff)
  moreover have "\<dots> \<longleftrightarrow> z < real t + 1 / 2" by (auto simp: max_def)
  moreover have "nat (max 0 (min i (2 ^ 64 - 1))) \<le> t \<longleftrightarrow> i \<le> int t" for i
    using assms by (auto simp: max_def min_def)
  ultimately show ?thesis by (simp only: unat_f64_as_u64)
qed

text \<open>C20: the Laplace mechanism. For every draw \<open>u\<close> of the open range, the released count is at most
  \<open>t\<close> exactly when \<open>u + 1/2\<close> lies below the Laplace(0, 1/epsilon) distribution function at
  \<open>t + 1/2 - n\<close>: so that value is the probability of the event. For two counts that differ by at
  most one user these probabilities differ by at most the factor \<open>exp epsilon\<close>.\<close>

theorem noisy_count_laplace_mechanism:
  fixes n n' :: u64
  assumes "0 < epsilon" and "t < 2 ^ 64 - 1" and "- 1 / 2 < u" and "u < 1 / 2"
    and "\<bar>real (unat n) - real (unat n')\<bar> \<le> USER_COUNT_SENSITIVITY"
  shows "(unat (noisy_count n USER_COUNT_SENSITIVITY epsilon u) \<le> t \<longleftrightarrow>
      u + 1 / 2 < laplace_cdf (USER_COUNT_SENSITIVITY / epsilon) (real t + 1 / 2 - real (unat n))) \<and>
    laplace_cdf (USER_COUNT_SENSITIVITY / epsilon) (real t + 1 / 2 - real (unat n)) \<le>
      exp epsilon * laplace_cdf (USER_COUNT_SENSITIVITY / epsilon) (real t + 1 / 2 - real (unat n'))"
proof -
  let ?b = "USER_COUNT_SENSITIVITY / epsilon"
  have b: "0 < ?b" using assms(1) by (simp add: USER_COUNT_SENSITIVITY_def)
  from sample_laplace_inverts_cdf [OF b assms(3,4)] obtain x
    where x: "sample_laplace ?b u = Some x" "laplace_cdf ?b x = u + 1 / 2" by blast
  have "unat (noisy_count n USER_COUNT_SENSITIVITY epsilon u) \<le> t \<longleftrightarrow> x < real t + 1 / 2 - real (unat n)"
    unfolding noisy_count_def Let_def if_not_P [OF assms(1) [THEN less_imp_neq, symmetric]] x(1) option.case
      rounded_le_iff [OF assms(2)] by auto
  then have first: "unat (noisy_count n USER_COUNT_SENSITIVITY epsilon u) \<le> t \<longleftrightarrow>
      u + 1 / 2 < laplace_cdf ?b (real t + 1 / 2 - real (unat n))"
    unfolding x(2) [symmetric] laplace_cdf_less_iff [OF b] .
  have "laplace_cdf ?b (real t + 1 / 2 - real (unat n)) \<le>
      exp (1 / ?b) * laplace_cdf ?b (real t + 1 / 2 - real (unat n'))"
    using assms(5) by (intro laplace_cdf_neighbours [OF b]) (simp add: USER_COUNT_SENSITIVITY_def)
  moreover have "1 / ?b = epsilon" by (simp add: USER_COUNT_SENSITIVITY_def)
  ultimately have "laplace_cdf ?b (real t + 1 / 2 - real (unat n)) \<le>
      exp epsilon * laplace_cdf ?b (real t + 1 / 2 - real (unat n'))" by simp
  with first show ?thesis by blast
qed

theorem noisy_count_laplace_mechanism_witness:
  "unat (noisy_count 12 USER_COUNT_SENSITIVITY 1 0) = 12 \<and>
   laplace_cdf (USER_COUNT_SENSITIVITY / 1) (real 20 + 1 / 2 - real (unat (12 :: u64))) \<le>
     exp 1 * laplace_cdf (USER_COUNT_SENSITIVITY / 1) (real 20 + 1 / 2 - real (unat (11 :: u64)))"
proof -
  have "f64_round 12 = 12" by (simp add: f64_round_def floor_eq_iff)
  then have "noisy_count 12 USER_COUNT_SENSITIVITY 1 0 = 12"
    by (simp add: noisy_count_def sample_laplace_def f64_as_u64_def)
  then show ?thesis using noisy_count_laplace_mechanism [of 1 20 0 12 11] by (simp add: USER_COUNT_SENSITIVITY_def)
qed

section \<open>The handlers\<close>

lemma res_users_simps [simp]: "res_users (as_visible c) = rc_users c"
  by (simp add: as_visible_def)

lemma min_flushed_watermark_le:
  assumes "min_flushed_watermark db_up db = Inr (Some wm)" and "(p, pp) \<in> set (partition_progress db)"
  shows "wm \<le> pp_flushed_watermark pp"
proof -
  from assms(1) obtain x xs where xs: "map (pp_flushed_watermark \<circ> snd) (partition_progress db) = x # xs"
    and wm: "wm = fold min xs x"
    by (auto simp: min_flushed_watermark_def split: if_splits list.splits)
  have "pp_flushed_watermark pp \<in> set (map (pp_flushed_watermark \<circ> snd) (partition_progress db))"
    using assms(2) by (force simp: image_iff)
  then show ?thesis using fold_min_le fold_min_le_init unfolding xs wm by auto
qed

text \<open>C19: only complete windows are served. A request is answered with statistics only when its level
  is valid and names the required axes, and every partition that has recorded progress has flushed
  past the end of the window; whether the answer comes from the cache or not.\<close>

theorem get_stats_serves_complete_windows:
  assumes "get_stats to_rfc3339 up rng st q = (st', HttpOk r)"
  shows "0 \<le> q_level q \<and> q_level q \<le> 3 \<and> (q_level q = 2 \<longrightarrow> q_family q \<noteq> None) \<and>
    (q_level q = 3 \<longrightarrow> q_family q \<noteq> None \<and> q_wiki q \<noteq> None) \<and>
    partition_progress (as_db st) \<noteq> [] \<and>
    list_all (\<lambda>(p, pp). window_end (q_window q) \<le> pp_flushed_watermark pp) (partition_progress (as_db st))"
proof -
  have lv: "LEVEL_GLOBAL \<le> q_level q \<and> q_level q \<le> LEVEL_NAMESPACE"
    "\<not> (q_level q \<ge> LEVEL_WIKI \<and> q_family q = None)" "\<not> (q_level q \<ge> LEVEL_NAMESPACE \<and> q_wiki q = None)"
    using assms by (auto simp: get_stats_def bad_request_def split: if_splits)
  obtain wm where wm: "min_flushed_watermark (up 0) (as_db st) = Inr (Some wm)" "window_end (q_window q) \<le> wm"
    using assms lv by (auto simp: get_stats_def internal_error_def is_complete_def
        split: if_splits sum.splits option.splits query_error.splits)
  then have "partition_progress (as_db st) \<noteq> []" by (auto simp: min_flushed_watermark_def split: if_splits)
  moreover have "list_all (\<lambda>(p, pp). window_end (q_window q) \<le> pp_flushed_watermark pp) (partition_progress (as_db st))"
    using min_flushed_watermark_le [OF wm(1)] wm(2) by (fastforce simp: list_all_iff)
  ultimately show ?thesis using lv by (auto simp: key_defs)
qed

text \<open>A concrete deployment over the demo tables.\<close>

definition demo_app :: AppState where
  "demo_app = \<lparr>as_db = demo_db, as_cache = Map.empty, as_k = 2, as_dp_enabled = False, as_dp_epsilon = 1\<rparr>"

definition demo_query :: "i16 \<Rightarrow> StatsQuery" where
  "demo_query l = \<lparr>q_window = 0, q_level = l, q_family = Some ''wikipedia'', q_wiki = Some ''enwiki'', q_estimator = Exact\<rparr>"

lemma demo_app_answer:
  assumes "min_flushed_watermark True db = Inr (Some wm)" and "is_complete (Some wm) (demo_query 1)"
    and "fetch_cell True db 0 global_key = Inr (Some par)" and "fetch_children True db 0 global_key = Inr cs"
  shows "\<exists>st'. get_stats (\<lambda>_. ''t'') (\<lambda>_. True) (\<lambda>_. 0) (demo_app\<lparr>as_db := db\<rparr>) (demo_query 1) =
    (st', HttpOk \<lparr>resp_window_start = 0, resp_level = 1, resp_cells = suppress (rc_users par) cs 2\<rparr>)"
proof -
  have "compute_stats (\<lambda>_. True) (\<lambda>_. 0) (demo_app\<lparr>as_db := db\<rparr>) (demo_query 1) =
      Inr \<lparr>resp_window_start = 0, resp_level = 1, resp_cells = suppress (rc_users par) cs 2\<rparr>"
    using assms(3,4) by (simp add: compute_stats_def demo_app_def demo_query_def parent_key_def apply_dp_noise_def
        LEVEL_GLOBAL_def LEVEL_FAMILY_def)
  with assms(1,2) show ?thesis
    by (simp add: get_stats_def Let_def demo_app_def) (simp add: demo_query_def key_defs)
qed

lemma demo_query_result:
  "\<exists>st'. get_stats (\<lambda>_. ''t'') (\<lambda>_. True) (\<lambda>_. 0) demo_app (demo_query 1) =
     (st', HttpOk \<lparr>resp_window_start = 0, resp_level = 1, resp_cells = [Visible ''wikipedia'' ''*'' (- 1) 5 4]\<rparr>)"
proof -
  have s: "suppress (rc_users (raw_cell (''*'', ''*'', - 1) 5 4)) [raw_cell (''wikipedia'', ''*'', - 1) 5 4] 2 =
      [Visible ''wikipedia'' ''*'' (- 1) 5 4]" by code_simp
  have a: "demo_app\<lparr>as_db := demo_db\<rparr> = demo_app" by (simp add: demo_app_def)
  have "min_flushed_watermark True demo_db = Inr (Some (seconds 90))" "is_complete (Some (seconds 90)) (demo_query 1)"
    "fetch_cell True demo_db 0 global_key = Inr (Some (raw_cell (''*'', ''*'', - 1) 5 4))"
    "fetch_children True demo_db 0 global_key = Inr [raw_cell (''wikipedia'', ''*'', - 1) 5 4]"
    by code_simp+
  from demo_app_answer [OF this] show ?thesis by (simp only: s a)
qed

theorem get_stats_serves_complete_windows_witness:
  "\<exists>st'. get_stats (\<lambda>_. ''t'') (\<lambda>_. True) (\<lambda>_. 0) demo_app (demo_query 1) =
     (st', HttpOk \<lparr>resp_window_start = 0, resp_level = 1, resp_cells = [Visible ''wikipedia'' ''*'' (- 1) 5 4]\<rparr>) \<and>
     list_all (\<lambda>(p, pp). window_end (q_window (demo_query 1)) \<le> pp_flushed_watermark pp) (partition_progress (as_db demo_app))"
  using demo_query_result get_stats_serves_complete_windows by metis

text \<open>Every cached answer below the root level is suppressed.\<close>

definition cache_ok :: "AppState \<Rightarrow> bool" where
  "cache_ok st \<longleftrightarrow> (\<forall>key r. as_cache st key = Some r \<longrightarrow> resp_level r \<noteq> 0 \<longrightarrow>
     list_all (\<lambda>c. as_k st \<le> res_users c) (resp_cells r))"

lemma cache_ok_evict: "cache_ok st \<Longrightarrow> cache_ok (evict ks st)"
  by (auto simp: cache_ok_def evict_def restrict_map_def split: if_splits)

lemma compute_stats_suppressed:
  assumes "compute_stats up rng st q = Inr r" and "\<not> as_dp_enabled st" and "resp_level r \<noteq> 0"
  shows "list_all (\<lambda>c. as_k st \<le> res_users c) (resp_cells r)"
proof -
  have "resp_level r = q_level q"
    using assms(1) by (auto simp: compute_stats_def Let_def split: if_splits sum.splits)
  with assms obtain par pu cs where "resp_cells r = suppress pu cs (as_k st)"
    by (auto simp: compute_stats_def Let_def apply_dp_noise_def LEVEL_GLOBAL_def split: if_splits sum.splits)
  then show ?thesis by (simp add: suppressed_ge)
qed

lemma get_stats_cases [consumes 1, case_names same fresh]:
  assumes "get_stats to_rfc3339 up rng st q = (st', res)"
  obtains "st' = st" "\<And>r. res = HttpOk r \<Longrightarrow> \<exists>key. as_cache st key = Some r"
    | key r where "st' = st\<lparr>as_cache := (as_cache st)(key \<mapsto> r)\<rparr>" "res = HttpOk r" "compute_stats up rng st q = Inr r"
  using assms
  by (auto simp: get_stats_def bad_request_def internal_error_def Let_def
      split: if_splits sum.splits option.splits query_error.splits)

lemma get_stats_keeps_k:
  assumes "cache_ok st" and "\<not> as_dp_enabled st"
    and "get_stats to_rfc3339 up rng st q = (st', res)"
  shows "cache_ok st' \<and> \<not> as_dp_enabled st' \<and> as_k st' = as_k st \<and>
    (\<forall>r. res = HttpOk r \<and> resp_level r \<noteq> 0 \<longrightarrow> list_all (\<lambda>c. as_k st \<le> res_users c) (resp_cells r))"
  using assms(3)
proof (cases rule: get_stats_cases)
  case same
  with assms(1,2) show ?thesis unfolding cache_ok_def by blast
next
  case fresh
  with compute_stats_suppressed [OF fresh(3) assms(2)] assms(1,2) show ?thesis
    by (auto simp: cache_ok_def)
qed

lemma get_stats_hit:
  assumes "get_stats to_rfc3339 up rng st q = (st1, HttpOk r)"
  shows "as_cache st1 (cache_key to_rfc3339 q) = Some r"
    "LEVEL_GLOBAL \<le> q_level q \<and> q_level q \<le> LEVEL_NAMESPACE"
    "\<not> (q_level q \<ge> LEVEL_WIKI \<and> q_family q = None)" "\<not> (q_level q \<ge> LEVEL_NAMESPACE \<and> q_wiki q = None)"
  using assms
  by (auto simp: get_stats_def bad_request_def internal_error_def Let_def
      split: if_splits sum.splits option.splits query_error.splits)

text \<open>Repeating a request repeats the answer. Once a request was answered, the same request gets
  the same answer from the cache, noise included, whatever the tables and the random generator do
  afterwards, as long as the window still counts as complete and the entry was not dropped; the
  state does not change.\<close>

lemma get_stats_repeats_cached_answer:
  assumes "get_stats to_rfc3339 up rng st q = (st1, HttpOk r)"
    and "min_flushed_watermark (up' 0) db' = Inr (Some wm)" and "window_end (q_window q) \<le> wm"
  shows "get_stats to_rfc3339 up' rng' (st1\<lparr>as_db := db'\<rparr>) q = (st1\<lparr>as_db := db'\<rparr>, HttpOk r)"
  using get_stats_hit [OF assms(1)] assms(2,3) by (auto simp: get_stats_def is_complete_def)

text \<open>C31: the latest window is the newest that is complete: what \<open>/v1/windows/latest\<close> returns is aligned,
  complete, and the window after it is not; it is absent only when no partition recorded progress.\<close>

theorem latest_window_is_newest_complete:
  assumes "duration_trunc_spec trunc" and "min_flushed_watermark (up 0) (as_db st) = Inr owm"
    and "\<forall>wm. owm = Some wm \<longrightarrow> in_i64 wm"
  shows "\<exists>ow. get_latest_window trunc up st = HttpOk ow \<and> (ow = None \<longleftrightarrow> partition_progress (as_db st) = []) \<and>
    (\<forall>w q. ow = Some w \<longrightarrow> WINDOW_SIZE dvd w \<and> is_complete owm (q\<lparr>q_window := w\<rparr>) \<and>
       \<not> is_complete owm (q\<lparr>q_window := w + WINDOW_SIZE\<rparr>))"
proof (cases owm)
  case None
  then show ?thesis using assms(2)
    by (auto simp: get_latest_window_def min_flushed_watermark_def split: if_splits list.splits)
next
  case (Some wm)
  then have i: "in_i64 wm" using assms(3) by simp
  have "partition_progress (as_db st) \<noteq> []"
    using assms(2) Some by (auto simp: min_flushed_watermark_def split: if_splits)
  moreover have "get_latest_window trunc up st = HttpOk (Some (wstart wm - WINDOW_SIZE))"
    using assms(1,2) Some i by (simp add: get_latest_window_def)
  moreover have "WINDOW_SIZE dvd wstart wm - WINDOW_SIZE" using wstart_dvd by simp
  ultimately show ?thesis
    using wstart_le [of wm] less_window_end_wstart [of wm] by (simp add: Some is_complete_def window_end_def)
qed

theorem latest_window_is_newest_complete_witness:
  "\<exists>ow. get_latest_window floor_trunc (\<lambda>_. True) demo_app = HttpOk ow \<and> ow \<noteq> None"
proof -
  have m: "min_flushed_watermark ((\<lambda>_. True) (0 :: nat)) (as_db demo_app) = Inr (Some (seconds 90))" by code_simp
  have "\<forall>wm. Some (seconds 90) = Some wm \<longrightarrow> in_i64 wm" by (simp add: in_i64_def seconds_def)
  from latest_window_is_newest_complete [OF floor_trunc_spec m this] show ?thesis
    by (auto simp: demo_app_def demo_db_def)
qed

section \<open>Where the privacy guarantee ends\<close>

text \<open>The root cell is never suppressed. At level 0 a total below the threshold is answered as an
  \<open>Other\<close> row that carries the exact count: with noise off, a window with four users is released
  as four users although \<open>k\<close> is ten.\<close>

theorem global_count_released_below_k:
  "compute_stats (\<lambda>_. True) rng (demo_app\<lparr>as_k := DEFAULT_K\<rparr>) (demo_query 0) =
     Inr \<lparr>resp_window_start = 0, resp_level = 0, resp_cells = [Other 5 4]\<rparr> \<and> (4 :: u64) < DEFAULT_K"
proof -
  have "fetch_cell True demo_db 0 global_key = Inr (Some (raw_cell (''*'', ''*'', - 1) 5 4))" by code_simp
  moreover have "global_result DEFAULT_K (raw_cell (''*'', ''*'', - 1) 5 4) = Other 5 4" by code_simp
  moreover have "(4 :: u64) < DEFAULT_K" by code_simp
  ultimately show ?thesis
    by (simp add: compute_stats_def demo_app_def demo_query_def apply_dp_noise_def LEVEL_GLOBAL_def)
qed

text \<open>C40: cache keys collide. The key joins the family and the wiki with a colon and escapes neither, so
  two different namespace queries share an entry and the second is answered with the first one's
  statistics.\<close>

theorem cache_key_collision:
  assumes "q_level q = 3" and "q_family q = Some (a @ '':'' @ b)" and "q_wiki q = Some c"
    and "q' = q\<lparr>q_family := Some a, q_wiki := Some (b @ '':'' @ c)\<rparr>"
    and "get_stats to_rfc3339 up rng st q = (st1, HttpOk r)"
  shows "parent_key q \<noteq> parent_key q' \<and> cache_key to_rfc3339 q = cache_key to_rfc3339 q' \<and>
    get_stats to_rfc3339 up rng st1 q' = (st1, HttpOk r)"
proof -
  have key: "cache_key to_rfc3339 q = cache_key to_rfc3339 q'"
    using assms(2-4) by (simp add: cache_key_def or_default_def)
  have c: "as_cache st1 (cache_key to_rfc3339 q') = Some r" using get_stats_hit(1) [OF assms(5)] key by simp
  have db: "as_db st1 = as_db st"
    using assms(5) by (auto simp: get_stats_def Let_def split: if_splits sum.splits option.splits)
  obtain wm where "min_flushed_watermark (up 0) (as_db st) = Inr wm" "is_complete wm q"
    using assms(5) by (auto simp: get_stats_def internal_error_def Let_def bad_request_def
        split: if_splits sum.splits option.splits query_error.splits)
  moreover from this(2) have "is_complete wm q'" by (cases wm) (simp_all add: is_complete_def assms(4))
  ultimately have "get_stats to_rfc3339 up rng st1 q' = (st1, HttpOk r)"
    using c db by (simp add: get_stats_def) (simp add: assms(1,4) key_defs)
  moreover have "parent_key q \<noteq> parent_key q'" using assms(1-4) by (simp add: parent_key_def key_defs)
  ultimately show ?thesis using key by blast
qed

theorem cache_key_collision_witness:
  "\<exists>st1 r. get_stats (\<lambda>_. ''t'') (\<lambda>_. True) (\<lambda>_. 0) demo_app
       ((demo_query 3)\<lparr>q_family := Some ''a:b'', q_wiki := Some ''c''\<rparr>) = (st1, HttpOk r) \<and>
     get_stats (\<lambda>_. ''t'') (\<lambda>_. True) (\<lambda>_. 0) st1
       ((demo_query 3)\<lparr>q_family := Some ''a'', q_wiki := Some ''b:c''\<rparr>) = (st1, HttpOk r)"
proof -
  let ?q = "(demo_query 3)\<lparr>q_family := Some ''a:b'', q_wiki := Some ''c''\<rparr>"
  let ?q' = "?q\<lparr>q_family := Some ''a'', q_wiki := Some (''b'' @ '':'' @ ''c'')\<rparr>"
  have "fetch_cell True demo_db 0 (wiki_key ''a:b'' ''c'') = Inr (Some (raw_cell (''a:b'', ''c'', - 1) 0 0))" by code_simp
  moreover have "fetch_children True demo_db 0 (wiki_key ''a:b'' ''c'') = Inr []" by code_simp
  moreover have "parent_key ?q = Inr (wiki_key ''a:b'' ''c'')" by (simp add: parent_key_def demo_query_def key_defs)
  ultimately have "\<exists>r. compute_stats (\<lambda>_. True) (\<lambda>_. 0) demo_app ?q = Inr r"
    by (simp add: compute_stats_def demo_app_def demo_query_def LEVEL_GLOBAL_def)
  then obtain rr where cs: "compute_stats (\<lambda>_. True) (\<lambda>_. 0) demo_app ?q = Inr rr" ..
  have wm: "min_flushed_watermark True demo_db = Inr (Some (seconds 90))" "window_end 0 \<le> seconds 90" by code_simp+
  have f: "as_db demo_app = demo_db" "as_cache demo_app = Map.empty" "q_level ?q = 3" "q_window (demo_query 3) = 0"
    "q_level (demo_query 3) = 3" by (simp_all add: demo_app_def demo_query_def)
  have "\<exists>st1 r. get_stats (\<lambda>_. ''t'') (\<lambda>_. True) (\<lambda>_. 0) demo_app ?q = (st1, HttpOk r)"
    by (simp add: get_stats_def Let_def is_complete_def f wm cs LEVEL_GLOBAL_def LEVEL_NAMESPACE_def)
  then obtain st1 r where g: "get_stats (\<lambda>_. ''t'') (\<lambda>_. True) (\<lambda>_. 0) demo_app ?q = (st1, HttpOk r)" by blast
  have "q_level ?q = 3" "q_family ?q = Some (''a'' @ '':'' @ ''b'')" "q_wiki ?q = Some ''c''" by (simp_all add: demo_query_def)
  from cache_key_collision [OF this refl g] g show ?thesis by auto
qed

text \<open>Noise can be averaged away. A family-level request ignores its \<open>wiki\<close> parameter but the cache
  key does not: every value of it is a new cache entry for the same statistics, computed with fresh
  noise.\<close>

theorem ignored_parameter_defeats_cache:
  assumes "s \<noteq> s'"
  shows "cache_key to_rfc3339 ((demo_query 1)\<lparr>q_wiki := Some s\<rparr>) \<noteq>
      cache_key to_rfc3339 ((demo_query 1)\<lparr>q_wiki := Some s'\<rparr>) \<and>
    compute_stats up rng st ((demo_query 1)\<lparr>q_wiki := Some s\<rparr>) =
      compute_stats up rng st ((demo_query 1)\<lparr>q_wiki := Some s'\<rparr>)"
proof -
  let ?q = "(demo_query 1)\<lparr>q_wiki := Some s\<rparr>" and ?r = "(demo_query 1)\<lparr>q_wiki := Some s'\<rparr>"
  have same: "q_level ?q = q_level ?r" "q_window ?q = q_window ?r" "q_estimator ?q = q_estimator ?r" by simp_all
  have "parent_key ?q = parent_key ?r" by (simp add: parent_key_def demo_query_def LEVEL_FAMILY_def)
  then have "compute_stats up rng st ?q = compute_stats up rng st ?r" by (simp only: compute_stats_def same)
  with assms show ?thesis by (simp add: cache_key_def or_default_def)
qed

theorem ignored_parameter_defeats_cache_witness:
  "cache_key (\<lambda>_. ''t'') ((demo_query 1)\<lparr>q_wiki := Some ''x''\<rparr>) \<noteq>
     cache_key (\<lambda>_. ''t'') ((demo_query 1)\<lparr>q_wiki := Some ''y''\<rparr>)"
  using ignored_parameter_defeats_cache [of "''x''" "''y''" "\<lambda>_. ''t''"] by simp

end
