(* ===== verification/Gateway.thy ===== *)
theory Gateway
  imports Events "HOL-Library.Multiset"
begin

text \<open>
  \<^verbatim>\<open>crates/ingest-gateway\<close> and \<^verbatim>\<open>crates/common/src/pseudonym.rs\<close>: validating, pseudonymizing and
  queueing event batches, and the loop that hands them to Kafka. Outside the repository, and so
  arguments: HMAC-SHA256 and hex encoding (\<open>hmac\<close>, \<open>hex_encode\<close>), JSON serialization (\<open>to_json\<close>),
  the text of a validation error (\<open>show_error\<close>, generated by \<open>thiserror\<close>) and the bounded tokio
  channel (\<open>try_send\<close>).
\<close>

record crypto =
  hmac :: "string \<Rightarrow> string \<Rightarrow> u8 list"
  hex_encode :: "u8 list \<Rightarrow> string"
  to_json :: "Event \<Rightarrow> u8 list"
  show_error :: "EventValidationError \<Rightarrow> string"

definition pseudonymize :: "crypto \<Rightarrow> string \<Rightarrow> string \<Rightarrow> string" where
  "pseudonymize lib salt raw_user = hex_encode lib (hmac lib salt raw_user)"

record QueuedMessage =
  qm_key :: string
  qm_payload :: "u8 list"

datatype TrySendError = Full | Closed

record 'ch GatewayState =
  gs_tx :: 'ch
  gs_salt :: string
  gs_max_batch_events :: nat

datatype ingest_response = Status nat | Reject nat "(string \<times> string) list" string

definition pseudonymize_and_serialize :: "crypto \<Rightarrow> string \<Rightarrow> Event \<Rightarrow> QueuedMessage" where
  "pseudonymize_and_serialize lib salt event =
     (let key = pseudonymize lib salt (ev_user event)
      in \<lparr>qm_key = key, qm_payload = to_json lib (event\<lparr>ev_user := key\<rparr>)\<rparr>)"

fun first_error :: "datetime \<Rightarrow> Event list \<Rightarrow> EventValidationError option" where
  "first_error now [] = None"
| "first_error now (e # es) = (case validate e now of Inl err \<Rightarrow> Some err | Inr _ \<Rightarrow> first_error now es)"

text \<open>The loop that queues the batch: only \<open>Full\<close> ends it.\<close>

fun enqueue_all ::
  "('ch \<Rightarrow> QueuedMessage \<Rightarrow> TrySendError + 'ch) \<Rightarrow> (Event \<Rightarrow> QueuedMessage) \<Rightarrow> Event list \<Rightarrow> 'ch \<Rightarrow> 'ch \<times> bool" where
  "enqueue_all try_send mk [] ch = (ch, True)"
| "enqueue_all try_send mk (e # es) ch =
     (case try_send ch (mk e) of
        Inr ch' \<Rightarrow> enqueue_all try_send mk es ch'
      | Inl Full \<Rightarrow> (ch, False)
      | Inl Closed \<Rightarrow> enqueue_all try_send mk es ch)"

definition gateway_bad_request :: "string \<Rightarrow> ingest_response" where
  "gateway_bad_request msg = Reject 400 [] msg"

definition post_events ::
  "crypto \<Rightarrow> ('ch \<Rightarrow> QueuedMessage \<Rightarrow> TrySendError + 'ch) \<Rightarrow> datetime \<Rightarrow> 'ch GatewayState \<Rightarrow> EventBatch \<Rightarrow>
     'ch GatewayState \<times> ingest_response" where
  "post_events lib try_send now st batch =
     (if batch_events batch = [] then (st, gateway_bad_request ''event batch must not be empty'')
      else if length (batch_events batch) > gs_max_batch_events st then
        (st, gateway_bad_request (''batch of '' @ show_nat (length (batch_events batch)) @
               '' events exceeds max of '' @ show_nat (gs_max_batch_events st)))
      else
        (case first_error now (batch_events batch) of
           Some e \<Rightarrow> (st, gateway_bad_request (show_error lib e))
         | None \<Rightarrow>
             (case enqueue_all try_send (pseudonymize_and_serialize lib (gs_salt st)) (batch_events batch) (gs_tx st) of
                (ch, True) \<Rightarrow> (st\<lparr>gs_tx := ch\<rparr>, Status 202)
              | (ch, False) \<Rightarrow>
                  (st\<lparr>gs_tx := ch\<rparr>, Reject 503 [(''Retry-After'', ''1'')] ''ingest channel full, retry shortly''))))"

section \<open>What tokio documents\<close>

text \<open>A bounded channel: \<open>try_send\<close> appends while there is room, reports \<open>Full\<close> otherwise, and reports
  \<open>Closed\<close> once the receiver is gone.\<close>

definition channel_spec ::
  "('ch \<Rightarrow> QueuedMessage \<Rightarrow> TrySendError + 'ch) \<Rightarrow> ('ch \<Rightarrow> QueuedMessage list) \<Rightarrow> ('ch \<Rightarrow> bool) \<Rightarrow> nat \<Rightarrow> bool" where
  "channel_spec try_send queue alive cap \<longleftrightarrow>
     (\<forall>ch m. case try_send ch m of
        Inr ch' \<Rightarrow> alive ch \<and> length (queue ch) < cap \<and> queue ch' = queue ch @ [m] \<and> alive ch'
      | Inl Full \<Rightarrow> alive ch \<and> cap \<le> length (queue ch)
      | Inl Closed \<Rightarrow> \<not> alive ch)"

text \<open>A channel that behaves so: contents and whether the receiver is alive, two slots.\<close>

definition demo_send :: "QueuedMessage list \<times> bool \<Rightarrow> QueuedMessage \<Rightarrow> TrySendError + QueuedMessage list \<times> bool" where
  "demo_send ch m = (if \<not> snd ch then Inl Closed else if length (fst ch) < 2 then Inr (fst ch @ [m], True) else Inl Full)"

definition demo_crypto :: crypto where
  "demo_crypto = \<lparr>hmac = (\<lambda>salt u. map (\<lambda>c. of_nat (of_char c)) (salt @ u)), hex_encode = map (char_of \<circ> unat),
     to_json = (\<lambda>e. map (\<lambda>c. of_nat (of_char c)) (ev_user e)), show_error = (\<lambda>_. ''invalid'')\<rparr>"

definition demo_gateway :: "(QueuedMessage list \<times> bool) GatewayState" where
  "demo_gateway = \<lparr>gs_tx = ([], True), gs_salt = ''salt-'', gs_max_batch_events = 5\<rparr>"

definition demo_batch :: EventBatch where
  "demo_batch = \<lparr>batch_events = map (\<lambda>(i, u). \<lparr>event_id = i, ev_user = u, ev_ts = 0, ev_family = ''wikipedia'',
     ev_wiki = ''enwiki'', ev_namespace = 0, ev_kind = Edit, ev_is_bot = False\<rparr>) [(1, ''u1''), (2, ''u2'')]\<rparr>"

lemma demo_batch_valid: "list_all (\<lambda>e. validate e 0 = Inr ()) (batch_events demo_batch)"
  by (simp add: demo_batch_def validate_def Let_def seconds_def MAX_FUTURE_SKEW_SECS_def)

lemma demo_send_spec: "channel_spec demo_send fst snd 2"
  by (auto simp: channel_spec_def demo_send_def)

lemma channel_specD:
  assumes "channel_spec try_send queue alive cap"
  shows "try_send ch m = Inr ch' \<Longrightarrow> alive ch \<and> length (queue ch) < cap \<and> queue ch' = queue ch @ [m] \<and> alive ch'"
    "try_send ch m = Inl Full \<Longrightarrow> alive ch \<and> cap \<le> length (queue ch)"
    "try_send ch m = Inl Closed \<Longrightarrow> \<not> alive ch"
  using spec [OF spec [OF assms [unfolded channel_spec_def], of ch], of m] by simp_all

lemma enqueue_all_alive:
  assumes "channel_spec try_send queue alive cap" and "alive ch" and "enqueue_all try_send mk es ch = (ch', ok)"
  shows "alive ch' \<and> (if ok then queue ch' = queue ch @ map mk es
    else (\<exists>es1 es2. es = es1 @ es2 \<and> es2 \<noteq> [] \<and> queue ch' = queue ch @ map mk es1 \<and> cap \<le> length (queue ch')))"
  using assms(2,3)
proof (induction es arbitrary: ch)
  case (Cons e es)
  show ?case
  proof (cases "try_send ch (mk e)")
    case (Inr ch1)
    with channel_specD(1) [OF assms(1)] have q: "queue ch1 = queue ch @ [mk e]" "alive ch1" by blast+
    from Cons.IH [OF q(2)] Cons.prems(2) Inr
    have IH: "alive ch' \<and> (if ok then queue ch' = queue ch1 @ map mk es
      else (\<exists>es1 es2. es = es1 @ es2 \<and> es2 \<noteq> [] \<and> queue ch' = queue ch1 @ map mk es1 \<and> cap \<le> length (queue ch')))"
      by simp
    show ?thesis
    proof (cases ok)
      case False
      with IH obtain es1 es2 where "es = es1 @ es2" "es2 \<noteq> []" "queue ch' = queue ch1 @ map mk es1"
        "cap \<le> length (queue ch')" "alive ch'" by auto
      with False q(1) show ?thesis by (auto intro: exI [of _ "e # es1"])
    qed (use IH q in simp)
  next
    case (Inl err)
    show ?thesis
    proof (cases err)
      case Full
      with Inl channel_specD(2) [OF assms(1)] Cons.prems show ?thesis by (fastforce intro: exI [of _ "[]"])
    next
      case Closed
      with Inl channel_specD(3) [OF assms(1)] Cons.prems(1) show ?thesis by blast
    qed
  qed
qed simp

lemma first_error_None: "first_error now es = None \<longleftrightarrow> list_all (\<lambda>e. validate e now = Inr ()) es"
  by (induction es) (auto split: sum.splits)

text \<open>C22: what a batch request does, on every branch. While the producer is alive: an answer of 202
  means the whole batch was valid and was appended to the queue in order, each event keyed and
  stored under the pseudonym of its user; 400 means nothing was queued, and is the answer exactly
  when the batch is empty, too large or has an invalid event; 503 carries \<open>Retry-After\<close> and means
  the queue is full and holds a proper prefix of the batch.\<close>

theorem post_events_outcomes:
  assumes "channel_spec try_send queue alive cap" and "alive (gs_tx st)"
    and "post_events lib try_send now st batch = (st', resp)"
  shows "(resp = Status 202 \<longrightarrow> list_all (\<lambda>e. validate e now = Inr ()) (batch_events batch) \<and>
        queue (gs_tx st') = queue (gs_tx st) @ map (pseudonymize_and_serialize lib (gs_salt st)) (batch_events batch)) \<and>
    ((\<exists>msg. resp = Reject 400 [] msg) \<longleftrightarrow> batch_events batch = [] \<or>
        length (batch_events batch) > gs_max_batch_events st \<or>
        \<not> list_all (\<lambda>e. validate e now = Inr ()) (batch_events batch)) \<and>
    ((\<exists>msg. resp = Reject 400 [] msg) \<longrightarrow> st' = st) \<and>
    (resp = Status 202 \<or> (\<exists>msg. resp = Reject 400 [] msg) \<or>
      (\<exists>msg es1 es2. resp = Reject 503 [(''Retry-After'', ''1'')] msg \<and> batch_events batch = es1 @ es2 \<and> es2 \<noteq> [] \<and>
         queue (gs_tx st') = queue (gs_tx st) @ map (pseudonymize_and_serialize lib (gs_salt st)) es1 \<and>
         cap \<le> length (queue (gs_tx st')))) \<and>
    gs_salt st' = gs_salt st \<and> gs_max_batch_events st' = gs_max_batch_events st"
proof -
  let ?mk = "pseudonymize_and_serialize lib (gs_salt st)" and ?es = "batch_events batch"
  obtain ch ok where eq: "enqueue_all try_send ?mk ?es (gs_tx st) = (ch, ok)"
    by (cases "enqueue_all try_send ?mk ?es (gs_tx st)")
  note enq = enqueue_all_alive [OF assms(1,2) eq]
  show ?thesis
  proof (cases "?es = [] \<or> length ?es > gs_max_batch_events st \<or> first_error now ?es \<noteq> None")
    case True
    then obtain msg where "st' = st" "resp = Reject 400 [] msg"
      using assms(3) by (auto simp: post_events_def gateway_bad_request_def split: if_splits option.splits)
    with True show ?thesis by (auto simp: first_error_None)
  next
    case False
    then have "st' = st\<lparr>gs_tx := ch\<rparr>"
      "resp = (if ok then Status 202 else Reject 503 [(''Retry-After'', ''1'')] ''ingest channel full, retry shortly'')"
      using assms(3) eq by (auto simp: post_events_def split: bool.splits)
    with False enq show ?thesis by (cases ok) (auto simp: first_error_None)
  qed
qed

theorem post_events_outcomes_witness:
  "\<exists>st' resp. post_events demo_crypto demo_send 0 demo_gateway demo_batch = (st', resp) \<and>
     resp = Status 202 \<and> map qm_key (fst (gs_tx st')) = [''salt-u1'', ''salt-u2'']"
proof -
  obtain st' resp where p: "post_events demo_crypto demo_send 0 demo_gateway demo_batch = (st', resp)"
    by (cases "post_events demo_crypto demo_send 0 demo_gateway demo_batch")
  have "snd (post_events demo_crypto demo_send 0 demo_gateway demo_batch) = Status 202"
    using first_error_None [of 0 "batch_events demo_batch"] demo_batch_valid
    by (simp add: post_events_def) (simp add: demo_batch_def demo_gateway_def demo_send_def)
  with p have r: "resp = Status 202" by simp
  have a: "snd (gs_tx demo_gateway)" by (simp add: demo_gateway_def)
  from post_events_outcomes [OF demo_send_spec a p] r
  have "fst (gs_tx st') = map (pseudonymize_and_serialize demo_crypto ''salt-'') (batch_events demo_batch)"
    by (simp add: demo_gateway_def)
  moreover have "map qm_key (map (pseudonymize_and_serialize demo_crypto ''salt-'') (batch_events demo_batch)) =
      [''salt-u1'', ''salt-u2'']" by code_simp
  ultimately show ?thesis using p r by simp
qed

text \<open>A dead producer is not noticed. Once the receiver of the channel is gone every batch is still
  answered with 202 although nothing is queued: \<open>Closed\<close> is not handled.\<close>

theorem closed_channel_accepts_and_drops:
  assumes "channel_spec try_send queue alive cap" and "\<not> alive (gs_tx st)"
    and "batch_events batch \<noteq> []" and "length (batch_events batch) \<le> gs_max_batch_events st"
    and "list_all (\<lambda>e. validate e now = Inr ()) (batch_events batch)"
  shows "post_events lib try_send now st batch = (st, Status 202)"
proof -
  have cl: "try_send (gs_tx st) m = Inl Closed" for m
  proof (cases "try_send (gs_tx st) m")
    case (Inl err)
    with channel_specD(2) [OF assms(1)] assms(2) show ?thesis by (cases err) auto
  next
    case (Inr ch)
    with channel_specD(1) [OF assms(1)] assms(2) show ?thesis by blast
  qed
  have "enqueue_all try_send mk es (gs_tx st) = (gs_tx st, True)" for mk es
    by (induction es) (simp_all add: cl)
  moreover have "first_error now (batch_events batch) = None" using assms(5) by (simp add: first_error_None)
  ultimately show ?thesis using assms(3,4) by (simp add: post_events_def)
qed

theorem closed_channel_accepts_and_drops_witness:
  "post_events demo_crypto demo_send 0 (demo_gateway\<lparr>gs_tx := ([], False)\<rparr>) demo_batch =
     (demo_gateway\<lparr>gs_tx := ([], False)\<rparr>, Status 202)"
  by (rule closed_channel_accepts_and_drops [OF demo_send_spec _ _ _ demo_batch_valid])
     (simp_all add: demo_gateway_def demo_batch_def)

section \<open>The producer loop\<close>

text \<open>\<^verbatim>\<open>producer.rs\<close>: the loop receives a message and spawns a task for it; a task delivers its
  message or gives up. Handlers and tasks interleave freely. \<open>produced\<close> is a message the broker
  stored, whether or not its acknowledgement arrived, \<open>gave_up\<close> one it did not store: the program only
  logs a failed send (lines 53-60) and the message is gone. \<open>pr_accepted\<close> and \<open>pr_failed\<close> exist in the
  model only; they record what was ever queued and what was lost.\<close>

record Producer =
  pr_queue :: "QueuedMessage list"
  pr_inflight :: "QueuedMessage multiset"
  pr_topic :: "QueuedMessage list"
  pr_failed :: "QueuedMessage multiset"
  pr_accepted :: "QueuedMessage list"

definition producer_init :: Producer where
  "producer_init = \<lparr>pr_queue = [], pr_inflight = {#}, pr_topic = [], pr_failed = {#}, pr_accepted = []\<rparr>"

inductive run_producer_loop :: "nat \<Rightarrow> Producer \<Rightarrow> bool" for cap where
  start: "run_producer_loop cap producer_init"
| queued: "run_producer_loop cap s \<Longrightarrow> length (pr_queue s) < cap \<Longrightarrow>
    run_producer_loop cap (s\<lparr>pr_queue := pr_queue s @ [m], pr_accepted := pr_accepted s @ [m]\<rparr>)"
| spawned: "run_producer_loop cap s \<Longrightarrow> pr_queue s = m # ms \<Longrightarrow>
    run_producer_loop cap (s\<lparr>pr_queue := ms, pr_inflight := add_mset m (pr_inflight s)\<rparr>)"
| produced: "run_producer_loop cap s \<Longrightarrow> m \<in># pr_inflight s \<Longrightarrow>
    run_producer_loop cap (s\<lparr>pr_inflight := pr_inflight s - {#m#}, pr_topic := pr_topic s @ [m]\<rparr>)"
| gave_up: "run_producer_loop cap s \<Longrightarrow> m \<in># pr_inflight s \<Longrightarrow>
    run_producer_loop cap (s\<lparr>pr_inflight := pr_inflight s - {#m#}, pr_failed := add_mset m (pr_failed s)\<rparr>)"

lemma producer_conserves:
  "run_producer_loop cap s \<Longrightarrow>
   mset (pr_accepted s) = mset (pr_queue s) + pr_inflight s + mset (pr_topic s) + pr_failed s \<and>
   length (pr_queue s) \<le> cap"
  by (induction rule: run_producer_loop.induct) (auto simp: producer_init_def)

end
