(* ===== verification/WikiSource.thy ===== *)
theory WikiSource
  imports Gateway
begin

text \<open>
  \<^verbatim>\<open>crates/wiki-source\<close>: mapping Wikimedia recent-change messages to events, batching them and
  posting them to the gateway, with reconnection and backoff. The server-sent event stream and the
  ticker are a sequence of inputs; chrono's \<open>from_timestamp\<close>, the JSON parser and the random event
  ids are arguments.
\<close>

record RecentChange =
  change_kind :: string
  change_namespace :: i32
  change_user :: string
  change_bot :: bool
  change_wiki :: string
  change_timestamp :: i64

datatype MappingError = UnknownKind string | InvalidTimestamp i64

definition ends_with :: "string \<Rightarrow> string \<Rightarrow> bool" where
  "ends_with w suf \<longleftrightarrow> drop (length w - length suf) w = suf"

definition family_for_wiki :: "string \<Rightarrow> string" where
  "family_for_wiki w =
     (if w = ''wikidatawiki'' then ''wikidata''
      else if w = ''commonswiki'' then ''commons''
      else if w = ''specieswiki'' then ''wikispecies''
      else if w = ''mediawikiwiki'' then ''mediawiki''
      else if ends_with w ''wiktionary'' then ''wiktionary''
      else if ends_with w ''wikinews'' then ''wikinews''
      else if ends_with w ''wikibooks'' then ''wikibooks''
      else if ends_with w ''wikiquote'' then ''wikiquote''
      else if ends_with w ''wikisource'' then ''wikisource''
      else if ends_with w ''wikiversity'' then ''wikiversity''
      else if ends_with w ''wikivoyage'' then ''wikivoyage''
      else if ends_with w ''wiki'' then ''wikipedia''
      else ''other'')"

definition kind_for_str :: "string \<Rightarrow> MappingError + EventKind" where
  "kind_for_str s =
     (if s = ''edit'' then Inr Edit
      else if s = ''new'' then Inr New
      else if s = ''log'' then Inr Log
      else if s = ''categorize'' then Inr Categorize
      else Inl (UnknownKind s))"

definition to_event :: "(i64 \<Rightarrow> datetime option) \<Rightarrow> uuid \<Rightarrow> RecentChange \<Rightarrow> MappingError + Event" where
  "to_event from_timestamp new_v4 rc =
     (case from_timestamp (change_timestamp rc) of
        None \<Rightarrow> Inl (InvalidTimestamp (change_timestamp rc))
      | Some ts \<Rightarrow>
          (case kind_for_str (change_kind rc) of
             Inl e \<Rightarrow> Inl e
           | Inr k \<Rightarrow> Inr \<lparr>event_id = new_v4, ev_user = change_user rc, ev_ts = ts,
                            ev_family = family_for_wiki (change_wiki rc), ev_wiki = change_wiki rc,
                            ev_namespace = change_namespace rc, ev_kind = k, ev_is_bot = change_bot rc\<rparr>))"

section \<open>The client\<close>

definition BACKOFF_INITIAL :: nat where "BACKOFF_INITIAL = 1"
definition BACKOFF_MAX :: nat where "BACKOFF_MAX = 30"

text \<open>What the client waits for: the next message of the stream (with the id an event made from it will
  get), its end, an error on it, or the ticker; each with whether a post made then succeeds.\<close>

datatype SourceInput = Sse string string uuid | StreamEnd | StreamError | Tick

record SourceRun =
  last_event_id :: "string option"
  src_batch :: "Event list"
  src_posts :: "(Event list \<times> bool) list"

text \<open>\<open>flush\<close> takes the batch whatever becomes of the post.\<close>

definition src_flush :: "bool \<Rightarrow> SourceRun \<Rightarrow> SourceRun" where
  "src_flush ok st =
     (if src_batch st = [] then st
      else st\<lparr>src_batch := [], src_posts := src_posts st @ [(src_batch st, ok)]\<rparr>)"

definition handle_sse ::
  "(string \<Rightarrow> RecentChange option) \<Rightarrow> (i64 \<Rightarrow> datetime option) \<Rightarrow> nat \<Rightarrow> bool \<Rightarrow> string \<Rightarrow> string \<Rightarrow> uuid \<Rightarrow>
     SourceRun \<Rightarrow> SourceRun" where
  "handle_sse parse from_timestamp batch_max ok eid dat new_v4 st0 =
     (let st = (if eid \<noteq> [] then st0\<lparr>last_event_id := Some eid\<rparr> else st0)
      in if trim dat = [] then st
         else (case parse dat of
                 None \<Rightarrow> st
               | Some rc \<Rightarrow>
                   (case to_event from_timestamp new_v4 rc of
                      Inl e \<Rightarrow> st
                    | Inr e \<Rightarrow>
                        (let st1 = st\<lparr>src_batch := src_batch st @ [e]\<rparr>
                         in if length (src_batch st1) \<ge> batch_max then src_flush ok st1 else st1))))"

text \<open>The loop of \<open>connect_and_consume\<close> over the inputs: the result is \<open>Some (Inr ())\<close> when the stream ended, \<open>Some (Inl ())\<close>
  when it failed, \<open>None\<close> while it is still running. The batch is a local variable of the connection: an
  error drops it.\<close>

fun consume_loop ::
  "(string \<Rightarrow> RecentChange option) \<Rightarrow> (i64 \<Rightarrow> datetime option) \<Rightarrow> nat \<Rightarrow> (SourceInput \<times> bool) list \<Rightarrow> SourceRun \<Rightarrow>
     SourceRun \<times> (unit + unit) option" where
  "consume_loop parse from_timestamp batch_max [] st = (st, None)"
| "consume_loop parse from_timestamp batch_max ((i, ok) # is) st =
     (case i of
        StreamEnd \<Rightarrow> (src_flush ok st, Some (Inr ()))
      | StreamError \<Rightarrow> (st\<lparr>src_batch := []\<rparr>, Some (Inl ()))
      | Tick \<Rightarrow> consume_loop parse from_timestamp batch_max is (src_flush ok st)
      | Sse eid dat new_v4 \<Rightarrow>
          consume_loop parse from_timestamp batch_max is
            (handle_sse parse from_timestamp batch_max ok eid dat new_v4 st))"

text \<open>A connection: it may fail to open (no answer or an error status), and it starts with an empty batch.\<close>

definition connect_and_consume ::
  "(string \<Rightarrow> RecentChange option) \<Rightarrow> (i64 \<Rightarrow> datetime option) \<Rightarrow> nat \<Rightarrow> bool \<Rightarrow> (SourceInput \<times> bool) list \<Rightarrow> SourceRun \<Rightarrow>
     SourceRun \<times> (unit + unit) option" where
  "connect_and_consume parse from_timestamp batch_max connected is st =
     (if connected then consume_loop parse from_timestamp batch_max is (st\<lparr>src_batch := []\<rparr>)
      else (st, Some (Inl ())))"

text \<open>The outer loop: the delay before the next connection, and the backoff carried on.\<close>

definition next_backoff :: "unit + unit \<Rightarrow> nat \<Rightarrow> nat \<times> nat" where
  "next_backoff outcome backoff =
     (case outcome of
        Inr _ \<Rightarrow> (0, BACKOFF_INITIAL)
      | Inl _ \<Rightarrow> (backoff, min (backoff * 2) BACKOFF_MAX))"

fun run_delays :: "(unit + unit) list \<Rightarrow> nat \<Rightarrow> nat list" where
  "run_delays [] backoff = []"
| "run_delays (oc # ocs) backoff = (let (d, b) = next_backoff oc backoff in d # run_delays ocs b)"

text \<open>The whole loop over a list of connections: the delays slept after each, and the state carried on.\<close>

fun run_source ::
  "(string \<Rightarrow> RecentChange option) \<Rightarrow> (i64 \<Rightarrow> datetime option) \<Rightarrow> nat \<Rightarrow> (bool \<times> (SourceInput \<times> bool) list) list \<Rightarrow>
     SourceRun \<Rightarrow> nat \<Rightarrow> SourceRun \<times> nat list" where
  "run_source parse from_timestamp batch_max [] st backoff = (st, [])"
| "run_source parse from_timestamp batch_max ((connected, is) # cs) st backoff =
     (case connect_and_consume parse from_timestamp batch_max connected is st of
        (st', None) \<Rightarrow> (st', [])
      | (st', Some outcome) \<Rightarrow>
          (let (delay, backoff') = next_backoff outcome backoff;
               (st'', delays) = run_source parse from_timestamp batch_max cs st' backoff'
           in (st'', delay # delays)))"

text \<open>The events the inputs carry.\<close>

fun mapped :: "(string \<Rightarrow> RecentChange option) \<Rightarrow> (i64 \<Rightarrow> datetime option) \<Rightarrow> SourceInput \<Rightarrow> Event list" where
  "mapped parse from_timestamp (Sse eid dat new_v4) =
     (if trim dat = [] then []
      else (case parse dat of None \<Rightarrow> [] | Some rc \<Rightarrow>
              (case to_event from_timestamp new_v4 rc of Inl e \<Rightarrow> [] | Inr e \<Rightarrow> [e])))"
| "mapped parse from_timestamp _ = []"

definition posted :: "SourceRun \<Rightarrow> Event list" where
  "posted st = concat (map fst (src_posts st))"

definition src_ok :: "nat \<Rightarrow> SourceRun \<Rightarrow> bool" where
  "src_ok batch_max st \<longleftrightarrow> length (src_batch st) < batch_max \<and>
     list_all (\<lambda>b. fst b \<noteq> [] \<and> length (fst b) \<le> batch_max) (src_posts st)"

section \<open>Batching\<close>

lemma src_flush_posted: "posted (src_flush ok st) @ src_batch (src_flush ok st) = posted st @ src_batch st"
  by (simp add: src_flush_def posted_def)

lemma src_flush_ok:
  "0 < batch_max \<Longrightarrow> length (src_batch st) \<le> batch_max \<Longrightarrow>
   list_all (\<lambda>b. fst b \<noteq> [] \<and> length (fst b) \<le> batch_max) (src_posts st) \<Longrightarrow> src_ok batch_max (src_flush ok st)"
  by (simp add: src_flush_def src_ok_def)

lemma handle_sse_posted:
  "posted (handle_sse parse ft batch_max ok eid dat u st) @ src_batch (handle_sse parse ft batch_max ok eid dat u st) =
   posted st @ src_batch st @ mapped parse ft (Sse eid dat u)"
proof -
  have ext: "posted (s\<lparr>src_batch := b\<rparr>) = posted s" "posted (s\<lparr>last_event_id := l\<rparr>) = posted s" for s b l
    by (simp_all add: posted_def)
  show ?thesis
    by (auto simp: handle_sse_def Let_def src_flush_posted ext split: option.splits sum.splits)
qed

lemma handle_sse_ok: "src_ok batch_max st \<Longrightarrow> src_ok batch_max (handle_sse parse ft batch_max ok eid dat u st)"
  by (auto simp: handle_sse_def Let_def src_ok_def src_flush_def split: option.splits sum.splits)

lemma src_ok_flush: "src_ok batch_max st \<Longrightarrow> src_ok batch_max (src_flush ok st)"
  by (auto simp: src_ok_def src_flush_def)

text \<open>As long as the stream does not fail, the events the messages carry are, in order, the posted batches
  followed by the pending one, and a clean end leaves nothing pending.\<close>

lemma consume_loop_in_order:
  assumes "src_ok batch_max st" and "StreamError \<notin> fst ` set is" and "StreamEnd \<notin> fst ` set (butlast is)"
    and "consume_loop parse ft batch_max is st = (st', res)"
  shows "posted st' @ src_batch st' = posted st @ src_batch st @ concat (map (mapped parse ft \<circ> fst) is) \<and>
    src_ok batch_max st' \<and> (res = Some (Inr ()) \<longrightarrow> src_batch st' = [])"
  using assms
proof (induction "is" arbitrary: st)
  case (Cons x xs)
  obtain i ok where x: "x = (i, ok)" by (cases x)
  have tl: "StreamError \<notin> fst ` set xs" "StreamEnd \<notin> fst ` set (butlast xs)"
    using Cons.prems(2,3) by (auto split: if_splits)
  show ?case
  proof (cases i)
    case (Sse eid dat u)
    let ?h = "handle_sse parse ft batch_max ok eid dat u st"
    have run: "consume_loop parse ft batch_max xs ?h = (st', res)" using Cons.prems(4) by (simp add: x Sse)
    have "posted ?h @ src_batch ?h @ c = posted st @ src_batch st @ mapped parse ft i @ c" for c
      using arg_cong [OF handle_sse_posted, of "\<lambda>l. l @ c"] Sse by simp
    with Cons.IH [OF handle_sse_ok [OF Cons.prems(1)] tl run] show ?thesis by (simp add: x)
  next
    case StreamEnd
    with Cons.prems(3) have "xs = []" by (cases xs) (auto simp: x)
    with StreamEnd Cons.prems src_flush_posted [of ok st] src_ok_flush show ?thesis
      by (auto simp: x) (auto simp: src_flush_def)
  next
    case StreamError
    with Cons.prems(2) show ?thesis by (simp add: x)
  next
    case Tick
    have run: "consume_loop parse ft batch_max xs (src_flush ok st) = (st', res)"
      using Cons.prems(4) by (simp add: x Tick)
    have "posted (src_flush ok st) @ src_batch (src_flush ok st) @ c = posted st @ src_batch st @ c" for c
      using arg_cong [OF src_flush_posted, of "\<lambda>l. l @ c"] by simp
    with Cons.IH [OF src_ok_flush [OF Cons.prems(1)] tl run] show ?thesis by (simp add: x Tick)
  qed
qed simp

definition demo_parse :: "string \<Rightarrow> RecentChange option" where
  "demo_parse dat = (if dat = ''bad'' then None else Some \<lparr>change_kind = ''edit'', change_namespace = 0, change_user = dat,
     change_bot = False, change_wiki = ''enwiki'', change_timestamp = 100\<rparr>)"

definition demo_source :: SourceRun where
  "demo_source = \<lparr>last_event_id = None, src_batch = [], src_posts = []\<rparr>"

definition demo_change :: "uuid \<Rightarrow> string \<Rightarrow> Event" where
  "demo_change i u = \<lparr>event_id = i, ev_user = u, ev_ts = seconds 100, ev_family = ''wikipedia'', ev_wiki = ''enwiki'',
     ev_namespace = 0, ev_kind = Edit, ev_is_bot = False\<rparr>"

lemma demo_trim: "trim ''ann'' \<noteq> []" "trim ''bad'' \<noteq> []" "trim ''bob'' \<noteq> []"
  by simp_all

lemma consume_loop_ends:
  "StreamError \<notin> fst ` set is \<Longrightarrow> is \<noteq> [] \<Longrightarrow> fst (last is) = StreamEnd \<Longrightarrow>
     \<exists>st'. consume_loop parse ft batch_max is st = (st', Some (Inr ()))"
proof (induction "is" arbitrary: st)
  case (Cons x xs)
  obtain i ok where x: "x = (i, ok)" by (cases x)
  show ?case
  proof (cases "i = StreamEnd")
    case False
    with Cons.prems have "xs \<noteq> []" "fst (last xs) = StreamEnd" "StreamError \<notin> fst ` set xs" "i \<noteq> StreamError"
      by (auto simp: x split: if_splits)
    with Cons.IH False show ?thesis by (cases i) (simp_all add: x)
  qed (simp add: x)
qed simp

text \<open>A connection that does not fail in the middle: it did not open, or it ran to its end.\<close>

definition clean_connection :: "bool \<times> (SourceInput \<times> bool) list \<Rightarrow> bool" where
  "clean_connection c \<longleftrightarrow> fst c \<longrightarrow> snd c \<noteq> [] \<and> fst (last (snd c)) = StreamEnd \<and>
     StreamError \<notin> fst ` set (snd c) \<and> StreamEnd \<notin> fst ` set (butlast (snd c))"

definition received :: "(string \<Rightarrow> RecentChange option) \<Rightarrow> (i64 \<Rightarrow> datetime option) \<Rightarrow> bool \<times> (SourceInput \<times> bool) list \<Rightarrow> Event list" where
  "received parse ft c = (if fst c then concat (map (mapped parse ft \<circ> fst) (snd c)) else [])"

lemma connect_clean:
  assumes "src_ok batch_max st" and "src_batch st = []" and "clean_connection (conn, is)"
  shows "\<exists>st' outcome. connect_and_consume parse ft batch_max conn is st = (st', Some outcome) \<and>
    posted st' = posted st @ received parse ft (conn, is) \<and> src_ok batch_max st' \<and> src_batch st' = []"
proof (cases conn)
  case True
  with assms(3) have c: "is \<noteq> []" "fst (last is) = StreamEnd" "StreamError \<notin> fst ` set is" "StreamEnd \<notin> fst ` set (butlast is)"
    by (simp_all add: clean_connection_def)
  from consume_loop_ends [OF c(3,1,2)] obtain st' where r: "consume_loop parse ft batch_max is (st\<lparr>src_batch := []\<rparr>) = (st', Some (Inr ()))"
    by blast
  have ok: "src_ok batch_max (st\<lparr>src_batch := []\<rparr>)" using assms(1) by (auto simp: src_ok_def)
  have "posted (st\<lparr>src_batch := []\<rparr>) = posted st" by (simp add: posted_def)
  with consume_loop_in_order [OF ok c(3,4) r] r True show ?thesis by (auto simp: connect_and_consume_def received_def)
qed (use assms in \<open>simp add: connect_and_consume_def received_def\<close>)

text \<open>C24: the source posts everything once and in order. Over any sequence of connections that either do
  not open or run to their end, the posted batches are, in order, exactly the events of the messages
  received; no batch is empty or larger than the maximum and nothing is left pending. One delay is
  taken after each connection.\<close>

theorem run_source_posts_in_order:
  assumes "src_ok batch_max st" and "src_batch st = []" and "list_all clean_connection cs"
  shows "\<exists>st' delays. run_source parse ft batch_max cs st backoff = (st', delays) \<and> length delays = length cs \<and>
    posted st' = posted st @ concat (map (received parse ft) cs) \<and> src_ok batch_max st' \<and> src_batch st' = []"
  using assms
proof (induction cs arbitrary: st backoff)
  case (Cons c cs)
  obtain conn "is" where c: "c = (conn, is)" by (cases c)
  from Cons.prems(3) have "clean_connection (conn, is)" by (simp add: c)
  from connect_clean [OF Cons.prems(1,2) this] obtain st1 oc
    where r: "connect_and_consume parse ft batch_max conn is st = (st1, Some oc)"
      "posted st1 = posted st @ received parse ft (conn, is)" "src_ok batch_max st1" "src_batch st1 = []" by blast
  obtain dl b where nb: "next_backoff oc backoff = (dl, b)" by (cases "next_backoff oc backoff")
  from Cons.IH [OF r(3,4), of b] Cons.prems(3) obtain st2 dls
    where "run_source parse ft batch_max cs st1 b = (st2, dls)" "length dls = length cs"
      "posted st2 = posted st1 @ concat (map (received parse ft) cs)" "src_ok batch_max st2" "src_batch st2 = []" by auto
  with r nb show ?case by (simp add: c)
qed simp

theorem run_source_posts_in_order_witness:
  "\<exists>st' delays. run_source demo_parse (\<lambda>t. Some (seconds t)) 5
       [(False, []), (True, [(Sse ''1'' ''ann'' 1, True), (Sse ''2'' ''bad'' 2, True), (Sse ''3'' ''bob'' 3, True), (StreamEnd, False)])]
       demo_source BACKOFF_INITIAL = (st', delays) \<and> posted st' = [demo_change 1 ''ann'', demo_change 3 ''bob'']"
proof -
  let ?is = "[(Sse ''1'' ''ann'' 1, True), (Sse ''2'' ''bad'' 2, True), (Sse ''3'' ''bob'' 3, True), (StreamEnd, False)]"
  have ok: "src_ok 5 demo_source" "src_batch demo_source = []" by (simp_all add: src_ok_def demo_source_def)
  have c: "list_all clean_connection [(False, []), (True, ?is)]" by (simp add: clean_connection_def)
  have m: "received demo_parse (\<lambda>t. Some (seconds t)) (True, ?is) = [demo_change 1 ''ann'', demo_change 3 ''bob'']"
    by (simp add: received_def demo_trim demo_parse_def to_event_def kind_for_str_def demo_change_def family_for_wiki_def ends_with_def)
  have n: "received demo_parse (\<lambda>t. Some (seconds t)) (False, []) = []" by (simp add: received_def)
  have "posted demo_source = []" by (simp add: demo_source_def posted_def)
  with run_source_posts_in_order [OF ok c, of demo_parse "\<lambda>t. Some (seconds t)" BACKOFF_INITIAL]
  show ?thesis unfolding list.map m n by auto
qed

text \<open>A stream error loses the pending batch although it was acknowledged. The id of the last message
  is remembered for the reconnection as soon as the message arrives, but its event is still in the
  local batch when the error drops it: resuming after that id skips an edit that was never posted.\<close>

theorem stream_error_loses_batch:
  assumes "1 < batch_max" and "eid \<noteq> []" and "mapped parse ft (Sse eid dat u) = [e]"
  shows "\<exists>st'. connect_and_consume parse ft batch_max True [(Sse eid dat u, ok), (StreamError, ok')] demo_source =
      (st', Some (Inl ())) \<and> last_event_id st' = Some eid \<and> src_batch st' = [] \<and> posted st' = []"
proof -
  obtain rc where "trim dat \<noteq> []" "parse dat = Some rc" "to_event ft u rc = Inr e"
    using assms(3) by (auto split: if_splits option.splits sum.splits)
  then show ?thesis using assms(1,2) by (simp add: connect_and_consume_def handle_sse_def demo_source_def posted_def)
qed

theorem stream_error_loses_batch_witness:
  "mapped demo_parse (\<lambda>t. Some (seconds t)) (Sse ''1'' ''ann'' 1) = [demo_change 1 ''ann''] \<and>
   (\<exists>st'. connect_and_consume demo_parse (\<lambda>t. Some (seconds t)) 500 True [(Sse ''1'' ''ann'' 1, True), (StreamError, True)] demo_source =
      (st', Some (Inl ())) \<and> last_event_id st' = Some ''1'' \<and> posted st' = [])"
proof -
  have m: "mapped demo_parse (\<lambda>t. Some (seconds t)) (Sse ''1'' ''ann'' 1) = [demo_change 1 ''ann'']"
    by (simp add: demo_trim demo_parse_def to_event_def kind_for_str_def demo_change_def family_for_wiki_def ends_with_def)
  from stream_error_loses_batch [OF _ _ m, of 500 True True] m show ?thesis by auto
qed

lemma run_delays_failures:
  "1 \<le> b \<Longrightarrow> b \<le> BACKOFF_MAX \<Longrightarrow>
   run_delays (replicate n (Inl ())) b = map (\<lambda>i. min (2 ^ i * b) BACKOFF_MAX) [0..<n]"
proof (induction n arbitrary: b)
  case (Suc n)
  have "1 \<le> min (b * 2) BACKOFF_MAX" "min (b * 2) BACKOFF_MAX \<le> BACKOFF_MAX" using Suc.prems by (simp_all add: BACKOFF_MAX_def)
  note IH = Suc.IH [OF this]
  have "min (2 ^ i * min (b * 2) BACKOFF_MAX) BACKOFF_MAX = min (2 ^ Suc i * b) BACKOFF_MAX" for i :: nat
  proof (cases "b * 2 \<le> BACKOFF_MAX")
    case False
    then have "BACKOFF_MAX \<le> 2 ^ Suc i * b"
      using mult_le_mono [of 1 "2 ^ i" BACKOFF_MAX "b * 2"] by (simp add: ac_simps)
    then have "min (2 ^ Suc i * b) BACKOFF_MAX = BACKOFF_MAX" by (rule min_absorb2)
    moreover have "min (b * 2) BACKOFF_MAX = BACKOFF_MAX" using False by simp
    moreover have "min (2 ^ i * BACKOFF_MAX) BACKOFF_MAX = BACKOFF_MAX" by (rule min_absorb2) simp
    ultimately show ?thesis by simp
  qed (simp add: ac_simps)
  with IH Suc.prems show ?case
    by (simp add: next_backoff_def map_upt_Suc del: upt_Suc)
qed simp

text \<open>The backoff doubles from one second up to thirty: the delay before the \<open>i\<close>-th reconnection
  after consecutive failures is \<open>min (2 ^ i) 30\<close> seconds, and a stream that ends cleanly resets it.\<close>

theorem backoff_doubles_to_cap:
  "run_delays (replicate n (Inl ())) BACKOFF_INITIAL = map (\<lambda>i. min (2 ^ i) 30) [0..<n] \<and>
   run_delays (Inr () # replicate n (Inl ())) b = 0 # map (\<lambda>i. min (2 ^ i) 30) [0..<n]"
  using run_delays_failures [of BACKOFF_INITIAL n]
  by (simp add: BACKOFF_INITIAL_def BACKOFF_MAX_def next_backoff_def)

text \<open>One unacceptable event rejects its whole batch. Recent changes of the special namespaces carry
  a negative namespace number, which the mapping passes on and the gateway refuses: the batch is
  answered with 400, nothing of it is queued, and the client has already dropped it.\<close>

theorem negative_namespace_rejects_batch:
  assumes "e \<in> set (batch_events batch)" and "to_event ft u rc = Inr e" and "change_namespace rc < 0"
  shows "\<exists>msg. post_events lib try_send now st batch = (st, Reject 400 [] msg)"
proof -
  have "ev_namespace e < 0" using assms(2,3) by (auto simp: to_event_def split: option.splits sum.splits)
  then have "validate e now \<noteq> Inr ()" by (simp add: validate_def Let_def)
  then have "first_error now (batch_events batch) \<noteq> None"
    using assms(1) by (auto simp: first_error_None list_all_iff)
  then show ?thesis by (auto simp: post_events_def gateway_bad_request_def)
qed

theorem negative_namespace_rejects_batch_witness:
  "\<exists>e msg. to_event (\<lambda>t. Some (seconds t)) 7 ((the (demo_parse ''ann''))\<lparr>change_namespace := - 1\<rparr>) = Inr e \<and>
     post_events demo_crypto demo_send 0 demo_gateway \<lparr>batch_events = [demo_change 1 ''ann'', e]\<rparr> =
       (demo_gateway, Reject 400 [] msg)"
proof -
  let ?rc = "(the (demo_parse ''ann''))\<lparr>change_namespace := - 1\<rparr>"
  obtain e where e: "to_event (\<lambda>t. Some (seconds t)) 7 ?rc = Inr e"
    by (simp add: demo_parse_def to_event_def kind_for_str_def)
  have "e \<in> set (batch_events \<lparr>batch_events = [demo_change 1 ''ann'', e]\<rparr>)" by simp
  moreover have "change_namespace ?rc < 0" by simp
  ultimately show ?thesis
    using e negative_namespace_rejects_batch [OF _ e, of "\<lparr>batch_events = [demo_change 1 ''ann'', e]\<rparr>"] by blast
qed

end
