(* ===== verification/Loadgen.thy ===== *)
theory Loadgen
  imports AggReplay
begin

text \<open>
  \<^verbatim>\<open>crates/loadgen/src/generator.rs\<close>: the synthetic workload and the ground truth it records. The
  random generator, the Zipf samplers, the clock and the fresh event ids are outside the repository:
  everything they yield for one event is a \<open>Draw\<close>.
\<close>

definition WIKIS :: "(string \<times> string) list" where
  "WIKIS = [(''wikipedia'', ''enwiki''), (''wikipedia'', ''knwiki''), (''wikipedia'', ''dewiki''),
     (''wikipedia'', ''frwiki''), (''wikipedia'', ''jawiki''), (''wiktionary'', ''enwiktionary''),
     (''wikidata'', ''wikidatawiki''), (''commons'', ''commonswiki'')]"

type_synonym truth_key = "datetime \<times> CellKey"
type_synonym truth_map = "(truth_key \<times> (u64 \<times> string set)) list"

record TruthCell =
  tc_key :: truth_key
  tc_events :: u64
  tc_users :: u64

record Draw =
  d_user_rank :: nat
  d_wiki :: nat
  d_late :: bool
  d_backdate :: nat
  d_now :: datetime
  d_namespace :: nat
  d_kind :: nat
  d_uuid :: uuid
  d_dup :: bool

text \<open>The exclusive upper end of the backdating range: two seconds short of the allowed lateness.\<close>

definition backdate_bound :: nat where
  "backdate_bound = max (nat (ALLOWED_LATENESS div 1000000000) - 2) 2"

definition gen_one :: "Draw \<Rightarrow> Event res" where
  "gen_one d =
     (let wiki_idx = min (if d_wiki d = 0 then 2 ^ 64 - 1 else d_wiki d - 1) (length WIKIS - 1)
      in if wiki_idx < length WIKIS then
           Inr \<lparr>event_id = d_uuid d, ev_user = ''loadgen-user-'' @ show_nat (d_user_rank d),
                ev_ts = (if d_late d then d_now d - seconds (int (d_backdate d)) else d_now d),
                ev_family = fst (WIKIS ! wiki_idx), ev_wiki = snd (WIKIS ! wiki_idx),
                ev_namespace = (if d_namespace d \<le> 6 then 0 else if d_namespace d \<le> 8 then 1 else 2),
                ev_kind = (if d_kind d \<le> 6 then Edit else if d_kind d = 7 then New
                           else if d_kind d = 8 then Log else Categorize),
                ev_is_bot = False\<rparr>
         else Inl IndexOutOfBounds)"

definition truth_step :: "string \<Rightarrow> (u64 \<times> string set) option \<Rightarrow> u64 \<times> string set" where
  "truth_step user entry = (case entry of None \<Rightarrow> (1, {user}) | Some (n, us) \<Rightarrow> (n + 1, insert user us))"

definition record_truth :: "trunc_fn \<Rightarrow> Event \<Rightarrow> truth_map \<Rightarrow> truth_map res" where
  "record_truth trunc event truth =
     (case window_start trunc (ev_ts event) of
        Inl p \<Rightarrow> Inl p
      | Inr w \<Rightarrow> Inr (fold (\<lambda>k. al_alter (w, k) (truth_step (ev_user event))) (cells_for_event event) truth))"

fun next_batch :: "trunc_fn \<Rightarrow> Draw list \<Rightarrow> truth_map \<Rightarrow> (truth_map \<times> Event list) res" where
  "next_batch trunc [] truth = Inr (truth, [])"
| "next_batch trunc (d # ds) truth =
     (case gen_one d of
        Inl p \<Rightarrow> Inl p
      | Inr event \<Rightarrow>
          (case record_truth trunc event truth of
             Inl p \<Rightarrow> Inl p
           | Inr truth' \<Rightarrow>
               (case next_batch trunc ds truth' of
                  Inl p \<Rightarrow> Inl p
                | Inr (truth'', out) \<Rightarrow> Inr (truth'', (if d_dup d then [event, event] else [event]) @ out))))"

definition into_truth :: "truth_map \<Rightarrow> TruthCell list" where
  "into_truth truth = map (\<lambda>(k, (n, us)). \<lparr>tc_key = k, tc_events = n, tc_users = of_nat (card us)\<rparr>) truth"

text \<open>The events of a window that contribute to a cell.\<close>

definition hits :: "truth_key \<Rightarrow> Event list \<Rightarrow> Event list" where
  "hits wk es = filter (\<lambda>e. wstart (ev_ts e) = fst wk \<and> snd wk \<in> set (cells_for_event e)) es"

definition draw_events :: "Draw list \<Rightarrow> Event list" where
  "draw_events ds = map (\<lambda>d. projr (gen_one d)) ds"

definition draw_ok :: "Draw \<Rightarrow> bool" where
  "draw_ok d \<longleftrightarrow> in_i64 (ev_ts (projr (gen_one d)))"

definition truth_of :: "truth_map \<Rightarrow> Event list \<Rightarrow> bool" where
  "truth_of truth es \<longleftrightarrow> al_inv truth \<and>
     (\<forall>wk. map_of truth wk = (if hits wk es = [] then None
        else Some (of_nat (length (hits wk es)), ev_user ` set (hits wk es))))"

section \<open>Ground truth\<close>

lemma gen_one_total: "\<exists>e. gen_one d = Inr e"
  by (simp add: gen_one_def Let_def WIKIS_def)

lemma map_of_record:
  "map_of (fold (\<lambda>k. al_alter (w, k) f) ks truth) (v, c) =
     (if v = w then fold (\<lambda>_ x. Some (f x)) (filter (\<lambda>k. k = c) ks) (map_of truth (v, c))
      else map_of truth (v, c))"
  by (induction ks arbitrary: truth) (auto simp: map_of_al_alter)

lemma al_inv_record: "al_inv truth \<Longrightarrow> al_inv (fold (\<lambda>k. al_alter (w, k) f) ks truth)"
  by (induction ks arbitrary: truth) (simp_all add: al_inv_alter)

lemma record_truth_snoc:
  assumes "duration_trunc_spec trunc" and "in_i64 (ev_ts e)" and "truth_of truth es"
  shows "\<exists>truth'. record_truth trunc e truth = Inr truth' \<and> truth_of truth' (es @ [e])"
proof -
  let ?t = "fold (\<lambda>k. al_alter (wstart (ev_ts e), k) (truth_step (ev_user e))) (cells_for_event e) truth"
  have r: "record_truth trunc e truth = Inr ?t" using assms(1,2) by (simp add: record_truth_def)
  have "map_of ?t wk = (if hits wk (es @ [e]) = [] then None
      else Some (of_nat (length (hits wk (es @ [e]))), ev_user ` set (hits wk (es @ [e]))))" for wk
  proof -
    obtain v c where wk: "wk = (v, c)" by (cases wk)
    have m: "map_of truth wk = (if hits wk es = [] then None
        else Some (of_nat (length (hits wk es)), ev_user ` set (hits wk es)))"
      using assms(3) unfolding truth_of_def by blast
    show ?thesis
    proof (cases "v = wstart (ev_ts e) \<and> c \<in> set (cells_for_event e)")
      case True
      then have h: "hits wk (es @ [e]) = hits wk es @ [e]" by (simp add: hits_def wk)
      have "map_of ?t wk = Some (truth_step (ev_user e) (map_of truth wk))"
        using True unfolding wk map_of_record by (simp add: filter_eq_distinct)
      then show ?thesis unfolding h m by (simp add: truth_step_def)
    next
      case False
      then have "hits wk (es @ [e]) = hits wk es" by (auto simp: hits_def wk)
      moreover have "map_of ?t wk = map_of truth wk"
        using False unfolding wk map_of_record by (auto simp: filter_eq_distinct)
      ultimately show ?thesis using m by simp
    qed
  qed
  moreover have "al_inv ?t" using assms(3) by (simp add: truth_of_def al_inv_record)
  ultimately show ?thesis using r by (auto simp: truth_of_def)
qed

lemma next_batch_truth:
  assumes "duration_trunc_spec trunc" and "list_all draw_ok ds" and "truth_of truth es"
  shows "\<exists>truth' out. next_batch trunc ds truth = Inr (truth', out) \<and> truth_of truth' (es @ draw_events ds) \<and>
    set out = set (draw_events ds) \<and> length (draw_events ds) \<le> length out"
  using assms(2,3)
proof (induction ds arbitrary: truth es)
  case Nil
  then show ?case by (simp add: draw_events_def)
next
  case (Cons d ds)
  obtain e where e: "gen_one d = Inr e" using gen_one_total by blast
  have "in_i64 (ev_ts e)" using Cons.prems(1) by (simp add: draw_ok_def e)
  from record_truth_snoc [OF assms(1) this Cons.prems(2)] obtain t1
    where t1: "record_truth trunc e truth = Inr t1" "truth_of t1 (es @ [e])" by blast
  from Cons.IH [OF _ t1(2)] Cons.prems(1) obtain t2 out
    where t2: "next_batch trunc ds t1 = Inr (t2, out)" "truth_of t2 ((es @ [e]) @ draw_events ds)"
      "set out = set (draw_events ds)" "length (draw_events ds) \<le> length out" by auto
  have "next_batch trunc (d # ds) truth = Inr (t2, (if d_dup d then [e, e] else [e]) @ out)"
    by (simp add: e t1(1) t2(1))
  with t2 show ?case by (auto simp: draw_events_def e)
qed

text \<open>Backdated events stay inside the lateness window.\<close>

lemma backdate_within_lateness:
  "d_backdate d < backdate_bound \<Longrightarrow> d_now d - ALLOWED_LATENESS < ev_ts (projr (gen_one d))"
  by (auto simp: gen_one_def Let_def WIKIS_def backdate_bound_def time_defs min_less_iff_disj)

end
