(* ===== verification/Reconcile.thy ===== *)
theory Reconcile
  imports Loadgen QueryDb
begin

text \<open>
  \<^verbatim>\<open>crates/reconcile/src/main.rs\<close>: comparing the recorded ground truth with the tables. Reading the
  truth file back is the identity on the cells the load generator wrote.
\<close>

type_synonym counts = "u64 \<times> u64"

definition expected_map :: "TruthCell list \<Rightarrow> (truth_key \<times> counts) list" where
  "expected_map cs = fold (\<lambda>c. al_put (tc_key c) (tc_events c, tc_users c)) cs []"

definition full_key :: "row \<Rightarrow> truth_key" where
  "full_key r = (row_window r, row_key r)"

definition summed_counts :: "truth_key \<times> AggRow list \<Rightarrow> query_error + (truth_key \<times> counts)" where
  "summed_counts g =
     (case sum_bigint (map col_events (snd g)) of
        Inl e \<Rightarrow> Inl e
      | Inr events \<Rightarrow>
          (case sum_bigint (map col_users (snd g)) of
             Inl e \<Rightarrow> Inl e
           | Inr users \<Rightarrow> Inr (fst g, (i64_as_u64 events, i64_as_u64 users))))"

definition actual_map :: "bool \<Rightarrow> Database \<Rightarrow> query_error + (truth_key \<times> counts) list" where
  "actual_map db_up db =
     (if db_up then
        map_sum id (\<lambda>rows. fold (\<lambda>(k, c). al_put k c) rows [])
          (map_res summed_counts (group_by full_key (agg_cells db)))
      else Inl (QueryFailed DbError))"

text \<open>The three counters, over the entries of the two maps.\<close>

definition mismatches :: "(truth_key \<times> counts) list \<Rightarrow> (truth_key \<times> counts) list \<Rightarrow> nat" where
  "mismatches ex ac = length (filter (\<lambda>(k, c). case map_of ac k of None \<Rightarrow> False | Some a \<Rightarrow> a \<noteq> c) ex)"

definition missing :: "(truth_key \<times> counts) list \<Rightarrow> (truth_key \<times> counts) list \<Rightarrow> nat" where
  "missing ex ac = length (filter (\<lambda>(k, c). map_of ac k = None) ex)"

definition unexpected :: "(truth_key \<times> counts) list \<Rightarrow> (truth_key \<times> counts) list \<Rightarrow> nat" where
  "unexpected ex ac = length (filter (\<lambda>(k, c). map_of ex k = None) ac)"

datatype verdict = Pass | Fail nat nat nat

definition reconcile :: "bool \<Rightarrow> TruthCell list \<Rightarrow> Database \<Rightarrow> query_error + verdict" where
  "reconcile db_up truth db =
     (case actual_map db_up db of
        Inl e \<Rightarrow> Inl e
      | Inr ac \<Rightarrow>
          (let ex = expected_map truth;
               mi = mismatches ex ac; ms = missing ex ac; un = unexpected ex ac
           in if mi = 0 \<and> ms = 0 \<and> un = 0 then Inr Pass else Inr (Fail mi ms un)))"

section \<open>What passing means\<close>

lemma missing_zero: "missing ex ac = 0 \<Longrightarrow> (k, c) \<in> set ex \<Longrightarrow> map_of ac k \<noteq> None"
  by (auto simp: missing_def filter_empty_conv)

lemma mismatches_zero: "mismatches ex ac = 0 \<Longrightarrow> (k, c) \<in> set ex \<Longrightarrow> map_of ac k = Some a \<Longrightarrow> a = c"
  by (fastforce simp: mismatches_def filter_empty_conv)

lemma map_of_map_snd: "map_of (map (\<lambda>(k, v). (k, f v)) xs) k = map_option f (map_of xs k)"
  by (induction xs) auto

lemma counters_zero_iff:
  assumes "al_inv ex" and "al_inv ac"
  shows "mismatches ex ac = 0 \<and> missing ex ac = 0 \<and> unexpected ex ac = 0 \<longleftrightarrow> map_of ex = map_of ac"
proof
  assume z: "mismatches ex ac = 0 \<and> missing ex ac = 0 \<and> unexpected ex ac = 0"
  have in_ex: "map_of ac k = Some c" if "map_of ex k = Some c" for k c
  proof -
    from missing_zero [OF _ map_of_SomeD [OF that]] z obtain a where a: "map_of ac k = Some a" by blast
    with mismatches_zero [OF _ map_of_SomeD [OF that] a] z show ?thesis by simp
  qed
  have "map_of ex k = map_of ac k" for k
  proof (cases "map_of ex k")
    case None
    then have "map_of ac k = None"
      using z by (cases "map_of ac k") (auto simp: unexpected_def filter_empty_conv dest: map_of_SomeD)
    with None show ?thesis by simp
  qed (simp add: in_ex)
  then show "map_of ex = map_of ac" by blast
next
  assume eq: "map_of ex = map_of ac"
  have "map_of ac k = Some c" if "(k, c) \<in> set ex" for k c
    using that assms(1) eq by (simp add: al_inv_def flip: eq)
  moreover have "map_of ex k = Some c" if "(k, c) \<in> set ac" for k c
    using that assms(2) eq by (simp add: al_inv_def)
  ultimately show "mismatches ex ac = 0 \<and> missing ex ac = 0 \<and> unexpected ex ac = 0"
    by (fastforce simp: mismatches_def missing_def unexpected_def filter_empty_conv)
qed

lemma fold_put_map_of:
  "distinct (map fst kvs) \<Longrightarrow> al_inv m \<Longrightarrow>
   map_of (fold (\<lambda>(k, c). al_put k c) kvs m) k = (case map_of kvs k of None \<Rightarrow> map_of m k | Some c \<Rightarrow> Some c) \<and>
   al_inv (fold (\<lambda>(k, c). al_put k c) kvs m)"
  using map_of_fold_put [of kvs m k] al_inv_fold_put [of m kvs] by (simp add: case_prod_unfold)

text \<open>The truth the load generator wrote, read back.\<close>

lemma expected_into_truth:
  assumes "truth_of truth es"
  shows "al_inv (expected_map (into_truth truth)) \<and>
    map_of (expected_map (into_truth truth)) wk =
      (if hits wk es = [] then None
       else Some (of_nat (length (hits wk es)), of_nat (card (ev_user ` set (hits wk es)))))"
proof -
  let ?f = "\<lambda>(n :: u64, us :: string set). (n, of_nat (card us) :: u64)"
  have inv: "al_inv truth" and m: "map_of truth wk = (if hits wk es = [] then None
      else Some (of_nat (length (hits wk es)), ev_user ` set (hits wk es)))"
    using assms unfolding truth_of_def by blast+
  have ex: "expected_map (into_truth truth) = fold (\<lambda>(k, c). al_put k c) (map (\<lambda>(k, v). (k, ?f v)) truth) []"
    by (simp add: expected_map_def into_truth_def fold_map comp_def case_prod_unfold)
  have d: "distinct (map fst (map (\<lambda>(k, v). (k, ?f v)) truth))"
    using inv by (simp add: al_inv_def comp_def case_prod_unfold)
  have "map_of (map (\<lambda>(k, v). (k, ?f v)) truth) wk = map_option ?f (map_of truth wk)"
    by (rule map_of_map_snd)
  with fold_put_map_of [OF d al_inv_Nil, of wk] m show ?thesis unfolding ex by (simp split: option.splits)
qed

lemma actual_map_lookup:
  assumes "\<And>wk rs. (wk, rs) \<in> set (group_by full_key (agg_cells db)) \<Longrightarrow>
      in_i64 (sum_list (map col_events rs)) \<and> in_i64 (sum_list (map col_users rs))"
  shows "\<exists>ac. actual_map True db = Inr ac \<and> al_inv ac \<and>
    (\<forall>w k. map_of ac (w, k) = (if cell_where db w k = [] then None
       else Some (i64_as_u64 (sum_list (map col_events (cell_where db w k))),
                  i64_as_u64 (sum_list (map col_users (cell_where db w k))))))"
proof -
  let ?g = "group_by full_key (agg_cells db)"
  let ?f = "\<lambda>rs. (i64_as_u64 (sum_list (map col_events rs)), i64_as_u64 (sum_list (map col_users rs)))"
  have s: "summed_counts x = Inr (fst x, ?f (snd x))" if "x \<in> set ?g" for x
    using assms [of "fst x" "snd x"] that by (simp add: summed_counts_def sum_bigint_def)
  have "map_res summed_counts xs = Inr (map (\<lambda>(k, rs). (k, ?f rs)) xs)" if "set xs \<subseteq> set ?g" for xs
    using that by (induction xs) (auto simp: s)
  then have r: "map_res summed_counts ?g = Inr (map (\<lambda>(k, rs). (k, ?f rs)) ?g)" by blast
  let ?kvs = "map (\<lambda>(k, rs). (k, ?f rs)) ?g"
  have d: "distinct (map fst ?kvs)"
    using al_inv_group_by [of full_key "agg_cells db"] by (simp add: al_inv_def comp_def case_prod_unfold)
  note lk = fold_put_map_of [OF d al_inv_Nil]
  have "map_of ?kvs (w, k) = (if cell_where db w k = [] then None else Some (?f (cell_where db w k)))" for w k
  proof -
    have "map_of ?kvs (w, k) = map_option ?f (map_of ?g (w, k))" by (rule map_of_map_snd)
    moreover have "filter (\<lambda>r. full_key r = (w, k)) (agg_cells db) =
        filter (\<lambda>r. row_window r = w \<and> row_key r = k) (agg_cells db)" by (simp add: full_key_def)
    ultimately show ?thesis
      by (auto simp: map_of_group_by cell_where_def full_key_def filter_empty_conv)
  qed
  with lk r show ?thesis by (simp add: actual_map_def split: option.splits)
qed

text \<open>The verdict passes exactly when the tables, summed over the partitions, and the recorded truth are
  the same map: every expected cell present with the same counts, and no other cell.\<close>

lemma reconcile_pass_iff:
  assumes "actual_map True db = Inr ac" and "al_inv ac"
  shows "reconcile True truth db = Inr Pass \<longleftrightarrow> map_of (expected_map truth) = map_of ac"
proof -
  have "al_inv (expected_map truth)"
    unfolding expected_map_def using al_inv_fold_put [of "[]" "map (\<lambda>c. (tc_key c, (tc_events c, tc_users c))) truth"]
    by (simp add: fold_map comp_def)
  from counters_zero_iff [OF this assms(2)] assms(1) show ?thesis
    by (simp add: reconcile_def Let_def)
qed

end
