(* ===== verification/LoadRun.thy ===== *)
theory LoadRun
  imports Reconcile
begin

text \<open>
  \<^verbatim>\<open>crates/loadgen/src/{config,main}.rs\<close>: the settings of a run, how many batches it sends, at which period, and
  the loop that generates them. Floating-point numbers are reals; the division by zero the code can
  perform is written out. The sends are in \<open>LoadSend\<close>.
\<close>

record LoadgenConfig =
  lc_gateway_url :: string
  lc_events_per_sec :: u64
  lc_duration_secs :: u64
  lc_num_users :: u64
  lc_zipf_exponent :: real
  lc_duplicate_rate :: real
  lc_late_rate :: real
  lc_seed :: u64
  lc_batch_size :: nat
  lc_truth_file :: string

definition total_events :: "LoadgenConfig \<Rightarrow> u64" where
  "total_events cfg = lc_events_per_sec cfg * lc_duration_secs cfg"

text \<open>\<open>(total as f64 / size as f64).ceil() as u64\<close>: \<open>x / 0\<close> is infinite and saturates, \<open>0 / 0\<close> is not a
  number and becomes zero. Over the reals: above \<open>2 ^ 53\<close> the rounding of \<open>f64\<close> may change the quotient.\<close>

definition batch_count :: "LoadgenConfig \<Rightarrow> nat" where
  "batch_count cfg =
     (if lc_batch_size cfg = 0 then (if total_events cfg = 0 then 0 else 2 ^ 64 - 1)
      else unat (f64_as_u64 \<lceil>real (unat (total_events cfg)) / real (lc_batch_size cfg)\<rceil>))"

text \<open>The period in seconds. \<open>Duration::from_secs_f64\<close> panics on infinities, on NaN and beyond 2^64
  seconds; \<open>tokio::time::interval\<close> panics on a period that rounds to zero nanoseconds.\<close>

definition batch_period :: "LoadgenConfig \<Rightarrow> real res" where
  "batch_period cfg =
     (if lc_events_per_sec cfg = 0 then
        Inl (PanicMessage ''cannot convert float seconds to Duration: value is either too big or NaN'')
      else
        (let p = real (lc_batch_size cfg) / real (unat (lc_events_per_sec cfg))
         in if 2 ^ 64 \<le> p then
              Inl (PanicMessage ''cannot convert float seconds to Duration: value is either too big or NaN'')
            else if p * 10 ^ 9 \<le> 1 / 2 then Inl (AssertionFailed ''`period` must be non-zero.'')
            else Inr p))"

text \<open>The loop of \<open>main\<close>: one call of \<open>next_batch\<close> per tick. The outer list holds what the random
  generator, the clock and the id generator yield for each batch.\<close>

fun generate_batches :: "trunc_fn \<Rightarrow> Draw list list \<Rightarrow> truth_map \<Rightarrow> (truth_map \<times> Event list list) res" where
  "generate_batches trunc [] truth = Inr (truth, [])"
| "generate_batches trunc (ds # dss) truth =
     (case next_batch trunc ds truth of
        Inl p \<Rightarrow> Inl p
      | Inr (truth', events) \<Rightarrow>
          (case generate_batches trunc dss truth' of
             Inl p \<Rightarrow> Inl p
           | Inr (truth'', outs) \<Rightarrow> Inr (truth'', events # outs)))"

text \<open>The whole program up to the truth file: the planned number of batches of the configured size.\<close>

definition loadgen_main :: "trunc_fn \<Rightarrow> LoadgenConfig \<Rightarrow> (nat \<Rightarrow> nat \<Rightarrow> Draw) \<Rightarrow> (TruthCell list \<times> Event list list) res" where
  "loadgen_main trunc cfg draw =
     (case batch_period cfg of
        Inl p \<Rightarrow> Inl p
      | Inr _ \<Rightarrow>
          map_sum id (map_prod into_truth id)
            (generate_batches trunc (map (\<lambda>i. map (draw i) [0..<lc_batch_size cfg]) [0..<batch_count cfg]) []))"

section \<open>The plan\<close>

lemma quotient_le: "1 \<le> b \<Longrightarrow> real t / real b \<le> real t"
  using divide_left_mono [of 1 "real b" "real t"] by simp

lemma batch_count_eq:
  assumes "0 < lc_batch_size cfg"
  shows "int (batch_count cfg) = \<lceil>real (unat (total_events cfg)) / real (lc_batch_size cfg)\<rceil>"
proof -
  let ?t = "real (unat (total_events cfg))" and ?b = "real (lc_batch_size cfg)"
  have "?t / ?b \<le> ?t" using assms by (intro quotient_le) simp
  then have "\<lceil>?t / ?b\<rceil> \<le> int (unat (total_events cfg))" by (simp add: ceiling_le_iff)
  moreover have "int (unat (total_events cfg)) \<le> 2 ^ 64 - 1" using uint_lt2p [of "total_events cfg"] by simp
  moreover have "0 \<le> \<lceil>?t / ?b\<rceil>" using divide_nonneg_nonneg [of ?t ?b] by linarith
  ultimately show ?thesis using assms by (simp add: batch_count_def unat_f64_as_u64)
qed

lemma batch_count_covers:
  assumes "0 < lc_batch_size cfg"
  shows "unat (total_events cfg) \<le> batch_count cfg * lc_batch_size cfg"
    "batch_count cfg * lc_batch_size cfg < unat (total_events cfg) + lc_batch_size cfg"
proof -
  let ?t = "real (unat (total_events cfg))" and ?b = "real (lc_batch_size cfg)"
  have b: "0 < ?b" using assms by simp
  have n: "real (batch_count cfg) = of_int \<lceil>?t / ?b\<rceil>" using batch_count_eq [OF assms] by (metis of_int_of_nat_eq)
  have "?t / ?b \<le> real (batch_count cfg)" unfolding n by simp
  then have "?t \<le> real (batch_count cfg) * ?b" using b by (simp add: pos_divide_le_eq)
  then show "unat (total_events cfg) \<le> batch_count cfg * lc_batch_size cfg"
    by (metis of_nat_le_iff of_nat_mult)
  have "real (batch_count cfg) < ?t / ?b + 1" unfolding n by linarith
  then have "real (batch_count cfg) * ?b < (?t / ?b + 1) * ?b" using b by (simp add: mult_strict_right_mono)
  also have "\<dots> = ?t + ?b" using b by (simp add: distrib_right)
  finally have "real (batch_count cfg * lc_batch_size cfg) < real (unat (total_events cfg) + lc_batch_size cfg)" by simp
  then show "batch_count cfg * lc_batch_size cfg < unat (total_events cfg) + lc_batch_size cfg"
    by (simp only: of_nat_less_iff)
qed

section \<open>The generated events\<close>

lemma next_batch_append:
  "next_batch trunc (ds @ es) truth =
     (case next_batch trunc ds truth of
        Inl p \<Rightarrow> Inl p
      | Inr (truth', out) \<Rightarrow>
          (case next_batch trunc es truth' of
             Inl p \<Rightarrow> Inl p
           | Inr (truth'', out') \<Rightarrow> Inr (truth'', out @ out')))"
  by (induction ds arbitrary: truth) (auto split: sum.splits prod.splits)

lemma generate_batches_concat:
  "next_batch trunc (concat dss) truth = map_sum id (map_prod id concat) (generate_batches trunc dss truth)"
  by (induction dss arbitrary: truth) (auto simp: next_batch_append split: sum.splits prod.splits)

lemma next_batch_length:
  "next_batch trunc ds truth = Inr (truth', out) \<Longrightarrow> length out = length ds + length (filter d_dup ds)"
  by (induction ds arbitrary: truth truth' out) (auto split: sum.splits prod.splits)

lemma generate_batches_all2:
  "generate_batches trunc dss truth = Inr (truth', outs) \<Longrightarrow>
     list_all2 (\<lambda>ds out. length out = length ds + length (filter d_dup ds)) dss outs"
  by (induction dss arbitrary: truth truth' outs)
    (auto split: sum.splits prod.splits dest: next_batch_length)

text \<open>The whole run over draws in the range of the clock: it ends, and its truth is that of all draws.\<close>

lemma generate_batches_truth:
  assumes "duration_trunc_spec trunc" and "list_all draw_ok (concat dss)"
  obtains truth outs where "generate_batches trunc dss [] = Inr (truth, outs)"
    "truth_of truth (draw_events (concat dss))" "set (concat outs) = set (draw_events (concat dss))"
proof -
  have "truth_of [] []" by (simp add: truth_of_def hits_def)
  from next_batch_truth [OF assms this] obtain truth out
    where nb: "next_batch trunc (concat dss) [] = Inr (truth, out)"
      and t: "truth_of truth (draw_events (concat dss))" "set out = set (draw_events (concat dss))" by auto
  then obtain outs where "generate_batches trunc dss [] = Inr (truth, outs)" "out = concat outs"
    unfolding generate_batches_concat by (cases "generate_batches trunc dss []") auto
  with t that show ?thesis by blast
qed

text \<open>The run does not panic, every batch holds the configured number of fresh events plus its duplicates,
  and together they are at least the configured number of events and exceed it by less than one batch.\<close>

lemma loadgen_plan:
  assumes "0 < lc_batch_size cfg" and "0 < lc_events_per_sec cfg"
    and "unat (lc_events_per_sec cfg) * unat (lc_duration_secs cfg) < 2 ^ 64"
    and "unat (lc_events_per_sec cfg) \<le> lc_batch_size cfg * 10 ^ 9" and "lc_batch_size cfg < 2 ^ 64"
    and "duration_trunc_spec trunc" and "\<forall>i j. draw_ok (draw i j)"
  shows "\<exists>truth outs es. loadgen_main trunc cfg draw = Inr (into_truth truth, outs) \<and>
    truth_of truth es \<and> set es = set (concat outs) \<and>
    unat (lc_events_per_sec cfg) * unat (lc_duration_secs cfg) \<le> length es \<and>
    length es < unat (lc_events_per_sec cfg) * unat (lc_duration_secs cfg) + lc_batch_size cfg \<and>
    list_all (\<lambda>out. lc_batch_size cfg \<le> length out \<and> length out \<le> 2 * lc_batch_size cfg) outs"
proof -
  let ?dss = "map (\<lambda>i. map (draw i) [0..<lc_batch_size cfg]) [0..<batch_count cfg]"
  let ?eps = "unat (lc_events_per_sec cfg)" and ?b = "lc_batch_size cfg"
  have eps: "0 < ?eps" using assms(2) by (simp add: unat_gt_0)
  have period: "\<exists>p. batch_period cfg = Inr p"
  proof -
    have "real ?b / real ?eps \<le> real ?b" using eps by (intro quotient_le) simp
    also have "real ?b < 2 ^ 64" using assms(5) by (metis of_nat_less_iff of_nat_numeral of_nat_power)
    finally have "real ?b / real ?eps < 2 ^ 64" .
    moreover have "1 / 2 < real ?b / real ?eps * 10 ^ 9"
    proof -
      have "real ?eps \<le> real (?b * 10 ^ 9)" using assms(4) by (rule of_nat_mono)
      then have "1 \<le> real ?b * 10 ^ 9 / real ?eps" using eps by (simp only: le_divide_eq_1_pos of_nat_0_less_iff) simp
      then show ?thesis by simp
    qed
    ultimately show ?thesis using assms(2) by (simp add: batch_period_def Let_def word_gt_0 not_le not_less)
  qed
  have "list_all draw_ok (concat ?dss)" using assms(7) by (auto simp: list_all_iff)
  from generate_batches_truth [OF assms(6) this] obtain truth outs
    where g: "generate_batches trunc ?dss [] = Inr (truth, outs)"
      and t: "truth_of truth (draw_events (concat ?dss))" "set (concat outs) = set (draw_events (concat ?dss))" .
  have len: "length (draw_events (concat ?dss)) = batch_count cfg * ?b"
    by (simp add: draw_events_def length_concat comp_def sum_list_triv)
  have tot: "unat (total_events cfg) = ?eps * unat (lc_duration_secs cfg)"
    using assms(3) by (simp add: total_events_def unat_mult_lem [THEN iffD1])
  have "?b \<le> length out \<and> length out \<le> 2 * ?b" if "out \<in> set outs" for out
  proof -
    from list_all2_origin [OF generate_batches_all2 [OF g] that] obtain ds
      where "ds \<in> set ?dss" "length out = length ds + length (filter d_dup ds)" by blast
    moreover from this(1) have "length ds = ?b" by auto
    moreover have "length (filter d_dup ds) \<le> length ds" by simp
    ultimately show ?thesis by simp
  qed
  moreover have "loadgen_main trunc cfg draw = Inr (into_truth truth, outs)"
    using period g by (auto simp: loadgen_main_def)
  ultimately show ?thesis using t batch_count_covers [OF assms(1)] unfolding tot
    by (intro exI [of _ truth] exI [of _ outs] exI [of _ "draw_events (concat ?dss)"]) (simp add: len list_all_iff)
qed

end
