(* ===== verification/EndToEnd.thy ===== *)
theory EndToEnd
  imports Orderly QueryApi WikiSource LoadRun
begin

text \<open>
  From the load generator to the reconciliation: the generated events pass the gateway (which replaces
  the user by a pseudonym), land in the partitions of the topic in any order and possibly repeatedly,
  are aggregated and flushed by the workers, and the tables are compared with the recorded truth. This
  theory relates the totals at the two ends.
\<close>

definition pseud_event :: "crypto \<Rightarrow> string \<Rightarrow> Event \<Rightarrow> Event" where
  "pseud_event lib salt e = e\<lparr>ev_user := pseudonymize lib salt (ev_user e)\<rparr>"

text \<open>What Kafka holds for a set of events: each partition's log has, in some order and with possible
  repetitions, exactly the events whose key the partitioner sends there.\<close>

definition topic_holds :: "(string \<Rightarrow> i32) \<Rightarrow> (i32 \<Rightarrow> logrec list) \<Rightarrow> i32 set \<Rightarrow> Event set \<Rightarrow> bool" where
  "topic_holds part lg ps es \<longleftrightarrow>
     (\<forall>p. log_ok (lg p) \<and> snd ` set (lg p) = {e \<in> es. part (ev_user e) = p}) \<and> (part \<circ> ev_user) ` es \<subseteq> ps"

definition empty_db :: Database where
  "empty_db = \<lparr>agg_cells = [], partition_progress = []\<rparr>"

text \<open>The events of a set that count for a cell in a window.\<close>

definition hit_set :: "truth_key \<Rightarrow> Event set \<Rightarrow> Event set" where
  "hit_set wk es = {e \<in> es. wstart (ev_ts e) = fst wk \<and> snd wk \<in> set (cells_for_event e)}"

section \<open>Totals of a log whose event ids identify events\<close>

lemma dedup_ids: "distinct (map (event_id \<circ> snd) (dedup seen rs)) \<and>
    set (map (event_id \<circ> snd) (dedup seen rs)) = (event_id \<circ> snd) ` set rs - seen"
  by (induction seen rs rule: dedup.induct) auto

lemma dedup_events:
  assumes "inj_on event_id (snd ` set rs)"
  shows "snd ` set (dedup {} rs) = snd ` set rs"
proof
  show "snd ` set (dedup {} rs) \<subseteq> snd ` set rs" using dedup_subset by blast
  show "snd ` set rs \<subseteq> snd ` set (dedup {} rs)"
  proof
    fix e assume e: "e \<in> snd ` set rs"
    then have "event_id e \<in> set (map (event_id \<circ> snd) (dedup {} rs))"
      using dedup_ids [of "{}" rs] by auto
    then obtain r where r: "r \<in> set (dedup {} rs)" "event_id (snd r) = event_id e" by auto
    with dedup_subset have "snd r \<in> snd ` set rs" by blast
    with r e assms have "snd r = e" by (auto dest: inj_onD)
    with r(1) show "e \<in> snd ` set (dedup {} rs)" by blast
  qed
qed

lemma snd_filter: "snd ` set (filter (\<lambda>r. P (snd r)) xs) = {e \<in> snd ` set xs. P e}"
  by auto

lemma in_window_snd: "snd ` set (in_window w rs) = {e \<in> snd ` set rs. wstart (ev_ts e) = w}"
  by (auto simp: in_window_def rec_window_def)

lemma contributing_set:
  assumes "inj_on event_id (snd ` set rs)"
  shows "snd ` set (contributing k (in_window w rs)) = hit_set (w, k) (snd ` set rs)"
    "length (contributing k (in_window w rs)) = card (hit_set (w, k) (snd ` set rs))"
proof -
  let ?ws = "in_window w rs"
  have inj: "inj_on event_id (snd ` set ?ws)"
    using assms by (rule inj_on_subset) (auto simp: in_window_def)
  show set: "snd ` set (contributing k ?ws) = hit_set (w, k) (snd ` set rs)"
    unfolding contributing_def snd_filter [where P = "\<lambda>e. k \<in> set (cells_for_event e)"]
      dedup_events [OF inj] in_window_snd
    by (auto simp: hit_set_def)
  have "distinct (map (event_id \<circ> snd) (contributing k ?ws))"
    using dedup_ids [of "{}" ?ws] unfolding contributing_def by (simp add: distinct_map_filter)
  then have "distinct (map snd (contributing k ?ws))"
    by (simp add: distinct_map comp_def inj_on_def)
  then have "length (contributing k ?ws) = card (snd ` set (contributing k ?ws))"
    using distinct_card [of "map snd (contributing k ?ws)"] by simp
  then show "length (contributing k ?ws) = card (hit_set (w, k) (snd ` set rs))" by (simp add: set)
qed

lemma true_totals_of_set:
  assumes "inj_on event_id (snd ` set rs)"
  shows "true_events k (in_window w rs) = card (hit_set (w, k) (snd ` set rs))"
    "true_users k (in_window w rs) = ev_user ` hit_set (w, k) (snd ` set rs)"
proof -
  show "true_events k (in_window w rs) = card (hit_set (w, k) (snd ` set rs))"
    by (simp add: true_events_def contributing_set(2) [OF assms])
  show "true_users k (in_window w rs) = ev_user ` hit_set (w, k) (snd ` set rs)"
    unfolding true_users_def contributing_set(1) [OF assms, symmetric] by (simp add: image_comp comp_def)
qed

section \<open>Flushing every partition\<close>

lemma write_batch_lookup:
  assumes "closed_ok (b_closed b)"
  shows "map_of (agg_cells (write_batch db_up b db)) (w, k, q) =
    (if db_up \<and> q = b_partition b then
       (case map_of (b_closed b) w of
          None \<Rightarrow> map_of (agg_cells db) (w, k, q)
        | Some win \<Rightarrow> (case map_of (cells win) k of None \<Rightarrow> map_of (agg_cells db) (w, k, q)
                                                   | Some a \<Rightarrow> Some (row_of a)))
     else map_of (agg_cells db) (w, k, q))"
  using flush_lookup [OF assms] by (cases db_up) (simp_all add: write_batch_def flush_failed)

section \<open>Both ends agree\<close>

lemma pseud_event_fields [simp]:
  "event_id (pseud_event lib salt e) = event_id e" "ev_ts (pseud_event lib salt e) = ev_ts e"
  "cells_for_event (pseud_event lib salt e) = cells_for_event e"
  "ev_user (pseud_event lib salt e) = pseudonymize lib salt (ev_user e)"
  by (simp_all add: pseud_event_def cells_for_event_def)

lemma hit_set_image: "hit_set wk (pseud_event lib salt ` S) = pseud_event lib salt ` hit_set wk S"
  by (auto simp: hit_set_def)

lemma draw_ids:
  assumes "distinct (map d_uuid ds)"
  shows "distinct (draw_events ds)" "inj_on event_id (set (draw_events ds))"
proof -
  have "event_id (projr (gen_one d)) = d_uuid d" for d
    by (auto simp: gen_one_def Let_def WIKIS_def min_less_iff_disj)
  then have "map event_id (draw_events ds) = map d_uuid ds" by (simp add: draw_events_def)
  with assms have "distinct (map event_id (draw_events ds))" by simp
  then show "distinct (draw_events ds)" "inj_on event_id (set (draw_events ds))" by (simp_all add: distinct_map)
qed

lemma hits_card: "distinct es \<Longrightarrow> length (hits wk es) = card (hit_set wk (set es)) \<and> set (hits wk es) = hit_set wk (set es)"
proof -
  assume "distinct es"
  then have "distinct (hits wk es)" by (simp add: hits_def)
  then have "length (hits wk es) = card (set (hits wk es))" by (rule distinct_card [symmetric])
  moreover have "set (hits wk es) = hit_set wk (set es)" by (auto simp: hits_def hit_set_def)
  ultimately show ?thesis by simp
qed

lemma no_cell_when_zero:
  "build_window hll_on rs = Some win \<Longrightarrow> true_events k rs = 0 \<Longrightarrow> map_of (cells win) k = None"
  using cell_matches_built [of hll_on rs win k] by (cases "map_of (cells win) k") (simp_all add: cell_matches_def)

text \<open>The table after an orderly run, for a window every partition with records in it has flushed.\<close>

lemma orderly_topic_rows:
  assumes "orderly_run decode trunc hll_on raw \<sigma>" and "duration_trunc_spec trunc" and "\<And>p. raw_ok decode (raw p)"
    and "\<And>p. within_lateness (decoded_log decode (raw p))" and "topic_holds part (\<lambda>p. decoded_log decode (raw p)) ps es"
    and "\<And>p. in_window w (decoded_log decode (raw p)) \<noteq> [] \<Longrightarrow>
      \<exists>pp. map_of (partition_progress (sys_db \<sigma>)) p = Some pp \<and> window_end w \<le> pp_flushed_watermark pp"
  shows "map_of (agg_cells (sys_db \<sigma>)) (w, k, p) = (if p \<in> ps then full_row hll_on (decoded_log decode (raw p)) w k else None)"
proof (cases "p \<in> ps")
  case False
  have "snd ` set (decoded_log decode (raw p)) = {e \<in> es. part (ev_user e) = p}" and sub: "(part \<circ> ev_user) ` es \<subseteq> ps"
    using assms(5) unfolding topic_holds_def by blast+
  moreover have "{e \<in> es. part (ev_user e) = p} = {}" using sub False by auto
  ultimately have "decoded_log decode (raw p) = []" by simp
  with orderly_window_rows [OF assms(1-4,6)] False show ?thesis by (simp add: full_row_def)
qed (simp add: orderly_window_rows [OF assms(1-4,6)])

text \<open>The rows of one cell over all partitions.\<close>

lemma flushed_rows_by_partition:
  assumes "\<And>p. map_of (agg_cells db) (w, k, p) = (if p \<in> ps then full_row hll_on (lg p) w k else None)"
    and "al_inv (agg_cells db)" and "\<And>p. log_ok (lg p)"
  shows "rows_by_partition db w k ps (\<lambda>p. true_events k (in_window w (lg p))) (\<lambda>p. true_users k (in_window w (lg p)))"
proof -
  have zero: "true_users k rs = {}" if "true_events k rs = 0" for rs
    using that by (simp add: true_events_def true_users_def)
  have "case map_of (agg_cells db) (w, k, p) of
      None \<Rightarrow> p \<in> ps \<longrightarrow> true_events k (in_window w (lg p)) = 0 \<and> true_users k (in_window w (lg p)) = {}
    | Some row \<Rightarrow> p \<in> ps \<and> col_events row = int (true_events k (in_window w (lg p))) \<and>
        col_users row = int (card (true_users k (in_window w (lg p))))" for p
  proof (cases "p \<in> ps")
    case True
    let ?rs = "in_window w (lg p)"
    have len: "length ?rs < 2 ^ 63"
      using log_length [OF assms(3), of p] length_filter_le [of _ "lg p"] unfolding in_window_def
      by (rule le_less_trans [rotated])
    show ?thesis
    proof (cases "build_window hll_on ?rs")
      case None
      then have "?rs = []" by (simp add: build_window_Some)
      then have "true_events k ?rs = 0" by (simp add: true_events_def contributing_def)
      with zero None True show ?thesis by (simp add: assms(1) full_row_def)
    next
      case (Some win)
      show ?thesis
      proof (cases "map_of (cells win) k")
        case None
        then have "true_events k ?rs = 0" using cell_matches_built [OF Some, of k] by (simp add: cell_matches_def)
        with zero None Some True show ?thesis by (simp add: assms(1) full_row_def)
      next
        case (Some a)
        with row_counts_of_records [OF len \<open>build_window hll_on ?rs = Some win\<close> Some] True
          \<open>build_window hll_on ?rs = Some win\<close>
        show ?thesis by (simp add: assms(1) full_row_def row_counts_def)
      qed
    qed
  qed (simp add: assms(1) full_row_def)
  with assms(2) show ?thesis by (simp add: rows_by_partition_def)
qed

text \<open>A set of records under pseudonyms, and the events they stand for.\<close>

lemma pseud_hits:
  assumes "inj_on event_id es" and "inj_on (pseudonymize lib salt) (ev_user ` es)" and "S \<subseteq> es"
  shows "card (hit_set wk (pseud_event lib salt ` S)) = card (hit_set wk S)"
    "card (ev_user ` hit_set wk (pseud_event lib salt ` S)) = card (ev_user ` hit_set wk S)"
proof -
  have "inj_on (pseud_event lib salt) es"
  proof (rule inj_onI)
    fix x y assume xy: "x \<in> es" "y \<in> es" "pseud_event lib salt x = pseud_event lib salt y"
    then have "event_id (pseud_event lib salt x) = event_id (pseud_event lib salt y)" by simp
    with xy(1,2) assms(1) show "x = y" by (simp add: inj_on_eq_iff)
  qed
  moreover have sub: "hit_set wk S \<subseteq> es" using assms(3) by (auto simp: hit_set_def)
  ultimately show "card (hit_set wk (pseud_event lib salt ` S)) = card (hit_set wk S)"
    unfolding hit_set_image by (intro card_image) (rule inj_on_subset)
  have "ev_user ` hit_set wk (pseud_event lib salt ` S) = pseudonymize lib salt ` ev_user ` hit_set wk S"
    by (simp add: hit_set_image image_image)
  then show "card (ev_user ` hit_set wk (pseud_event lib salt ` S)) = card (ev_user ` hit_set wk S)"
    using inj_on_subset [OF assms(2) image_mono [OF sub]] by (simp add: card_image)
qed

text \<open>Partitioned totals add up to the totals of all events, under the pseudonyms.\<close>

lemma partition_totals:
  assumes "topic_holds part lg ps (pseud_event lib salt ` S)" and "finite S" and "finite ps"
    and "inj_on event_id S" and "inj_on (pseudonymize lib salt) (ev_user ` S)"
  shows "(\<Sum>p \<in> ps. true_events k (in_window w (lg p))) = card (hit_set (w, k) S)"
    "card (\<Union>p \<in> ps. true_users k (in_window w (lg p))) = card (ev_user ` hit_set (w, k) S)"
    "p \<noteq> q \<Longrightarrow> true_users k (in_window w (lg p)) \<inter> true_users k (in_window w (lg q)) = {}"
proof -
  let ?F = "pseud_event lib salt" and ?P = "\<lambda>p. {e \<in> pseud_event lib salt ` S. part (ev_user e) = p}"
  have lg: "snd ` set (lg p) = ?P p" for p using assms(1) by (simp add: topic_holds_def)
  have cover: "(part \<circ> ev_user) ` ?F ` S \<subseteq> ps" using assms(1) by (simp add: topic_holds_def)
  have "inj_on event_id (?F ` S)" using assms(4) by (auto simp: inj_on_def)
  then have inj: "inj_on event_id (snd ` set (lg p))" for p
    unfolding lg by (rule inj_on_subset) auto
  have ev: "true_events k (in_window w (lg p)) = card (hit_set (w, k) (?P p))"
    and us: "true_users k (in_window w (lg p)) = ev_user ` hit_set (w, k) (?P p)" for p
    using true_totals_of_set [OF inj] lg by simp_all
  have un: "(\<Union>p \<in> ps. hit_set (w, k) (?P p)) = hit_set (w, k) (?F ` S)"
    using cover by (auto simp: hit_set_def)
  have fin: "finite (hit_set (w, k) (?P p))" for p using assms(2) by (simp add: hit_set_def)
  have "(\<Sum>p \<in> ps. card (hit_set (w, k) (?P p))) = card (hit_set (w, k) (?F ` S))"
    unfolding un [symmetric] using assms(3) fin by (intro card_UN_disjoint [symmetric]) (auto simp: hit_set_def)
  also have "\<dots> = card (hit_set (w, k) S)" by (rule pseud_hits [OF assms(4,5) order_refl])
  finally show "(\<Sum>p \<in> ps. true_events k (in_window w (lg p))) = card (hit_set (w, k) S)" by (simp add: ev)
  have "(\<Union>p \<in> ps. true_users k (in_window w (lg p))) = ev_user ` hit_set (w, k) (?F ` S)"
    unfolding us un [symmetric] by blast
  then show "card (\<Union>p \<in> ps. true_users k (in_window w (lg p))) = card (ev_user ` hit_set (w, k) S)"
    using pseud_hits(2) [OF assms(4,5) order_refl] by simp
  show "p \<noteq> q \<Longrightarrow> true_users k (in_window w (lg p)) \<inter> true_users k (in_window w (lg q)) = {}"
    unfolding us by (auto simp: hit_set_def)
qed

lemma write_batches_db_ok: "db_ok db \<Longrightarrow> db_ok (fold (\<lambda>b. write_batch (up b) b) bs db)"
  by (induction bs arbitrary: db) (simp_all add: write_batch_def flush_db_ok)

lemma flush_iteration_db_ok: "db_ok db \<Longrightarrow> db_ok (snd (flush_iteration up (sts, db)))"
  by (simp add: flush_iteration_def case_prod_unfold Let_def write_batches_db_ok)

text \<open>Reconciliation of tables that hold, per cell, what the events say.\<close>

lemma reconcile_agrees:
  assumes "\<And>w k. rows_by_partition db w k ps (ev w k) (us w k)" and "finite ps"
    and "\<And>w k. sum (ev w k) ps = length (hits (w, k) es)"
    and "\<And>w k. sum (\<lambda>p. card (us w k p)) ps = card (ev_user ` set (hits (w, k) es))"
    and "\<And>w k p. p \<in> ps \<Longrightarrow> ev w k p = 0 \<Longrightarrow> map_of (agg_cells db) (w, k, p) = None"
    and "truth_of truth es" and "length es < 2 ^ 63"
  shows "reconcile True (into_truth truth) db = Inr Pass"
proof -
  have inv: "al_inv (agg_cells db)" using assms(1) by (simp add: rows_by_partition_def)
  have evs: "sum_list (map col_events (cell_where db w k)) = int (length (hits (w, k) es))" for w k
    unfolding assms(3) [symmetric]
    by (rule sum_rows [OF assms(1,2)]) (use rows_by_partitionD [OF assms(1)] in blast)+
  have uss: "sum_list (map col_users (cell_where db w k)) = int (card (ev_user ` set (hits (w, k) es)))" for w k
    unfolding assms(4) [symmetric]
    by (rule sum_rows [OF assms(1,2)]) (use rows_by_partitionD [OF assms(1)] in auto)
  have le: "length (hits wk es) < 2 ^ 63" "card (ev_user ` set (hits wk es)) < 2 ^ 63" for wk
  proof -
    show l: "length (hits wk es) < 2 ^ 63"
      unfolding hits_def using length_filter_le [of _ es] assms(7) by (rule le_less_trans)
    have "card (ev_user ` set (hits wk es)) \<le> length (hits wk es)"
      using card_image_le [of "set (hits wk es)" ev_user] card_length [of "hits wk es"] by simp
    with l show "card (ev_user ` set (hits wk es)) < 2 ^ 63" by linarith
  qed
  have range: "in_i64 (sum_list (map col_events (cell_where db w k))) \<and> in_i64 (sum_list (map col_users (cell_where db w k)))" for w k
    unfolding evs uss in_i64_def using le [of "(w, k)"] by simp
  have small: "in_i64 (sum_list (map col_events rs)) \<and> in_i64 (sum_list (map col_users rs))"
    if g: "(wk, rs) \<in> set (group_by full_key (agg_cells db))" for wk rs
  proof -
    have "map_of (group_by full_key (agg_cells db)) wk = Some rs"
      using g al_inv_group_by [of full_key "agg_cells db"] by (simp add: al_inv_def)
    then have "rs = cell_where db (fst wk) (snd wk)"
      by (auto simp: map_of_group_by cell_where_def full_key_def prod_eq_iff split: if_splits)
    then show ?thesis using range by simp
  qed
  from actual_map_lookup [of db] small obtain ac where ac: "actual_map True db = Inr ac" "al_inv ac"
    and lk: "\<And>w k. map_of ac (w, k) = (if cell_where db w k = [] then None
       else Some (i64_as_u64 (sum_list (map col_events (cell_where db w k))),
                  i64_as_u64 (sum_list (map col_users (cell_where db w k)))))" by blast
  have empty: "cell_where db w k = [] \<longleftrightarrow> hits (w, k) es = []" for w k
  proof
    assume "cell_where db w k = []"
    with evs [of w k] show "hits (w, k) es = []" by simp
  next
    assume "hits (w, k) es = []"
    then have z: "sum (ev w k) ps = 0" by (simp add: assms(3))
    show "cell_where db w k = []"
    proof (rule ccontr)
      assume "cell_where db w k \<noteq> []"
      then obtain r where "r \<in> set (filter (\<lambda>r. row_window r = w \<and> row_key r = k) (agg_cells db))"
        by (auto simp: cell_where_def filter_empty_conv)
      then have m: "map_of (agg_cells db) (w, k, row_partition r) = Some (snd r)"
        using cell_rows_partitions(2) [OF inv] by blast
      with rows_by_partitionD(1) [OF assms(1)] have p: "row_partition r \<in> ps" by blast
      with z assms(2) have "ev w k (row_partition r) = 0" by simp
      from assms(5) [OF p this] m show False by simp
    qed
  qed
  have "map_of (expected_map (into_truth truth)) (w, k) = map_of ac (w, k)" for w k
    using expected_into_truth [OF assms(6), of "(w, k)"] by (simp add: lk empty evs uss i64_as_u64_int)
  then have "map_of (expected_map (into_truth truth)) = map_of ac" by (auto simp: fun_eq_iff)
  with reconcile_pass_iff [OF ac] show ?thesis by simp
qed

section \<open>A concrete workload\<close>

definition demo_draw :: "uuid \<Rightarrow> nat \<Rightarrow> bool \<Rightarrow> Draw" where
  "demo_draw i u dup = \<lparr>d_user_rank = u, d_wiki = 1, d_late = False, d_backdate = 1, d_now = seconds 6000,
     d_namespace = 0, d_kind = 0, d_uuid = i, d_dup = dup\<rparr>"

lemma demo_pseudonymize: "pseudonymize demo_crypto salt u = salt @ u"
  by (simp add: pseudonymize_def demo_crypto_def comp_def unsigned_of_nat char_of_take_bit_eq)

lemma demo_event_of_draw:
  "gen_one (demo_draw i u dup) = Inr \<lparr>event_id = i, ev_user = ''loadgen-user-'' @ show_nat u, ev_ts = seconds 6000,
     ev_family = ''wikipedia'', ev_wiki = ''enwiki'', ev_namespace = 0, ev_kind = Edit, ev_is_bot = False\<rparr>"
  by (simp add: gen_one_def demo_draw_def WIKIS_def)

end
