(* ===== verification/Ingest.thy ===== *)
theory Ingest
  imports EndToEnd
begin

text \<open>
  The ingest gateway as it runs (\<^verbatim>\<open>ingest-gateway/src/{main,handlers,producer}.rs\<close>): request handlers
  that validate a batch and then queue it event by event, the producer loop that takes messages from
  the channel and spawns their sends, and the topic those sends append to. Handlers, loop and sends
  interleave freely, one action per step, so the messages of two batches may mix in the channel and
  in the topic. Outside the repository, and so arguments: the tokio channel (\<open>try_send\<close>, \<open>recv\<close>) and
  librdkafka's partitioner (\<open>part\<close>); a send either appends its record to the partition of its key,
  under a larger offset than every record already there (rule \<open>stored\<close>, whether or not the broker's
  acknowledgement arrives), or fails without storing it (\<open>send_failed\<close>). A crash of the gateway ends
  the run.
\<close>

record 'ch Ingest =
  ig_gw :: "'ch GatewayState"
  ig_handlers :: "(Event list \<times> Event list) multiset"
  ig_inflight :: "QueuedMessage multiset"
  ig_topic :: "(i32 \<times> i64 \<times> QueuedMessage) list"
  ig_answers :: "(Event list \<times> ingest_response) list"
  ig_queued :: "Event list"
  ig_failed :: "QueuedMessage multiset"

text \<open>\<open>ig_handlers\<close> holds for each running request its batch and what it still has to queue;
  \<open>ig_answers\<close> what each finished request was answered; \<open>ig_queued\<close> the events that entered the
  channel, in order; \<open>ig_failed\<close> the messages whose send failed without storing them.\<close>

text \<open>The checks before the queueing loop, and one round of it.\<close>

definition admit :: "crypto \<Rightarrow> datetime \<Rightarrow> 'ch GatewayState \<Rightarrow> Event list \<Rightarrow> ingest_response option" where
  "admit lib now st events =
     (if events = [] then Some (gateway_bad_request ''event batch must not be empty'')
      else if length events > gs_max_batch_events st then
        Some (gateway_bad_request (''batch of '' @ show_nat (length events) @
               '' events exceeds max of '' @ show_nat (gs_max_batch_events st)))
      else map_option (\<lambda>e. gateway_bad_request (show_error lib e)) (first_error now events))"

definition channel_full :: ingest_response where
  "channel_full = Reject 503 [(''Retry-After'', ''1'')] ''ingest channel full, retry shortly''"

definition ingest_init :: "'ch GatewayState \<Rightarrow> 'ch Ingest" where
  "ingest_init gw = \<lparr>ig_gw = gw, ig_handlers = {#}, ig_inflight = {#}, ig_topic = [], ig_answers = [],
     ig_queued = [], ig_failed = {#}\<rparr>"

text \<open>The offset Kafka gives a record: beyond those of its partition.\<close>

definition fresh_offset :: "(i32 \<times> i64 \<times> QueuedMessage) list \<Rightarrow> i32 \<Rightarrow> i64 \<Rightarrow> bool" where
  "fresh_offset topic p off \<longleftrightarrow> 0 \<le> off \<and> off < 2 ^ 63 - 1 \<and> list_all (\<lambda>(q, o', _). q = p \<longrightarrow> o' < off) topic"

inductive ingest_step ::
  "crypto \<Rightarrow> ('ch \<Rightarrow> QueuedMessage \<Rightarrow> TrySendError + 'ch) \<Rightarrow> ('ch \<Rightarrow> (QueuedMessage \<times> 'ch) option) \<Rightarrow>
     (string \<Rightarrow> i32) \<Rightarrow> 'ch Ingest \<Rightarrow> 'ch Ingest \<Rightarrow> bool"
  for lib try_send recv part where
  rejected: "admit lib now (ig_gw s) b = Some resp \<Longrightarrow>
    ingest_step lib try_send recv part s (s\<lparr>ig_answers := ig_answers s @ [(b, resp)]\<rparr>)"
| admitted: "admit lib now (ig_gw s) b = None \<Longrightarrow>
    ingest_step lib try_send recv part s (s\<lparr>ig_handlers := add_mset (b, b) (ig_handlers s)\<rparr>)"
| queued: "(b, e # es) \<in># ig_handlers s \<Longrightarrow>
    try_send (gs_tx (ig_gw s)) (pseudonymize_and_serialize lib (gs_salt (ig_gw s)) e) = Inr ch \<Longrightarrow>
    ingest_step lib try_send recv part s (s\<lparr>ig_gw := (ig_gw s)\<lparr>gs_tx := ch\<rparr>,
      ig_handlers := add_mset (b, es) (ig_handlers s - {#(b, e # es)#}), ig_queued := ig_queued s @ [e]\<rparr>)"
| full: "(b, e # es) \<in># ig_handlers s \<Longrightarrow>
    try_send (gs_tx (ig_gw s)) (pseudonymize_and_serialize lib (gs_salt (ig_gw s)) e) = Inl Full \<Longrightarrow>
    ingest_step lib try_send recv part s (s\<lparr>ig_handlers := ig_handlers s - {#(b, e # es)#},
      ig_answers := ig_answers s @ [(b, channel_full)]\<rparr>)"
| receiver_gone: "(b, e # es) \<in># ig_handlers s \<Longrightarrow>
    try_send (gs_tx (ig_gw s)) (pseudonymize_and_serialize lib (gs_salt (ig_gw s)) e) = Inl Closed \<Longrightarrow>
    ingest_step lib try_send recv part s
      (s\<lparr>ig_handlers := add_mset (b, es) (ig_handlers s - {#(b, e # es)#})\<rparr>)"
| answered: "(b, []) \<in># ig_handlers s \<Longrightarrow>
    ingest_step lib try_send recv part s (s\<lparr>ig_handlers := ig_handlers s - {#(b, [])#},
      ig_answers := ig_answers s @ [(b, Status 202)]\<rparr>)"
| spawned: "recv (gs_tx (ig_gw s)) = Some (m, ch) \<Longrightarrow>
    ingest_step lib try_send recv part s (s\<lparr>ig_gw := (ig_gw s)\<lparr>gs_tx := ch\<rparr>,
      ig_inflight := add_mset m (ig_inflight s)\<rparr>)"
| stored: "m \<in># ig_inflight s \<Longrightarrow>
    fresh_offset (ig_topic s) (part (qm_key m)) off \<Longrightarrow>
    ingest_step lib try_send recv part s (s\<lparr>ig_inflight := ig_inflight s - {#m#},
      ig_topic := ig_topic s @ [(part (qm_key m), off, m)]\<rparr>)"
| send_failed: "m \<in># ig_inflight s \<Longrightarrow>
    ingest_step lib try_send recv part s (s\<lparr>ig_inflight := ig_inflight s - {#m#},
      ig_failed := add_mset m (ig_failed s)\<rparr>)"

inductive ingest_run ::
  "crypto \<Rightarrow> ('ch \<Rightarrow> QueuedMessage \<Rightarrow> TrySendError + 'ch) \<Rightarrow> ('ch \<Rightarrow> (QueuedMessage \<times> 'ch) option) \<Rightarrow>
     (string \<Rightarrow> i32) \<Rightarrow> 'ch GatewayState \<Rightarrow> 'ch Ingest \<Rightarrow> bool"
  for lib try_send recv part gw where
  start: "ingest_run lib try_send recv part gw (ingest_init gw)"
| action: "ingest_run lib try_send recv part gw s \<Longrightarrow> ingest_step lib try_send recv part s s' \<Longrightarrow>
    ingest_run lib try_send recv part gw s'"

inductive_cases ingest_stepE: "ingest_step lib try_send recv part s s'"

text \<open>A run is extended by any action.\<close>

lemmas run_rejected = ingest_run.action [OF _ ingest_step.rejected]
  and run_admitted = ingest_run.action [OF _ ingest_step.admitted]
  and run_queued = ingest_run.action [OF _ ingest_step.queued]
  and run_full = ingest_run.action [OF _ ingest_step.full]
  and run_receiver_gone = ingest_run.action [OF _ ingest_step.receiver_gone]
  and run_answered = ingest_run.action [OF _ ingest_step.answered]
  and run_spawned = ingest_run.action [OF _ ingest_step.spawned]
  and run_stored = ingest_run.action [OF _ ingest_step.stored]

text \<open>What tokio documents for the receiving half.\<close>

definition recv_spec :: "('ch \<Rightarrow> (QueuedMessage \<times> 'ch) option) \<Rightarrow> ('ch \<Rightarrow> QueuedMessage list) \<Rightarrow> ('ch \<Rightarrow> bool) \<Rightarrow> bool" where
  "recv_spec recv queue alive \<longleftrightarrow>
     (\<forall>ch. case recv ch of None \<Rightarrow> queue ch = [] | Some (m, ch') \<Rightarrow> queue ch = m # queue ch' \<and> alive ch' = alive ch)"

text \<open>The records of one partition, as the aggregator reads them.\<close>

definition partition_raw :: "(i32 \<times> i64 \<times> QueuedMessage) list \<Rightarrow> i32 \<Rightarrow> rawrec list" where
  "partition_raw topic p = map (\<lambda>(q, off, m). (off, Some (qm_payload m))) (filter (\<lambda>(q, _). q = p) topic)"

text \<open>\<open>serde\<close> reads back what it wrote: decoding the payload of an event yields the event it was made from.\<close>

definition json_round_trip :: "decode_fn \<Rightarrow> crypto \<Rightarrow> Event set \<Rightarrow> bool" where
  "json_round_trip decode lib es \<longleftrightarrow> (\<forall>e \<in> es. decode (to_json lib e) = Some e)"

text \<open>Nothing is left to do: no request running, nothing in the channel, no send in flight.\<close>

definition ingest_idle :: "('ch \<Rightarrow> QueuedMessage list) \<Rightarrow> 'ch Ingest \<Rightarrow> bool" where
  "ingest_idle queue s \<longleftrightarrow> ig_handlers s = {#} \<and> queue (gs_tx (ig_gw s)) = [] \<and> ig_inflight s = {#}"

section \<open>A request alone\<close>

lemma post_events_admit:
  "post_events lib try_send now st batch =
     (case admit lib now st (batch_events batch) of
        Some resp \<Rightarrow> (st, resp)
      | None \<Rightarrow>
          (case enqueue_all try_send (pseudonymize_and_serialize lib (gs_salt st)) (batch_events batch) (gs_tx st) of
             (ch, ok) \<Rightarrow> (st\<lparr>gs_tx := ch\<rparr>, if ok then Status 202 else channel_full)))"
  by (auto simp: post_events_def admit_def channel_full_def split: option.splits prod.splits bool.splits)

lemma admit_None:
  "admit lib now st b = None \<longleftrightarrow>
     b \<noteq> [] \<and> length b \<le> gs_max_batch_events st \<and> list_all (\<lambda>e. validate e now = Inr ()) b"
  by (auto simp: admit_def first_error_None [symmetric])

lemma admit_Some: "admit lib now st b = Some resp \<Longrightarrow> \<exists>msg. resp = Reject 400 [] msg"
  by (auto simp: admit_def gateway_bad_request_def split: if_splits)

text \<open>A handler that is not interrupted does what \<open>post_events\<close> does.\<close>

lemma queue_alone:
  assumes "ingest_run lib try_send recv part gw s" and "(b, es) \<in># ig_handlers s"
    and "enqueue_all try_send (pseudonymize_and_serialize lib (gs_salt (ig_gw s))) es (gs_tx (ig_gw s)) = (ch, ok)"
  shows "\<exists>s'. ingest_run lib try_send recv part gw s' \<and> ig_gw s' = (ig_gw s)\<lparr>gs_tx := ch\<rparr> \<and>
    ig_handlers s' = ig_handlers s - {#(b, es)#} \<and> ig_inflight s' = ig_inflight s \<and> ig_topic s' = ig_topic s \<and>
    ig_failed s' = ig_failed s \<and> ig_answers s' = ig_answers s @ [(b, if ok then Status 202 else channel_full)]"
  using assms
proof (induction es arbitrary: s)
  case Nil
  show ?case by (rule exI, intro conjI, rule run_answered [OF Nil.prems(1,2)]) (use Nil.prems(3) in auto)
next
  case (Cons e es)
  let ?m = "pseudonymize_and_serialize lib (gs_salt (ig_gw s)) e"
  show ?case
  proof (cases "try_send (gs_tx (ig_gw s)) ?m")
    case (Inr ch1)
    note q = run_queued [OF Cons.prems(1,2) Inr]
    show ?thesis using Cons.IH [OF q] Cons.prems(2,3) Inr by simp
  next
    case (Inl err)
    show ?thesis
    proof (cases err)
      case Full
      with Inl have f: "try_send (gs_tx (ig_gw s)) ?m = Inl Full" by simp
      show ?thesis
        by (rule exI, intro conjI, rule run_full [OF Cons.prems(1,2) f]) (use Cons.prems(3) f in auto)
    next
      case Closed
      with Inl have c: "try_send (gs_tx (ig_gw s)) ?m = Inl Closed" by simp
      note q = run_receiver_gone [OF Cons.prems(1,2) c]
      show ?thesis using Cons.IH [OF q] Cons.prems(2,3) c by simp
    qed
  qed
qed

lemma post_alone:
  assumes "ingest_run lib try_send recv part gw s" and "post_events lib try_send now (ig_gw s) batch = (st', resp)"
  shows "\<exists>s'. ingest_run lib try_send recv part gw s' \<and> ig_gw s' = st' \<and>
    ig_handlers s' = ig_handlers s \<and> ig_inflight s' = ig_inflight s \<and> ig_topic s' = ig_topic s \<and>
    ig_failed s' = ig_failed s \<and> ig_answers s' = ig_answers s @ [(batch_events batch, resp)]"
proof (cases "admit lib now (ig_gw s) (batch_events batch)")
  case (Some r)
  show ?thesis
    by (rule exI, intro conjI, rule run_rejected [OF assms(1) Some]) (use assms(2) Some in \<open>auto simp: post_events_admit\<close>)
next
  case None
  let ?b = "batch_events batch"
  let ?s = "s\<lparr>ig_handlers := add_mset (?b, ?b) (ig_handlers s)\<rparr>"
  obtain ch ok where e: "enqueue_all try_send (pseudonymize_and_serialize lib (gs_salt (ig_gw ?s))) ?b (gs_tx (ig_gw ?s)) = (ch, ok)"
    by (cases "enqueue_all try_send (pseudonymize_and_serialize lib (gs_salt (ig_gw ?s))) ?b (gs_tx (ig_gw ?s))")
  then have r: "st' = (ig_gw s)\<lparr>gs_tx := ch\<rparr>" "resp = (if ok then Status 202 else channel_full)"
    using assms(2) None by (simp_all add: post_events_admit split: if_splits)
  have "(?b, ?b) \<in># ig_handlers ?s" by simp
  from queue_alone [OF run_admitted [OF assms(1) None] this e] show ?thesis by (simp add: r)
qed

section \<open>The gateway implements the producer loop\<close>

definition producer_of :: "crypto \<Rightarrow> ('ch \<Rightarrow> QueuedMessage list) \<Rightarrow> 'ch Ingest \<Rightarrow> Producer" where
  "producer_of lib queue s = \<lparr>pr_queue = queue (gs_tx (ig_gw s)), pr_inflight = ig_inflight s,
     pr_topic = map (snd \<circ> snd) (ig_topic s), pr_failed = ig_failed s,
     pr_accepted = map (pseudonymize_and_serialize lib (gs_salt (ig_gw s))) (ig_queued s)\<rparr>"

definition fresh_gateway :: "('ch \<Rightarrow> QueuedMessage list) \<Rightarrow> ('ch \<Rightarrow> bool) \<Rightarrow> 'ch GatewayState \<Rightarrow> bool" where
  "fresh_gateway queue alive gw \<longleftrightarrow> queue (gs_tx gw) = [] \<and> alive (gs_tx gw)"

lemma recv_specD:
  "recv_spec recv queue alive \<Longrightarrow> recv ch = Some (m, ch') \<Longrightarrow> queue ch = m # queue ch' \<and> alive ch' = alive ch"
  unfolding recv_spec_def by (drule spec [of _ ch]) simp

lemma ingest_refines_producer:
  assumes "channel_spec try_send queue alive cap" and "recv_spec recv queue alive" and "fresh_gateway queue alive gw"
    and "ingest_run lib try_send recv part gw s"
  shows "run_producer_loop cap (producer_of lib queue s) \<and> alive (gs_tx (ig_gw s)) \<and>
    gs_salt (ig_gw s) = gs_salt gw \<and> gs_max_batch_events (ig_gw s) = gs_max_batch_events gw"
  using assms(4)
proof (induction rule: ingest_run.induct)
  case start
  then show ?case using assms(3) run_producer_loop.start [of cap]
    by (simp add: producer_of_def ingest_init_def producer_init_def fresh_gateway_def)
next
  case (action s s')
  have run: "run_producer_loop cap (producer_of lib queue s)" using action.IH ..
  from action.hyps(2) show ?case
  proof cases
    case (queued b e es ch)
    from channel_specD(1) [OF assms(1) queued(3)]
    have c: "length (queue (gs_tx (ig_gw s))) < cap" "alive ch"
      "queue ch = queue (gs_tx (ig_gw s)) @ [pseudonymize_and_serialize lib (gs_salt (ig_gw s)) e]" by auto
    from run_producer_loop.queued [OF run, of "pseudonymize_and_serialize lib (gs_salt (ig_gw s)) e"] c action.IH
    show ?thesis by (simp add: queued(1) producer_of_def)
  next
    case (spawned m ch)
    from run_producer_loop.spawned [OF run, of m "queue ch"] recv_specD [OF assms(2) spawned(2)] action.IH
    show ?thesis by (simp add: spawned(1) producer_of_def)
  next
    case (stored m off)
    from run_producer_loop.produced [OF run, of m] stored(2) action.IH show ?thesis
      by (simp add: stored(1) producer_of_def)
  next
    case (send_failed m)
    from run_producer_loop.gave_up [OF run, of m] send_failed(2) action.IH show ?thesis
      by (simp add: send_failed(1) producer_of_def)
  qed (use action.IH in \<open>auto simp: producer_of_def\<close>)
qed

section \<open>What the requests queued\<close>

text \<open>The batches of the running and the finished requests.\<close>

definition posted :: "'ch Ingest \<Rightarrow> Event list set" where
  "posted s = fst ` set_mset (ig_handlers s) \<union> fst ` set (ig_answers s)"

definition requests_inv :: "'ch Ingest \<Rightarrow> bool" where
  "requests_inv s \<longleftrightarrow>
     (\<forall>b es. (b, es) \<in># ig_handlers s \<longrightarrow> (\<exists>done. b = done @ es \<and> set done \<subseteq> set (ig_queued s)) \<and>
        (\<exists>now. list_all (\<lambda>e. validate e now = Inr ()) b)) \<and>
     (\<forall>b. (b, Status 202) \<in> set (ig_answers s) \<longrightarrow> set b \<subseteq> set (ig_queued s)) \<and>
     (\<forall>e \<in> set (ig_queued s). (\<exists>now. validate e now = Inr ()) \<and> (\<exists>b \<in> posted s. e \<in> set b))"

lemma requests_invD:
  assumes "requests_inv s"
  shows "(b, es) \<in># ig_handlers s \<Longrightarrow> \<exists>done. b = done @ es \<and> set done \<subseteq> set (ig_queued s)"
    "(b, es) \<in># ig_handlers s \<Longrightarrow> \<exists>now. list_all (\<lambda>e. validate e now = Inr ()) b"
    "(b, Status 202) \<in> set (ig_answers s) \<Longrightarrow> set b \<subseteq> set (ig_queued s)"
    "e \<in> set (ig_queued s) \<Longrightarrow> (\<exists>now. validate e now = Inr ()) \<and> (\<exists>b \<in> posted s. e \<in> set b)"
  using assms unfolding requests_inv_def by blast+

lemma in_diff_single: "x \<in># M \<Longrightarrow> x \<noteq> a \<Longrightarrow> x \<in># M - {#a#}"
  by (simp add: in_diff_count)

lemma posted_mono:
  assumes "\<And>x. x \<in># ig_handlers s \<Longrightarrow> x \<noteq> (b, es) \<Longrightarrow> x \<in># ig_handlers s'"
    and "set (ig_answers s) \<subseteq> set (ig_answers s')" and "b \<in> posted s'"
  shows "posted s \<subseteq> posted s'"
proof
  fix x assume "x \<in> posted s"
  then consider y where "(x, y) \<in># ig_handlers s" | y where "(x, y) \<in> set (ig_answers s)" by (auto simp: posted_def)
  then show "x \<in> posted s'"
  proof cases
    case 1
    with assms(1) [OF 1] assms(3) show ?thesis by (cases "(x, y) = (b, es)") (force simp: posted_def)+
  next
    case 2
    with assms(2) show ?thesis by (force simp: posted_def)
  qed
qed

text \<open>One handler moves on, having queued \<open>qs\<close>.\<close>

lemma requests_inv_handler:
  assumes "requests_inv s" and "(b, qs @ es) \<in># ig_handlers s"
    and "ig_handlers s' = add_mset (b, es) (ig_handlers s - {#(b, qs @ es)#})"
    and "ig_answers s' = ig_answers s" and "ig_queued s' = ig_queued s @ qs"
  shows "requests_inv s'"
proof -
  obtain d where d: "b = d @ qs @ es" "set d \<subseteq> set (ig_queued s)" using requests_invD(1) [OF assms(1,2)] by blast
  obtain now where now: "list_all (\<lambda>e. validate e now = Inr ()) b" using requests_invD(2) [OF assms(1,2)] by blast
  have "(\<exists>d. b' = d @ es' \<and> set d \<subseteq> set (ig_queued s')) \<and> (\<exists>now. list_all (\<lambda>e. validate e now = Inr ()) b')"
    if "(b', es') \<in># ig_handlers s'" for b' es'
  proof (cases "(b', es') = (b, es)")
    case True
    with d now show ?thesis by (auto intro!: exI [of _ "d @ qs"] simp: assms(5))
  next
    case False
    with that have "(b', es') \<in># ig_handlers s" by (auto simp: assms(3) dest: in_diffD)
    from requests_invD(1,2) [OF assms(1) this] show ?thesis by (auto simp: assms(5))
  qed
  moreover have "set b' \<subseteq> set (ig_queued s')" if "(b', Status 202) \<in> set (ig_answers s')" for b'
    using requests_invD(3) [OF assms(1)] that by (auto simp: assms(4,5))
  moreover have sub: "posted s \<subseteq> posted s'"
    by (rule posted_mono [of _ b "qs @ es"]) (simp_all add: assms(3,4) in_diff_single posted_def)
  moreover have "(\<exists>now. validate e now = Inr ()) \<and> (\<exists>b \<in> posted s'. e \<in> set b)" if "e \<in> set (ig_queued s')" for e
  proof (cases "e \<in> set qs")
    case True
    have "b \<in> posted s" using assms(2) by (force simp: posted_def)
    moreover have "e \<in> set b" using True by (simp add: d(1))
    ultimately show ?thesis using now sub by (auto simp: list_all_iff)
  next
    case False
    with that have "e \<in> set (ig_queued s)" by (simp add: assms(5))
    from requests_invD(4) [OF assms(1) this] sub show ?thesis by blast
  qed
  ultimately show ?thesis unfolding requests_inv_def by blast
qed

text \<open>One handler ends; only the answer 202 needs the whole batch queued.\<close>

lemma requests_inv_answer:
  assumes "requests_inv s" and "ig_handlers s' \<subseteq># ig_handlers s"
    and "ig_answers s' = ig_answers s @ [(b, resp)]" and "ig_queued s' = ig_queued s"
    and "resp = Status 202 \<Longrightarrow> set b \<subseteq> set (ig_queued s)" and "posted s \<subseteq> posted s'"
  shows "requests_inv s'"
proof -
  note sub = mset_subset_eqD [OF assms(2)]
  show ?thesis
    unfolding requests_inv_def
  proof (intro conjI allI impI ballI)
    fix b' es assume "(b', es) \<in># ig_handlers s'"
    note h = sub [OF this]
    show "\<exists>d. b' = d @ es \<and> set d \<subseteq> set (ig_queued s')" using requests_invD(1) [OF assms(1) h] by (simp only: assms(4))
    show "\<exists>now. list_all (\<lambda>e. validate e now = Inr ()) b'" by (rule requests_invD(2) [OF assms(1) h])
  next
    fix e assume "e \<in> set (ig_queued s')"
    then have "e \<in> set (ig_queued s)" by (simp add: assms(4))
    note q = requests_invD(4) [OF assms(1) this]
    from q show "\<exists>now. validate e now = Inr ()" ..
    from q assms(6) show "\<exists>b \<in> posted s'. e \<in> set b" by blast
  qed (use requests_invD(3) [OF assms(1)] assms(3-5) in auto)
qed

lemma posted_answer:
  "ig_handlers s' = ig_handlers s - {#(b, es)#} \<Longrightarrow> ig_answers s' = ig_answers s @ [(b, resp)] \<Longrightarrow> posted s \<subseteq> posted s'"
  by (rule posted_mono [of _ b es]) (auto simp: in_diff_single posted_def)

lemma ingest_requests:
  assumes "channel_spec try_send queue alive cap" and "recv_spec recv queue alive" and "fresh_gateway queue alive gw"
    and "ingest_run lib try_send recv part gw s"
  shows "requests_inv s"
  using assms(4)
proof (induction rule: ingest_run.induct)
  case start
  then show ?case by (simp add: requests_inv_def ingest_init_def)
next
  case (action s s')
  from action.hyps(2) show ?case
  proof cases
    case (rejected now b resp)
    show ?thesis
      by (rule requests_inv_answer [OF action.IH]) (use admit_Some [OF rejected(2)] in \<open>auto simp: rejected(1) posted_def\<close>)
  next
    case (admitted now b)
    have "list_all (\<lambda>e. validate e now = Inr ()) b" using admitted(2) by (simp add: admit_None)
    with action.IH show ?thesis by (auto simp: admitted(1) requests_inv_def posted_def)
  next
    case (queued b e es ch)
    show ?thesis by (rule requests_inv_handler [OF action.IH, of b "[e]" es]) (use queued in auto)
  next
    case (full b e es)
    show ?thesis by (rule requests_inv_answer [OF action.IH]) (auto simp: full(1) channel_full_def posted_answer)
  next
    case (receiver_gone b e es)
    from ingest_refines_producer [OF assms(1-3) action.hyps(1)] channel_specD(3) [OF assms(1) receiver_gone(3)]
    show ?thesis by simp
  next
    case (answered b)
    have "set b \<subseteq> set (ig_queued s)" using requests_invD(1) [OF action.IH answered(2)] by simp
    then show ?thesis by (intro requests_inv_answer [OF action.IH]) (simp_all add: answered(1) posted_answer)
  qed (use action.IH in \<open>simp_all add: requests_inv_def posted_def\<close>)
qed

section \<open>What the topic holds\<close>

definition topic_inv :: "(string \<Rightarrow> i32) \<Rightarrow> (i32 \<times> i64 \<times> QueuedMessage) list \<Rightarrow> bool" where
  "topic_inv part topic \<longleftrightarrow>
     list_all (\<lambda>(p, off, m). p = part (qm_key m) \<and> 0 \<le> off \<and> off < 2 ^ 63 - 1) topic \<and>
     (\<forall>p. sorted_wrt (<) (map fst (partition_raw topic p)))"

lemma topic_inv_append:
  assumes "topic_inv part topic" and "fresh_offset topic (part (qm_key m)) off"
  shows "topic_inv part (topic @ [(part (qm_key m), off, m)])"
  using assms
  by (fastforce simp: topic_inv_def fresh_offset_def partition_raw_def sorted_wrt_append list_all_iff split: prod.splits)

lemma ingest_topic: "ingest_run lib try_send recv part gw s \<Longrightarrow> topic_inv part (ig_topic s)"
proof (induction rule: ingest_run.induct)
  case start
  show ?case by (simp add: topic_inv_def ingest_init_def partition_raw_def)
next
  case (action s s')
  from action.hyps(2) action.IH show ?case by (cases rule: ingest_step.cases) (simp_all add: topic_inv_append)
qed

lemma decoded_partition_raw:
  "(off, e) \<in> set (decoded_log decode (partition_raw topic p)) \<longleftrightarrow>
     (\<exists>m. (p, off, m) \<in> set topic \<and> decode (qm_payload m) = Some e)"
proof (induction topic)
  case (Cons r topic)
  then show ?case
    by (cases r) (auto simp: partition_raw_def decoded_log_Cons decode_rec_def split: option.splits)
qed (simp add: partition_raw_def decoded_log_def map_filter_simps)

lemma payload_decodes:
  "json_round_trip decode lib (pseud_event lib salt ` es) \<Longrightarrow> e \<in> es \<Longrightarrow>
     decode (qm_payload (pseudonymize_and_serialize lib salt e)) = Some (pseud_event lib salt e)"
  by (simp add: json_round_trip_def pseudonymize_and_serialize_def Let_def pseud_event_def)

lemma message_key: "qm_key (pseudonymize_and_serialize lib salt e) = ev_user (pseud_event lib salt e)"
  by (simp add: pseudonymize_and_serialize_def Let_def)

text \<open>Where every queued message is.\<close>

lemma ingest_conserves:
  assumes "channel_spec try_send queue alive cap" and "recv_spec recv queue alive" and "fresh_gateway queue alive gw"
    and "ingest_run lib try_send recv part gw s"
  shows "mset (map (pseudonymize_and_serialize lib (gs_salt gw)) (ig_queued s)) =
    mset (queue (gs_tx (ig_gw s))) + ig_inflight s + mset (map (snd \<circ> snd) (ig_topic s)) + ig_failed s \<and>
    length (queue (gs_tx (ig_gw s))) \<le> cap"
proof -
  note r = ingest_refines_producer [OF assms]
  then have "gs_salt (ig_gw s) = gs_salt gw" by blast
  with producer_conserves [OF conjunct1 [OF r]] show ?thesis by (simp add: producer_of_def)
qed

lemma ingest_topic_messages:
  assumes "channel_spec try_send queue alive cap" and "recv_spec recv queue alive" and "fresh_gateway queue alive gw"
    and "ingest_run lib try_send recv part gw s" and "(p, off, m) \<in> set (ig_topic s)"
  obtains e where "e \<in> set (ig_queued s)" "m = pseudonymize_and_serialize lib (gs_salt gw) e" "p = part (qm_key m)"
proof -
  have "m \<in># mset (map (snd \<circ> snd) (ig_topic s))" using assms(5) by force
  then have "m \<in># mset (map (pseudonymize_and_serialize lib (gs_salt gw)) (ig_queued s))"
    using ingest_conserves [OF assms(1-4)] by simp
  moreover have "p = part (qm_key m)" using ingest_topic [OF assms(4)] assms(5) by (auto simp: topic_inv_def list_all_iff)
  ultimately show ?thesis using that by auto
qed

lemma decoded_events_queued:
  assumes "channel_spec try_send queue alive cap" and "recv_spec recv queue alive" and "fresh_gateway queue alive gw"
    and "ingest_run lib try_send recv part gw s"
    and "json_round_trip decode lib (pseud_event lib (gs_salt gw) ` set (ig_queued s))"
    and "(off, e) \<in> set (decoded_log decode (partition_raw (ig_topic s) p))"
  obtains e0 where "e0 \<in> set (ig_queued s)" "e = pseud_event lib (gs_salt gw) e0" "part (ev_user e) = p"
proof -
  obtain m where m: "(p, off, m) \<in> set (ig_topic s)" "decode (qm_payload m) = Some e"
    using assms(6) by (auto simp: decoded_partition_raw)
  from ingest_topic_messages [OF assms(1-4) m(1)] obtain e0
    where e0: "e0 \<in> set (ig_queued s)" "m = pseudonymize_and_serialize lib (gs_salt gw) e0" "p = part (qm_key m)" .
  with m(2) that [OF e0(1)] show ?thesis
    using payload_decodes [OF assms(5) e0(1)] message_key [of lib "gs_salt gw" e0] by auto
qed

lemma ingest_raw_ok:
  assumes "channel_spec try_send queue alive cap" and "recv_spec recv queue alive" and "fresh_gateway queue alive gw"
    and "ingest_run lib try_send recv part gw s"
    and "json_round_trip decode lib (pseud_event lib (gs_salt gw) ` set (ig_queued s))"
    and "\<forall>e \<in> set (ig_queued s). in_i64 (ev_ts e)"
  shows "raw_ok decode (partition_raw (ig_topic s) p)"
proof -
  note inv = ingest_topic [OF assms(4)]
  have "rec_ok (off, e)" if r: "(off, e) \<in> set (decoded_log decode (partition_raw (ig_topic s) p))" for off e
  proof -
    from decoded_events_queued [OF assms(1-5) r] obtain e0
      where "e0 \<in> set (ig_queued s)" "e = pseud_event lib (gs_salt gw) e0" .
    then have "in_i64 (ev_ts e)" using assms(6) by simp
    moreover obtain m where "(p, off, m) \<in> set (ig_topic s)" using r by (auto simp: decoded_partition_raw)
    ultimately show ?thesis using inv by (auto simp: topic_inv_def rec_ok_def list_all_iff)
  qed
  then show ?thesis using inv by (auto simp: raw_ok_def topic_inv_def list_all_iff)
qed

text \<open>C10: the topic holds nothing the gateway did not admit. At every moment of every run, whatever the
  interleaving of requests, channel and sends: each record of a partition decodes, to an event that
  passed validation with its user replaced by the pseudonym; it lies in the partition of that
  pseudonym, under increasing offsets; and every event that was ever queued is in the channel, in
  flight, in the topic or counted as failed, exactly once.\<close>

theorem topic_holds_admitted_events:
  assumes "channel_spec try_send queue alive cap" and "recv_spec recv queue alive" and "fresh_gateway queue alive gw"
    and "ingest_run lib try_send recv part gw s"
    and "json_round_trip decode lib (pseud_event lib (gs_salt gw) ` set (ig_queued s))"
  shows "length (decoded_log decode (partition_raw (ig_topic s) p)) = length (partition_raw (ig_topic s) p) \<and>
    sorted_wrt (<) (map fst (partition_raw (ig_topic s) p)) \<and>
    (\<forall>off e. (off, e) \<in> set (decoded_log decode (partition_raw (ig_topic s) p)) \<longrightarrow>
      (\<exists>e0 now. e = pseud_event lib (gs_salt gw) e0 \<and> validate e0 now = Inr () \<and> part (ev_user e) = p)) \<and>
    mset (map (pseudonymize_and_serialize lib (gs_salt gw)) (ig_queued s)) =
      mset (queue (gs_tx (ig_gw s))) + ig_inflight s + mset (map (snd \<circ> snd) (ig_topic s)) + ig_failed s"
proof (intro conjI allI impI)
  show "sorted_wrt (<) (map fst (partition_raw (ig_topic s) p))"
    using ingest_topic [OF assms(4)] by (simp add: topic_inv_def)
  show "mset (map (pseudonymize_and_serialize lib (gs_salt gw)) (ig_queued s)) =
      mset (queue (gs_tx (ig_gw s))) + ig_inflight s + mset (map (snd \<circ> snd) (ig_topic s)) + ig_failed s"
    using ingest_conserves [OF assms(1-4)] by blast
  have dec: "decode_rec decode r \<noteq> None" if "r \<in> set (partition_raw (ig_topic s) p)" for r
  proof -
    from that obtain off m where r: "r = (off, Some (qm_payload m))" "(p, off, m) \<in> set (ig_topic s)"
      by (auto simp: partition_raw_def)
    from ingest_topic_messages [OF assms(1-4) r(2)] obtain e
      where "e \<in> set (ig_queued s)" "m = pseudonymize_and_serialize lib (gs_salt gw) e" .
    then show ?thesis using payload_decodes [OF assms(5)] by (simp add: decode_rec_def r(1))
  qed
  show "length (decoded_log decode (partition_raw (ig_topic s) p)) = length (partition_raw (ig_topic s) p)"
    using dec by (simp add: decoded_log_def map_filter_def comp_def)
  fix off e assume "(off, e) \<in> set (decoded_log decode (partition_raw (ig_topic s) p))"
  from decoded_events_queued [OF assms(1-5) this] obtain e0
    where e0: "e0 \<in> set (ig_queued s)" "e = pseud_event lib (gs_salt gw) e0" "part (ev_user e) = p" .
  from requests_invD(4) [OF ingest_requests [OF assms(1-4)] e0(1)] e0(2,3)
  show "\<exists>e0 now. e = pseud_event lib (gs_salt gw) e0 \<and> validate e0 now = Inr () \<and> part (ev_user e) = p" by blast
qed

section \<open>What an accepted batch is worth\<close>

lemma idle_topic:
  assumes "channel_spec try_send queue alive cap" and "recv_spec recv queue alive" and "fresh_gateway queue alive gw"
    and "ingest_run lib try_send recv part gw s" and "ingest_idle queue s" and "ig_failed s = {#}"
  shows "mset (map (pseudonymize_and_serialize lib (gs_salt gw)) (ig_queued s)) = mset (map (snd \<circ> snd) (ig_topic s))"
  using ingest_conserves [OF assms(1-4)] assms(5,6) by (simp add: ingest_idle_def)

lemma idle_topic_events:
  assumes "channel_spec try_send queue alive cap" and "recv_spec recv queue alive" and "fresh_gateway queue alive gw"
    and "ingest_run lib try_send recv part gw s" and "ingest_idle queue s" and "ig_failed s = {#}"
    and "json_round_trip decode lib (pseud_event lib (gs_salt gw) ` set (ig_queued s))"
  shows "snd ` set (decoded_log decode (partition_raw (ig_topic s) p)) =
    {e \<in> pseud_event lib (gs_salt gw) ` set (ig_queued s). part (ev_user e) = p}"
proof (intro set_eqI iffI)
  fix e assume "e \<in> snd ` set (decoded_log decode (partition_raw (ig_topic s) p))"
  then obtain off where "(off, e) \<in> set (decoded_log decode (partition_raw (ig_topic s) p))" by auto
  from decoded_events_queued [OF assms(1-4,7) this] obtain e0
    where "e0 \<in> set (ig_queued s)" "e = pseud_event lib (gs_salt gw) e0" "part (ev_user e) = p" .
  then show "e \<in> {e \<in> pseud_event lib (gs_salt gw) ` set (ig_queued s). part (ev_user e) = p}" by blast
next
  fix e assume "e \<in> {e \<in> pseud_event lib (gs_salt gw) ` set (ig_queued s). part (ev_user e) = p}"
  then obtain e0 where e0: "e0 \<in> set (ig_queued s)" "e = pseud_event lib (gs_salt gw) e0" "part (ev_user e) = p" by auto
  let ?m = "pseudonymize_and_serialize lib (gs_salt gw) e0"
  have "?m \<in># mset (map (pseudonymize_and_serialize lib (gs_salt gw)) (ig_queued s))" using e0(1) by simp
  then have "?m \<in> snd ` snd ` set (ig_topic s)" unfolding idle_topic [OF assms(1-6)] by (simp add: image_comp)
  then obtain q off where "(q, off, ?m) \<in> set (ig_topic s)" by auto
  moreover from this have "q = p"
    using ingest_topic [OF assms(4)] e0(2,3) message_key [of lib "gs_salt gw" e0]
    by (auto simp: topic_inv_def list_all_iff)
  ultimately have "(off, e) \<in> set (decoded_log decode (partition_raw (ig_topic s) p))"
    using payload_decodes [OF assms(7) e0(1)] e0(2) by (auto simp: decoded_partition_raw)
  then show "e \<in> snd ` set (decoded_log decode (partition_raw (ig_topic s) p))" by force
qed

text \<open>C11: an answer of 202 is worth something. Once the gateway has nothing left to do and no send has failed,
  every event of every batch answered with 202 is in the log of the partition of its user's pseudonym,
  under that pseudonym; and the topic has exactly one record per event queued, so nothing was
  written twice.\<close>

theorem accepted_events_reach_topic:
  assumes "channel_spec try_send queue alive cap" and "recv_spec recv queue alive" and "fresh_gateway queue alive gw"
    and "ingest_run lib try_send recv part gw s" and "ingest_idle queue s" and "ig_failed s = {#}"
    and "json_round_trip decode lib (pseud_event lib (gs_salt gw) ` set (ig_queued s))"
    and "(b, Status 202) \<in> set (ig_answers s)" and "e \<in> set b"
  shows "pseud_event lib (gs_salt gw) e \<in>
      snd ` set (decoded_log decode (partition_raw (ig_topic s) (part (pseudonymize lib (gs_salt gw) (ev_user e))))) \<and>
    length (ig_topic s) = length (ig_queued s)"
proof
  have "e \<in> set (ig_queued s)" using requests_invD(3) [OF ingest_requests [OF assms(1-4)] assms(8)] assms(9) by blast
  then show "pseud_event lib (gs_salt gw) e \<in>
      snd ` set (decoded_log decode (partition_raw (ig_topic s) (part (pseudonymize lib (gs_salt gw) (ev_user e)))))"
    unfolding idle_topic_events [OF assms(1-7)] by simp
  show "length (ig_topic s) = length (ig_queued s)"
    using arg_cong [OF idle_topic [OF assms(1-6)], of size] by simp
qed

text \<open>The gateway took all of the batches \<open>bs\<close>, in any order, and nothing else: every request was answered
  with 202, nothing is left to do and no send failed. Then the topic holds exactly their events.\<close>

definition took_all :: "('ch \<Rightarrow> QueuedMessage list) \<Rightarrow> Event list list \<Rightarrow> 'ch Ingest \<Rightarrow> bool" where
  "took_all queue bs s \<longleftrightarrow> ingest_idle queue s \<and> ig_failed s = {#} \<and>
     list_all (\<lambda>a. snd a = Status 202) (ig_answers s) \<and> mset (map fst (ig_answers s)) = mset bs"

lemma took_all_queued:
  assumes "channel_spec try_send queue alive cap" and "recv_spec recv queue alive" and "fresh_gateway queue alive gw"
    and "ingest_run lib try_send recv part gw s" and "took_all queue bs s"
  shows "set (ig_queued s) = set (concat bs)"
proof -
  note inv = ingest_requests [OF assms(1-4)]
  have idle: "ingest_idle queue s" and all: "list_all (\<lambda>a. snd a = Status 202) (ig_answers s)"
    and ans: "mset (map fst (ig_answers s)) = mset bs"
    using assms(5) by (simp_all add: took_all_def)
  have bs: "fst ` set (ig_answers s) = set bs" using arg_cong [OF ans, of set_mset] by simp
  then have p: "posted s = set bs" using idle by (simp add: posted_def ingest_idle_def)
  show ?thesis
  proof
    show "set (ig_queued s) \<subseteq> set (concat bs)" using requests_invD(4) [OF inv] by (auto simp: p)
    have "(b, Status 202) \<in> set (ig_answers s)" if "b \<in> set bs" for b
      using that all by (auto simp: bs [symmetric] list_all_iff)
    with requests_invD(3) [OF inv] show "set (concat bs) \<subseteq> set (ig_queued s)" by auto
  qed
qed

lemma ingest_topic_holds:
  assumes "channel_spec try_send queue alive cap" and "recv_spec recv queue alive" and "fresh_gateway queue alive gw"
    and "ingest_run lib try_send recv part gw s" and "took_all queue bs s"
    and "json_round_trip decode lib (pseud_event lib (gs_salt gw) ` set (concat bs))"
    and "list_all (\<lambda>e. in_i64 (ev_ts e)) (concat bs)" and "range part \<subseteq> ps"
  shows "raw_ok decode (partition_raw (ig_topic s) p)"
    "topic_holds part (\<lambda>p. decoded_log decode (partition_raw (ig_topic s) p)) ps
      (pseud_event lib (gs_salt gw) ` set (concat bs))"
proof -
  have idle: "ingest_idle queue s" "ig_failed s = {#}" using assms(5) by (simp_all add: took_all_def)
  note q = took_all_queued [OF assms(1-5)]
  note ev = idle_topic_events [OF assms(1-4) idle, unfolded q, OF assms(6)]
  show raw: "raw_ok decode (partition_raw (ig_topic s) p)" for p
    using ingest_raw_ok [OF assms(1-4), unfolded q, OF assms(6)] assms(7) by (auto simp: list_all_iff)
  from ev assms(8) raw_ok_log_ok [OF raw] show "topic_holds part (\<lambda>p. decoded_log decode (partition_raw (ig_topic s) p)) ps
      (pseud_event lib (gs_salt gw) ` set (concat bs))" by (auto simp: topic_holds_def)
qed

section \<open>Runs that go through\<close>

lemma enqueue_all_room:
  assumes "channel_spec try_send queue alive cap" and "alive ch" and "length (queue ch) + length es \<le> cap"
  obtains ch' where "enqueue_all try_send mk es ch = (ch', True)" "queue ch' = queue ch @ map mk es"
proof -
  obtain ch' ok where e: "enqueue_all try_send mk es ch = (ch', ok)" by (cases "enqueue_all try_send mk es ch")
  note enq = enqueue_all_alive [OF assms(1,2) e]
  have ok
  proof (rule ccontr)
    assume "\<not> ok"
    with enq obtain es1 es2 where "es = es1 @ es2" "es2 \<noteq> []" "queue ch' = queue ch @ map mk es1"
      "cap \<le> length (queue ch')" by auto
    with assms(3) show False by (cases es2) auto
  qed
  with e enq that show ?thesis by auto
qed

lemma receive_all:
  assumes "recv_spec recv queue alive" and "ingest_run lib try_send recv part gw s" and "queue (gs_tx (ig_gw s)) = ms"
  shows "\<exists>s'. ingest_run lib try_send recv part gw s' \<and> queue (gs_tx (ig_gw s')) = [] \<and>
    ig_inflight s' = ig_inflight s + mset ms \<and> ig_handlers s' = ig_handlers s \<and> ig_topic s' = ig_topic s \<and>
    ig_failed s' = ig_failed s \<and> ig_answers s' = ig_answers s"
  using assms(2,3)
proof (induction ms arbitrary: s)
  case Nil
  then show ?case by (intro exI [of _ s]) simp
next
  case (Cons m ms)
  have "recv (gs_tx (ig_gw s)) \<noteq> None"
    using spec [OF assms(1) [unfolded recv_spec_def], of "gs_tx (ig_gw s)"] Cons.prems(2)
    by (cases "recv (gs_tx (ig_gw s))") auto
  then obtain m' ch where r: "recv (gs_tx (ig_gw s)) = Some (m', ch)" by auto
  from recv_specD [OF assms(1) r] Cons.prems(2) have q: "m' = m" "queue ch = ms" by simp_all
  let ?s = "s\<lparr>ig_gw := (ig_gw s)\<lparr>gs_tx := ch\<rparr>, ig_inflight := add_mset m' (ig_inflight s)\<rparr>"
  have "queue (gs_tx (ig_gw ?s)) = ms" by (simp add: q)
  from Cons.IH [OF run_spawned [OF Cons.prems(1) r] this] show ?case by (simp add: q)
qed

text \<open>Sends that complete one after the other, under consecutive offsets.\<close>

fun stamped :: "(string \<Rightarrow> i32) \<Rightarrow> nat \<Rightarrow> QueuedMessage list \<Rightarrow> (i32 \<times> i64 \<times> QueuedMessage) list" where
  "stamped part n [] = []"
| "stamped part n (m # ms) = (part (qm_key m), int n, m) # stamped part (Suc n) ms"

lemma send_all:
  assumes "ingest_run lib try_send recv part gw s" and "ig_inflight s = mset ms"
    and "list_all (\<lambda>(_, off, _). off < int n) (ig_topic s)" and "n + length ms < 2 ^ 63"
  shows "\<exists>s'. ingest_run lib try_send recv part gw s' \<and> ig_inflight s' = {#} \<and> ig_topic s' = ig_topic s @ stamped part n ms \<and>
    ig_gw s' = ig_gw s \<and> ig_handlers s' = ig_handlers s \<and> ig_failed s' = ig_failed s \<and> ig_answers s' = ig_answers s"
  using assms
proof (induction ms arbitrary: s n)
  case Nil
  then show ?case by (intro exI [of _ s]) simp
next
  case (Cons m ms)
  have m: "m \<in># ig_inflight s" using Cons.prems(2) by simp
  have f: "fresh_offset (ig_topic s) (part (qm_key m)) (int n)"
    using Cons.prems(3,4) by (auto simp: fresh_offset_def list_all_iff)
  let ?s = "s\<lparr>ig_inflight := ig_inflight s - {#m#}, ig_topic := ig_topic s @ [(part (qm_key m), int n, m)]\<rparr>"
  have "list_all (\<lambda>(_, off, _). off < int (Suc n)) (ig_topic ?s)" using Cons.prems(3) by (auto simp: list_all_iff)
  from Cons.IH [OF run_stored [OF Cons.prems(1) m f] _ this] Cons.prems(2,4) show ?case by simp
qed

text \<open>A gateway with no request running and an empty channel takes a valid batch no longer than the channel,
  however many sends are still in flight.\<close>

lemma take_batch:
  assumes "channel_spec try_send queue alive cap" and "recv_spec recv queue alive" and "fresh_gateway queue alive gw"
    and "ingest_run lib try_send recv part gw s" and "ig_handlers s = {#}" and "queue (gs_tx (ig_gw s)) = []"
    and "admit lib now gw b = None" and "length b \<le> cap"
  shows "\<exists>s'. ingest_run lib try_send recv part gw s' \<and> ig_handlers s' = {#} \<and> queue (gs_tx (ig_gw s')) = [] \<and>
    ig_inflight s' = ig_inflight s + mset (map (pseudonymize_and_serialize lib (gs_salt gw)) b) \<and>
    ig_topic s' = ig_topic s \<and> ig_failed s' = ig_failed s \<and> ig_answers s' = ig_answers s @ [(b, Status 202)]"
proof -
  note r = ingest_refines_producer [OF assms(1-4)]
  have salt: "gs_salt (ig_gw s) = gs_salt gw" and alive: "alive (gs_tx (ig_gw s))" using r by blast+
  have a: "admit lib now (ig_gw s) b = None" using assms(7) r by (simp add: admit_None)
  obtain ch where e: "enqueue_all try_send (pseudonymize_and_serialize lib (gs_salt gw)) b (gs_tx (ig_gw s)) = (ch, True)"
    and q: "queue ch = map (pseudonymize_and_serialize lib (gs_salt gw)) b"
    using enqueue_all_room [OF assms(1) alive, of b] assms(6,8) by auto
  have p: "post_events lib try_send now (ig_gw s) \<lparr>batch_events = b\<rparr> = ((ig_gw s)\<lparr>gs_tx := ch\<rparr>, Status 202)"
    by (simp add: post_events_admit a salt e)
  from post_alone [OF assms(4) p] obtain s1 where s1: "ingest_run lib try_send recv part gw s1"
      "queue (gs_tx (ig_gw s1)) = map (pseudonymize_and_serialize lib (gs_salt gw)) b"
      "ig_inflight s1 = ig_inflight s" "ig_handlers s1 = {#}" "ig_topic s1 = ig_topic s" "ig_failed s1 = ig_failed s"
      "ig_answers s1 = ig_answers s @ [(b, Status 202)]"
    using q assms(5) by auto
  from receive_all [OF assms(2) s1(1,2)] obtain s2 where "ingest_run lib try_send recv part gw s2"
      "queue (gs_tx (ig_gw s2)) = []" "ig_inflight s2 = ig_inflight s + mset (map (pseudonymize_and_serialize lib (gs_salt gw)) b)"
      "ig_handlers s2 = {#}" "ig_topic s2 = ig_topic s" "ig_failed s2 = ig_failed s"
      "ig_answers s2 = ig_answers s @ [(b, Status 202)]"
    by (auto simp: s1(3-7))
  then show ?thesis by (intro exI [of _ s2]) simp
qed

text \<open>An idle gateway can also store all of it.\<close>

lemma deliver_batch:
  assumes "channel_spec try_send queue alive cap" and "recv_spec recv queue alive" and "fresh_gateway queue alive gw"
    and "ingest_run lib try_send recv part gw s" and "ingest_idle queue s"
    and "admit lib now gw b = None" and "length b \<le> cap"
    and "list_all (\<lambda>(_, off, _). off < int n) (ig_topic s)" and "n + length b < 2 ^ 63"
  shows "\<exists>s'. ingest_run lib try_send recv part gw s' \<and> ingest_idle queue s' \<and> ig_failed s' = ig_failed s \<and>
    ig_answers s' = ig_answers s @ [(b, Status 202)] \<and>
    ig_topic s' = ig_topic s @ stamped part n (map (pseudonymize_and_serialize lib (gs_salt gw)) b)"
proof -
  have idle: "ig_handlers s = {#}" "queue (gs_tx (ig_gw s)) = []" "ig_inflight s = {#}"
    using assms(5) by (simp_all add: ingest_idle_def)
  from take_batch [OF assms(1-4) idle(1,2) assms(6,7)] obtain s2 where s2: "ingest_run lib try_send recv part gw s2"
      "queue (gs_tx (ig_gw s2)) = []" "ig_inflight s2 = mset (map (pseudonymize_and_serialize lib (gs_salt gw)) b)"
      "ig_handlers s2 = {#}" "ig_topic s2 = ig_topic s" "ig_failed s2 = ig_failed s"
      "ig_answers s2 = ig_answers s @ [(b, Status 202)]"
    by (auto simp: idle)
  have "list_all (\<lambda>(_, off, _). off < int n) (ig_topic s2)" using assms(8) by (simp add: s2(5))
  from send_all [OF s2(1,3) this] assms(9) obtain s3 where "ingest_run lib try_send recv part gw s3"
      "ig_inflight s3 = {#}" "ig_topic s3 = ig_topic s2 @ stamped part n (map (pseudonymize_and_serialize lib (gs_salt gw)) b)"
      "ig_gw s3 = ig_gw s2" "ig_handlers s3 = ig_handlers s2" "ig_failed s3 = ig_failed s2" "ig_answers s3 = ig_answers s2"
    by auto
  with s2 show ?thesis by (intro exI [of _ s3]) (simp add: ingest_idle_def)
qed

section \<open>What the channel does not bound\<close>

lemma take_batches:
  assumes "channel_spec try_send queue alive cap" and "recv_spec recv queue alive" and "fresh_gateway queue alive gw"
    and "admit lib now gw b = None" and "length b \<le> cap"
  shows "\<exists>s. ingest_run lib try_send recv part gw s \<and> ig_handlers s = {#} \<and> queue (gs_tx (ig_gw s)) = [] \<and>
    size (ig_inflight s) = n * length b \<and> ig_topic s = [] \<and> ig_answers s = replicate n (b, Status 202)"
proof (induction n)
  case 0
  show ?case by (rule exI [of _ "ingest_init gw"])
      (use assms(3) ingest_run.start in \<open>auto simp: ingest_init_def fresh_gateway_def\<close>)
next
  case (Suc n)
  then obtain s where s: "ingest_run lib try_send recv part gw s" "ig_handlers s = {#}" "queue (gs_tx (ig_gw s)) = []"
    "size (ig_inflight s) = n * length b" "ig_topic s = []" "ig_answers s = replicate n (b, Status 202)" by blast
  from take_batch [OF assms(1-3) s(1-3) assms(4,5)] obtain s' where "ingest_run lib try_send recv part gw s'"
      "ig_handlers s' = {#}" "queue (gs_tx (ig_gw s')) = []"
      "ig_inflight s' = ig_inflight s + mset (map (pseudonymize_and_serialize lib (gs_salt gw)) b)"
      "ig_topic s' = ig_topic s" "ig_answers s' = ig_answers s @ [(b, Status 202)]" by blast
  with s(4-6) show ?case by (intro exI [of _ s']) (simp add: replicate_append_same)
qed

lemma fail_all:
  assumes "ingest_run lib try_send recv part gw s"
  shows "\<exists>s'. ingest_run lib try_send recv part gw s' \<and> ig_inflight s' = {#} \<and> ig_gw s' = ig_gw s \<and>
    ig_handlers s' = ig_handlers s \<and> ig_topic s' = ig_topic s \<and> ig_answers s' = ig_answers s"
  using assms
proof (induction "ig_inflight s" arbitrary: s)
  case empty
  then show ?case by (intro exI [of _ s]) simp
next
  case (add m ms)
  have m: "m \<in># ig_inflight s" using add.hyps(2) by (metis union_single_eq_member)
  let ?s = "s\<lparr>ig_inflight := ig_inflight s - {#m#}, ig_failed := add_mset m (ig_failed s)\<rparr>"
  have "ms = ig_inflight ?s" using add.hyps(2) by (metis add_mset_remove_trivial Ingest.select_convs(3) Ingest.update_convs(3,7) Ingest.cases_scheme)
  from add.hyps(1) [OF this ingest_run.action [OF add.prems ingest_step.send_failed [OF m]]] show ?case by simp
qed

text \<open>C23: accepted is neither bounded nor kept. The channel never holds more than its capacity, and that is
  all the backpressure there is: for any valid batch that fits into it and any \<open>n\<close>, the gateway may
  have answered \<open>202\<close> to \<open>n\<close> such posts and yet have all their sends in flight at once with nothing
  in the topic; and when the sends then fail, nothing is left to do, every post was accepted, and no event
  reached the topic, since a failed send is only logged.\<close>

theorem accepted_sends_unbounded_and_lossy:
  assumes "channel_spec try_send queue alive cap" and "recv_spec recv queue alive" and "fresh_gateway queue alive gw"
    and "admit lib now gw b = None" and "length b \<le> cap"
  shows "(\<forall>s. ingest_run lib try_send recv part gw s \<longrightarrow> length (queue (gs_tx (ig_gw s))) \<le> cap) \<and>
    (\<exists>s. ingest_run lib try_send recv part gw s \<and> ig_answers s = replicate n (b, Status 202) \<and> ig_topic s = [] \<and>
       queue (gs_tx (ig_gw s)) = [] \<and> size (ig_inflight s) = n * length b) \<and>
    (\<exists>s. ingest_run lib try_send recv part gw s \<and> ig_answers s = replicate n (b, Status 202) \<and> ig_topic s = [] \<and>
       ingest_idle queue s)"
proof -
  have bound: "length (queue (gs_tx (ig_gw s))) \<le> cap" if "ingest_run lib try_send recv part gw s" for s
    using producer_conserves [OF conjunct1 [OF ingest_refines_producer [OF assms(1-3) that]]] by (simp add: producer_of_def)
  obtain s where s: "ingest_run lib try_send recv part gw s" "ig_handlers s = {#}" "queue (gs_tx (ig_gw s)) = []"
    "size (ig_inflight s) = n * length b" "ig_topic s = []" "ig_answers s = replicate n (b, Status 202)"
    using take_batches [OF assms] by blast
  from fail_all [OF s(1)] obtain s' where "ingest_run lib try_send recv part gw s'" "ig_inflight s' = {#}"
    "ig_gw s' = ig_gw s" "ig_handlers s' = ig_handlers s" "ig_topic s' = ig_topic s" "ig_answers s' = ig_answers s" by blast
  with s have "ingest_run lib try_send recv part gw s' \<and> ig_answers s' = replicate n (b, Status 202) \<and> ig_topic s' = [] \<and>
      ingest_idle queue s'" by (simp add: ingest_idle_def)
  with s bound show ?thesis by blast
qed

definition demo_recv :: "QueuedMessage list \<times> bool \<Rightarrow> (QueuedMessage \<times> QueuedMessage list \<times> bool) option" where
  "demo_recv ch = (case fst ch of [] \<Rightarrow> None | m # ms \<Rightarrow> Some (m, ms, snd ch))"

lemma demo_recv_spec: "recv_spec demo_recv fst snd"
  by (auto simp: recv_spec_def demo_recv_def split: list.splits)

lemma demo_fresh: "fresh_gateway fst snd demo_gateway"
  by (simp add: fresh_gateway_def demo_gateway_def)

text \<open>The payloads of \<open>demo_batch\<close> and back.\<close>

definition demo_unjson :: "Event list \<Rightarrow> decode_fn" where
  "demo_unjson es = map_of (map (\<lambda>e. (to_json demo_crypto e, e)) es)"

lemma demo_json: "to_json demo_crypto e = to_json demo_crypto e' \<longleftrightarrow> ev_user e = ev_user e'"
proof
  have "map (char_of \<circ> unat) (to_json demo_crypto e) = ev_user e" for e
    by (simp add: demo_crypto_def comp_def unsigned_of_nat char_of_take_bit_eq)
  then show "to_json demo_crypto e = to_json demo_crypto e' \<Longrightarrow> ev_user e = ev_user e'" by metis
qed (simp add: demo_crypto_def)

lemma demo_unjson_round_trip:
  assumes "set es = set es'" and "inj_on ev_user (set es)"
  shows "json_round_trip (demo_unjson es) demo_crypto (set es')"
proof -
  have "e \<in> set es \<Longrightarrow> demo_unjson es (to_json demo_crypto e) = Some e" for e
    using assms(2) by (induction es) (auto simp: demo_unjson_def demo_json inj_on_def)
  with assms(1) show ?thesis by (simp add: json_round_trip_def)
qed

definition demo_stored :: "Event list" where
  "demo_stored = map (pseud_event demo_crypto ''salt-'') (batch_events demo_batch)"

lemma demo_stored_inj: "inj_on ev_user (set demo_stored)"
  by (simp add: demo_stored_def demo_batch_def demo_pseudonymize pseud_event_def)

text \<open>A run that takes and stores \<open>demo_batch\<close>.\<close>

lemma demo_delivered:
  obtains s where "ingest_run demo_crypto demo_send demo_recv (\<lambda>_. 0) demo_gateway s" "ingest_idle fst s"
    "ig_failed s = {#}" "ig_answers s = [(batch_events demo_batch, Status 202)]"
    "ig_topic s = stamped (\<lambda>_. 0) 0 (map (pseudonymize_and_serialize demo_crypto ''salt-'') (batch_events demo_batch))"
    "json_round_trip (demo_unjson demo_stored) demo_crypto
      (pseud_event demo_crypto (gs_salt demo_gateway) ` set (ig_queued s))"
    "set (ig_queued s) \<subseteq> set (batch_events demo_batch)"
proof -
  have run: "ingest_run demo_crypto demo_send demo_recv (\<lambda>_. 0) demo_gateway (ingest_init demo_gateway)" by (rule ingest_run.start)
  have idle: "ingest_idle fst (ingest_init demo_gateway)" by (simp add: ingest_idle_def ingest_init_def demo_gateway_def)
  have a: "admit demo_crypto 0 demo_gateway (batch_events demo_batch) = None"
    using demo_batch_valid unfolding admit_None by (simp add: demo_gateway_def demo_batch_def)
  have l: "length (batch_events demo_batch) \<le> 2" by (simp add: demo_batch_def)
  from deliver_batch [OF demo_send_spec demo_recv_spec demo_fresh run idle a l, of 0] l obtain s
    where s: "ingest_run demo_crypto demo_send demo_recv (\<lambda>_. 0) demo_gateway s" "ingest_idle fst s"
      "ig_failed s = {#}" "ig_answers s = [(batch_events demo_batch, Status 202)]"
      "ig_topic s = stamped (\<lambda>_. 0) 0 (map (pseudonymize_and_serialize demo_crypto (gs_salt demo_gateway)) (batch_events demo_batch))"
    by (auto simp: ingest_init_def)
  have q: "set (ig_queued s) \<subseteq> set (batch_events demo_batch)"
    using requests_invD(4) [OF ingest_requests [OF demo_send_spec demo_recv_spec demo_fresh s(1)]] s(2,4)
    by (auto simp: posted_def ingest_idle_def)
  moreover have "json_round_trip (demo_unjson demo_stored) demo_crypto (set demo_stored)"
    by (rule demo_unjson_round_trip [OF refl demo_stored_inj])
  ultimately have "json_round_trip (demo_unjson demo_stored) demo_crypto
      (pseud_event demo_crypto (gs_salt demo_gateway) ` set (ig_queued s))"
    by (auto simp: json_round_trip_def demo_stored_def demo_gateway_def)
  with s q that show ?thesis by (simp add: demo_gateway_def)
qed

theorem topic_holds_admitted_events_witness:
  "\<exists>s. ingest_run demo_crypto demo_send demo_recv (\<lambda>_. 0) demo_gateway s \<and> length (ig_topic s) = 2 \<and>
     length (decoded_log (demo_unjson demo_stored) (partition_raw (ig_topic s) 0)) = 2"
proof -
  obtain s where run: "ingest_run demo_crypto demo_send demo_recv (\<lambda>_. 0) demo_gateway s"
    and topic: "ig_topic s = stamped (\<lambda>_. 0) 0 (map (pseudonymize_and_serialize demo_crypto ''salt-'') (batch_events demo_batch))"
    and j: "json_round_trip (demo_unjson demo_stored) demo_crypto (pseud_event demo_crypto (gs_salt demo_gateway) ` set (ig_queued s))"
    by (rule demo_delivered)
  have "length (partition_raw (ig_topic s) 0) = 2" "length (ig_topic s) = 2"
    by (simp_all add: topic partition_raw_def demo_batch_def)
  with topic_holds_admitted_events [OF demo_send_spec demo_recv_spec demo_fresh run j, of 0] run show ?thesis by auto
qed

theorem accepted_events_reach_topic_witness:
  "\<exists>s. ingest_run demo_crypto demo_send demo_recv (\<lambda>_. 0) demo_gateway s \<and>
     pseud_event demo_crypto ''salt-'' (hd (batch_events demo_batch)) \<in>
       snd ` set (decoded_log (demo_unjson demo_stored) (partition_raw (ig_topic s) 0))"
proof -
  obtain s where run: "ingest_run demo_crypto demo_send demo_recv (\<lambda>_. 0) demo_gateway s"
    and idle: "ingest_idle fst s" "ig_failed s = {#}" "ig_answers s = [(batch_events demo_batch, Status 202)]"
    and j: "json_round_trip (demo_unjson demo_stored) demo_crypto (pseud_event demo_crypto (gs_salt demo_gateway) ` set (ig_queued s))"
    by (rule demo_delivered)
  have a: "(batch_events demo_batch, Status 202) \<in> set (ig_answers s)" using idle(3) by simp
  have "hd (batch_events demo_batch) \<in> set (batch_events demo_batch)" by (simp add: demo_batch_def)
  from accepted_events_reach_topic [OF demo_send_spec demo_recv_spec demo_fresh run idle(1,2) j a this] run
  show ?thesis by (auto simp: demo_gateway_def)
qed

text \<open>A run that takes two batches of the load generator.\<close>

definition demo_generated :: "uuid \<Rightarrow> nat \<Rightarrow> Event" where
  "demo_generated i u = projr (gen_one (demo_draw i u True))"

lemma demo_generated_fields [simp]:
  "ev_ts (demo_generated i u) = seconds 6000" "ev_user (demo_generated i u) = ''loadgen-user-'' @ show_nat u"
  by (simp_all add: demo_generated_def demo_event_of_draw)

lemma demo_generated_admitted:
  "b \<noteq> [] \<Longrightarrow> length b \<le> 5 \<Longrightarrow> list_all (\<lambda>e. \<exists>i u. e = demo_generated i u) b \<Longrightarrow>
     admit demo_crypto (seconds 6000) demo_gateway b = None"
  by (auto simp: admit_None demo_gateway_def list_all_iff demo_generated_def demo_event_of_draw validate_def Let_def
      seconds_def MAX_FUTURE_SKEW_SECS_def)

definition demo_generated_batches :: "Event list list" where
  "demo_generated_batches = [[demo_generated 1 1, demo_generated 1 1], [demo_generated 2 2]]"

definition demo_generated_stored :: "Event list" where
  "demo_generated_stored = map (pseud_event demo_crypto ''salt-'') (concat demo_generated_batches)"

lemma demo_generated_json:
  "json_round_trip (demo_unjson demo_generated_stored) demo_crypto
     (pseud_event demo_crypto (gs_salt demo_gateway) ` set (concat demo_generated_batches))"
proof -
  have "show_nat 1 \<noteq> show_nat 2" by code_simp
  then have "inj_on ev_user (set demo_generated_stored)"
    by (auto simp: demo_generated_stored_def demo_generated_batches_def demo_pseudonymize inj_on_def)
  from demo_unjson_round_trip [OF refl this] show ?thesis
    by (simp add: demo_generated_stored_def demo_gateway_def)
qed

lemma demo_generated_pseudonyms:
  "inj_on (pseudonymize demo_crypto (gs_salt demo_gateway)) (ev_user ` set (concat demo_generated_batches))"
  by (simp add: inj_on_def demo_pseudonymize)

definition demo_generated_topic :: "(i32 \<times> i64 \<times> QueuedMessage) list" where
  "demo_generated_topic = stamped (\<lambda>_. 0) 0 (map (pseudonymize_and_serialize demo_crypto ''salt-'') (concat demo_generated_batches))"

lemma demo_generated_ingested:
  "\<exists>s. ingest_run demo_crypto demo_send demo_recv (\<lambda>_. 0) demo_gateway s \<and> took_all fst demo_generated_batches s \<and>
     ig_topic s = demo_generated_topic"
proof -
  let ?b1 = "[demo_generated 1 1, demo_generated 1 1]" and ?b2 = "[demo_generated 2 2]"
  have run: "ingest_run demo_crypto demo_send demo_recv (\<lambda>_. 0) demo_gateway (ingest_init demo_gateway)" by (rule ingest_run.start)
  have idle: "ingest_idle fst (ingest_init demo_gateway)" by (simp add: ingest_idle_def ingest_init_def demo_gateway_def)
  have a: "admit demo_crypto (seconds 6000) demo_gateway ?b1 = None" "admit demo_crypto (seconds 6000) demo_gateway ?b2 = None"
    by (rule demo_generated_admitted; auto)+
  have l: "length ?b1 \<le> 2" "length ?b2 \<le> 2" by simp_all
  from deliver_batch [OF demo_send_spec demo_recv_spec demo_fresh run idle a(1) l(1), of 0] obtain s1
    where s1: "ingest_run demo_crypto demo_send demo_recv (\<lambda>_. 0) demo_gateway s1" "ingest_idle fst s1"
      "ig_failed s1 = {#}" "ig_answers s1 = [(?b1, Status 202)]"
      "list_all (\<lambda>(_, off, _). off < int 2) (ig_topic s1)"
      "ig_topic s1 = stamped (\<lambda>_. 0) 0 (map (pseudonymize_and_serialize demo_crypto (gs_salt demo_gateway)) ?b1)"
    by (auto simp: ingest_init_def)
  from deliver_batch [OF demo_send_spec demo_recv_spec demo_fresh s1(1,2) a(2) l(2) s1(5)] obtain s2
    where "ingest_run demo_crypto demo_send demo_recv (\<lambda>_. 0) demo_gateway s2" "ingest_idle fst s2"
      "ig_failed s2 = {#}" "ig_answers s2 = [(?b1, Status 202), (?b2, Status 202)]"
      "ig_topic s2 = ig_topic s1 @ stamped (\<lambda>_. 0) 2 (map (pseudonymize_and_serialize demo_crypto (gs_salt demo_gateway)) ?b2)"
    by (auto simp: s1)
  then show ?thesis
    by (intro exI [of _ s2]) (simp add: took_all_def demo_generated_batches_def demo_generated_topic_def s1(6) demo_gateway_def)
qed

theorem accepted_sends_unbounded_and_lossy_witness:
  "\<exists>s s'. ingest_run demo_crypto demo_send demo_recv (\<lambda>_. 0) demo_gateway s \<and>
     ingest_run demo_crypto demo_send demo_recv (\<lambda>_. 0) demo_gateway s' \<and> size (ig_inflight s) = 14 \<and> ig_topic s = [] \<and>
     ig_answers s' = replicate 7 ([demo_generated 1 1, demo_generated 2 2], Status 202) \<and> ig_topic s' = [] \<and> ingest_idle fst s'"
proof -
  let ?b = "[demo_generated 1 1, demo_generated 2 2]"
  have a: "admit demo_crypto (seconds 6000) demo_gateway ?b = None" by (rule demo_generated_admitted) auto
  have l: "length ?b \<le> 2" by simp
  from accepted_sends_unbounded_and_lossy [OF demo_send_spec demo_recv_spec demo_fresh a l, of "\<lambda>_. 0" 7] show ?thesis by auto
qed

end
