(* ===== verification/Tables.thy ===== *)
theory Tables
  imports ExactlyOnce QueryApi
begin

text \<open>
  What the query API may rely on about the tables, whatever the aggregators did before: the type of
  the rows that can ever be stored, and that no read of them fails or panics.
\<close>

text \<open>A row as the schema and the code intend it: a cell of the hierarchy in an aligned window, with at
  least one user, no more users than events, counts in the range of \<open>bigint\<close> and a sketch of the
  default precision exactly when sketches are enabled.\<close>

definition row_typed :: "bool \<Rightarrow> row \<Rightarrow> bool" where
  "row_typed hll_on r \<longleftrightarrow>
     wf_key (row_key r) \<and> WINDOW_SIZE dvd row_window r \<and>
     0 < col_users (snd r) \<and> col_users (snd r) \<le> col_events (snd r) \<and> col_events (snd r) < 2 ^ 63 \<and>
     (case col_users_hll (snd r) of
        None \<Rightarrow> \<not> hll_on
      | Some b \<Rightarrow> hll_on \<and> (\<exists>h. hll_ok h \<and> from_bytes b = Some h))"

definition tables_typed :: "bool \<Rightarrow> Database \<Rightarrow> bool" where
  "tables_typed hll_on db \<longleftrightarrow> db_ok db \<and> list_all (row_typed hll_on) (agg_cells db)"

text \<open>An accumulator of the sketch-merging reads.\<close>

definition acc_ok :: "i64 \<times> HyperLogLog option \<Rightarrow> bool" where
  "acc_ok acc \<longleftrightarrow> (case snd acc of None \<Rightarrow> True | Some h \<Rightarrow> hll_ok h)"

definition groups_ok :: "hll_groups \<Rightarrow> bool" where
  "groups_ok g \<longleftrightarrow> (\<forall>k en. map_of g k = Some en \<longrightarrow> acc_ok en)"

section \<open>The type of the rows\<close>

lemma contributing_member: "r \<in> set (contributing k rs) \<Longrightarrow> r \<in> set rs \<and> k \<in> set (cells_for_event (snd r))"
  using dedup_subset by (fastforce simp: contributing_def)

lemma true_users_bounds:
  assumes "0 < true_events k rs"
  shows "0 < card (true_users k rs)" "card (true_users k rs) \<le> true_events k rs"
proof -
  from assms show "0 < card (true_users k rs)" by (auto simp: true_events_def true_users_def card_gt_0_iff)
  have "card (true_users k rs) \<le> card (set (contributing k rs))"
    unfolding true_users_def by (rule card_image_le) simp
  also have "\<dots> \<le> true_events k rs" unfolding true_events_def by (rule card_length)
  finally show "card (true_users k rs) \<le> true_events k rs" .
qed

lemma row_from_log_typed:
  assumes "log_ok lg" and "row_from_log hll_on lg w k row"
  shows "row_typed hll_on ((w, k, p), row) \<and> col_events row \<le> int (length lg)"
proof -
  from row_from_log_counts [OF assms] obtain n where rc: "row_counts hll_on k (in_window w (before lg n)) row" ..
  let ?rs = "in_window w (before lg n)"
  have pos: "0 < true_events k ?rs" and ev: "col_events row = int (true_events k ?rs)"
    and us: "col_users row = int (card (true_users k ?rs))" using rc by (auto simp: row_counts_def)
  obtain r where "r \<in> set (contributing k ?rs)" using pos by (cases "contributing k ?rs") (auto simp: true_events_def)
  from contributing_member [OF this] have "wf_key k" "rec_window r = w"
    by (auto simp: in_window_def intro: wf_cells_for_event)
  then have "WINDOW_SIZE dvd w" by (auto simp: rec_window_def wstart_def)
  moreover have le: "true_events k ?rs \<le> length lg"
    using true_totals_bound(1) [of k ?rs] in_window_length [of w lg n] by linarith
  moreover have "from_bytes (to_bytes (fold hll_ins us hll_empty)) = Some (fold hll_ins us hll_empty)" for us
    by (rule from_to_bytes) simp
  ultimately show ?thesis
    using rc \<open>wf_key k\<close> true_users_bounds [OF pos] log_length [OF assms(1)]
    by (auto simp: row_typed_def ev us row_counts_def intro!: exI [of _ "fold hll_ins _ hll_empty"])
qed

lemma db_inv_typed:
  assumes "db_inv hll_on lg db" and "\<And>p. log_ok (lg p)"
  shows "tables_typed hll_on db"
proof -
  have ok: "db_ok db" using assms(1) by (simp add: db_inv_def)
  have "row_typed hll_on r" if "r \<in> set (agg_cells db)" for r
  proof -
    obtain w k p row where r: "r = ((w, k, p), row)" by (metis prod.exhaust)
    then have "map_of (agg_cells db) (w, k, p) = Some row" using that ok by (simp add: db_ok_def al_inv_def)
    then have "row_from_log hll_on (lg p) w k row" using assms(1) by (simp add: db_inv_def)
    with row_from_log_typed [OF assms(2)] r show ?thesis by blast
  qed
  with ok show ?thesis by (simp add: tables_typed_def list_all_iff)
qed

lemma typed_keys_wf: "tables_typed hll_on db \<Longrightarrow> keys_wf db"
  by (auto simp: tables_typed_def keys_wf_def row_typed_def list_all_iff)

section \<open>Reads that sum\<close>

lemma cell_sums_bounded:
  assumes inv: "db_inv hll_on lg db" and ok: "\<And>p. log_ok (lg p)"
    and fin: "finite ps" and cover: "\<forall>p. p \<notin> ps \<longrightarrow> lg p = []"
  shows "0 \<le> sum_list (map col_users (cell_where db w k))"
    "sum_list (map col_users (cell_where db w k)) \<le> sum_list (map col_events (cell_where db w k))"
    "sum_list (map col_events (cell_where db w k)) \<le> int (\<Sum>p \<in> ps. length (lg p))"
proof -
  let ?rs = "filter (\<lambda>r. row_window r = w \<and> row_key r = k) (agg_cells db)"
  have al: "al_inv (agg_cells db)" using inv by (simp add: db_inv_def db_ok_def)
  note rows = cell_rows_partitions [OF al, where w = w and key = k]
  have row: "0 \<le> col_users (snd r) \<and> col_users (snd r) \<le> col_events (snd r) \<and>
      0 < col_events (snd r) \<and> col_events (snd r) \<le> int (length (lg (row_partition r)))" if "r \<in> set ?rs" for r
  proof -
    have "row_from_log hll_on (lg (row_partition r)) w k (snd r)" using rows(2) [of r] that inv by (simp add: db_inv_def)
    from row_from_log_typed [OF ok this] show ?thesis by (auto simp: row_typed_def)
  qed
  show "0 \<le> sum_list (map col_users (cell_where db w k))"
    unfolding cell_where_def map_map by (rule sum_list_nonneg) (use row in auto)
  show "sum_list (map col_users (cell_where db w k)) \<le> sum_list (map col_events (cell_where db w k))"
    unfolding cell_where_def map_map by (rule sum_list_mono) (use row in auto)
  have "sum_list (map col_events (cell_where db w k)) \<le> sum_list (map (\<lambda>r. int (length (lg (row_partition r)))) ?rs)"
    unfolding cell_where_def map_map by (rule sum_list_mono) (use row in auto)
  also have "\<dots> = (\<Sum>p \<in> row_partition ` set ?rs. int (length (lg p)))"
    using sum_list_distinct_conv_sum_set [OF rows(1), of "\<lambda>p. int (length (lg p))"] by (simp add: comp_def)
  also have "\<dots> \<le> (\<Sum>p \<in> ps. int (length (lg p)))"
  proof (rule sum_mono2 [OF fin])
    show "row_partition ` set ?rs \<subseteq> ps" using row cover by fastforce
  qed simp
  finally show "sum_list (map col_events (cell_where db w k)) \<le> int (\<Sum>p \<in> ps. length (lg p))" by simp
qed

lemma summed_cell_total:
  assumes "db_inv hll_on lg db" and "\<And>p. log_ok (lg p)" and "finite ps" and "\<forall>p. p \<notin> ps \<longrightarrow> lg p = []"
    and "(\<Sum>p \<in> ps. length (lg p)) < 2 ^ 63"
  shows "\<exists>rc. summed_cell fwn (cell_where db w k) = Inr rc"
proof -
  note b = cell_sums_bounded [OF assms(1-4), of w k]
  have "int (\<Sum>p \<in> ps. length (lg p)) < 2 ^ 63" using assms(5) by (metis of_nat_less_iff of_nat_numeral of_nat_power)
  then have "in_i64 (sum_list (map col_events (cell_where db w k)))" "in_i64 (sum_list (map col_users (cell_where db w k)))"
    using b by (simp_all add: in_i64_def)
  then show ?thesis by (simp add: summed_cell_def sum_bigint_def)
qed

section \<open>Reads that merge sketches\<close>

lemma add_hll_row_total:
  assumes "row_typed hll_on r" and "acc_ok acc"
  shows "\<exists>acc'. add_hll_row (snd r) acc = Inr acc' \<and> acc_ok acc'"
proof (cases "col_users_hll (snd r)")
  case (Some b)
  with assms(1) obtain h where h: "hll_ok h" "from_bytes b = Some h" by (auto simp: row_typed_def)
  with Some assms(2) show ?thesis
    by (cases "snd acc") (auto simp: add_hll_row_def merge_hll_bytes_def acc_ok_def hll_merge_eq)
qed (use assms(2) in \<open>simp add: add_hll_row_def merge_hll_bytes_def acc_ok_def\<close>)

lemma group_hll_row_total:
  assumes "row_typed hll_on r" and "groups_ok grouped"
  shows "\<exists>g'. group_hll_row r grouped = Inr g' \<and> groups_ok g'"
proof -
  let ?en = "case map_of grouped (full_columns r) of None \<Rightarrow> (0, None) | Some en \<Rightarrow> en"
  have "acc_ok ?en"
  proof (cases "map_of grouped (full_columns r)")
    case (Some en)
    with assms(2) have "acc_ok en" unfolding groups_ok_def by blast
    with Some show ?thesis by simp
  qed (simp add: acc_ok_def)
  from add_hll_row_total [OF assms(1) this] obtain en' where "add_hll_row (snd r) ?en = Inr en'" "acc_ok en'" by blast
  with assms(2) show ?thesis by (auto simp: group_hll_row_def groups_ok_def Let_def)
qed

lemma fetch_cell_hll_total:
  assumes "tables_typed hll_on db"
  shows "\<exists>c. fetch_cell_hll True db w k = Inr c"
proof -
  have "\<exists>acc. fold_res add_hll_row (cell_where db w k) (0, None) = Inr acc \<and> acc_ok acc"
  proof (rule fold_res_total)
    fix row acc assume "row \<in> set (cell_where db w k)" and a: "acc_ok acc"
    then obtain r where "r \<in> set (agg_cells db)" "row = snd r" by (auto simp: cell_where_def)
    moreover from this assms have "row_typed hll_on r" by (simp add: tables_typed_def list_all_iff)
    ultimately show "\<exists>acc'. add_hll_row row acc = Inr acc' \<and> acc_ok acc'" using add_hll_row_total [OF _ a] by blast
  qed (simp add: acc_ok_def)
  then show ?thesis by (auto simp: fetch_cell_hll_def Let_def)
qed

lemma fetch_children_hll_total:
  assumes "tables_typed hll_on db"
  shows "\<exists>cs. fetch_children_hll True db w par = Inr cs"
proof -
  have "\<exists>g. fold_res group_hll_row (child_where db w par) [] = Inr g \<and> groups_ok g"
  proof (rule fold_res_total)
    fix r grouped assume r: "r \<in> set (child_where db w par)" and g: "groups_ok grouped"
    from r have "r \<in> set (agg_cells db)" by (auto simp: child_where_def Let_def split: if_splits)
    with assms have "row_typed hll_on r" by (simp add: tables_typed_def list_all_iff)
    from group_hll_row_total [OF this g] show "\<exists>g'. group_hll_row r grouped = Inr g' \<and> groups_ok g'" .
  qed (simp add: groups_ok_def)
  then show ?thesis by (auto simp: fetch_children_hll_def)
qed

section \<open>The whole query path\<close>

lemma length_decoded_log: "length (decoded_log decode raws) \<le> length raws"
  by (induction raws) (simp_all add: decoded_log_Cons decoded_log_def map_filter_simps le_SucI split: option.splits)

lemma parent_key_valid:
  assumes "LEVEL_GLOBAL < q_level q" and "q_level q \<le> LEVEL_NAMESPACE"
    and "\<not> (q_level q \<ge> LEVEL_WIKI \<and> q_family q = None)" and "\<not> (q_level q \<ge> LEVEL_NAMESPACE \<and> q_wiki q = None)"
  shows "\<exists>par. parent_key q = Inr par \<and> inner_key par"
proof -
  have "q_level q = 1 \<or> q_level q = 2 \<or> q_level q = 3" using assms(1,2) by (auto simp: key_defs)
  with assms(3,4) show ?thesis
    by (auto simp: parent_key_def inner_key_def wf_key_def key_defs split: option.splits)
qed

lemma compute_stats_total:
  assumes inv: "db_inv hll_on lg (as_db st)" and ok: "\<And>p. log_ok (lg p)"
    and fin: "finite ps" "\<forall>p. p \<notin> ps \<longrightarrow> lg p = []" "(\<Sum>p \<in> ps. length (lg p)) < 2 ^ 63"
    and q: "LEVEL_GLOBAL \<le> q_level q" "q_level q \<le> LEVEL_NAMESPACE"
      "\<not> (q_level q \<ge> LEVEL_WIKI \<and> q_family q = None)" "\<not> (q_level q \<ge> LEVEL_NAMESPACE \<and> q_wiki q = None)"
  shows "\<exists>r. compute_stats (\<lambda>_. True) rng st q = Inr r"
proof -
  have typed: "tables_typed hll_on (as_db st)" using db_inv_typed [OF inv ok] .
  have fc: "\<exists>c. fetch_cell True (as_db st) w k = Inr c" for w k
    using summed_cell_total [OF inv ok fin, where fwn = "(ck_family k, ck_wiki k, ck_namespace k)" and w = w and k = k]
    by (auto simp: fetch_cell_def)
  note fch = fetch_cell_hll_total [OF typed] fetch_children_hll_total [OF typed]
  show ?thesis
  proof (cases "q_level q = LEVEL_GLOBAL")
    case True
    with fc [of "q_window q" global_key] fch(1) [of "q_window q" global_key] show ?thesis
      by (auto simp: compute_stats_def split: Estimator.splits)
  next
    case False
    then obtain par where par: "parent_key q = Inr par" "inner_key par"
      using parent_key_valid [of q] q by fastforce
    have "\<exists>cs. fetch_children True (as_db st) (q_window q) par = Inr cs"
    proof -
      have "\<exists>cs. map_res (\<lambda>(fwn, rs). summed_cell fwn rs)
          (group_by (child_columns par) (child_where (as_db st) (q_window q) par)) = Inr cs"
      proof (rule map_res_total)
        fix x assume x: "x \<in> set (group_by (child_columns par) (child_where (as_db st) (q_window q) par))"
        obtain fwn rs where e: "x = (fwn, rs)" by (cases x)
        with x have "rs = cell_where (as_db st) (q_window q) (child_key par fwn)"
          using group_members(3) [OF par(2) typed_keys_wf [OF typed]] by blast
        with e summed_cell_total [OF inv ok fin] show "\<exists>y. (\<lambda>(fwn, rs). summed_cell fwn rs) x = Inr y" by simp
      qed
      then show ?thesis by (simp add: fetch_children_def)
    qed
    with fc [of "q_window q" par] fch(1) [of "q_window q" par] fch(2) [of "q_window q" par] False par(1) show ?thesis
      by (auto simp: compute_stats_def Let_def split: Estimator.splits)
  qed
qed

text \<open>C14: the tables stay well typed. Whatever any number of aggregators did before (crashes, failed
  writes, rebalances and stale writers included), primary keys are unique and every row is a cell of
  the hierarchy in an aligned window, with \<open>0 < users \<le> events < 2^63\<close> and a decodable sketch of
  the default precision exactly when sketches are enabled.\<close>

theorem reachable_tables_typed:
  assumes "reachable decode trunc hll_on raw s"
    and "duration_trunc_spec trunc" and "\<forall>p. raw_ok decode (raw p)"
  shows "tables_typed hll_on (sys_db s)"
proof (rule db_inv_typed)
  show "db_inv hll_on (\<lambda>p. decoded_log decode (raw p)) (sys_db s)"
    using reachable_inv [OF assms(1,2)] assms(3) by blast
qed (use assms(3) raw_ok_log_ok in blast)

theorem reachable_tables_typed_witness:
  "\<exists>s. reachable demo_decode floor_trunc False demo_raw s \<and> agg_cells (sys_db s) \<noteq> [] \<and> tables_typed False (sys_db s)"
proof -
  obtain w db where run: "demo_run demo_flush = Some (w, db)"
    and row: "map_of (agg_cells db) (seconds 6000, global_key, 0) = Some \<lparr>col_events = 2, col_users = 2, col_users_hll = None\<rparr>"
    using demo_flush_result by (auto split: option.splits)
  then obtain s where s: "reachable demo_decode floor_trunc False demo_raw s" "sys_db s = db"
    using demo_run_reachable by blast
  with row reachable_tables_typed [OF s(1) floor_trunc_spec] demo_raw_ok show ?thesis by force
qed

text \<open>C15: valid queries are answered. Over the tables of any reachable system whose logs hold fewer than
  2^63 records in all, a request with a legal level and the parameters the level needs is, as long
  as the database answers, either refused as incomplete (409) or served: no stored row makes the
  exact or the sketch path fail or panic.\<close>

theorem valid_queries_never_fail:
  assumes "reachable decode trunc hll_on raw s"
    and "duration_trunc_spec trunc" and "\<forall>p. raw_ok decode (raw p)"
    and "finite ps" and "\<forall>p. p \<notin> ps \<longrightarrow> raw p = []" and "(\<Sum>p \<in> ps. length (raw p)) < 2 ^ 63"
    and "as_db st = sys_db s" and "0 \<le> q_level q" and "q_level q \<le> 3"
    and "q_level q \<ge> 2 \<longrightarrow> q_family q \<noteq> None" and "q_level q = 3 \<longrightarrow> q_wiki q \<noteq> None"
  shows "(\<exists>r. snd (get_stats to_rfc3339 (\<lambda>_. True) rng st q) = HttpOk r) \<or>
    get_stats to_rfc3339 (\<lambda>_. True) rng st q =
      (st, HttpErr 409 ''window is not yet fully flushed by every partition'')"
proof -
  let ?lg = "\<lambda>p. decoded_log decode (raw p)"
  have inv: "db_inv hll_on ?lg (as_db st)" using reachable_inv [OF assms(1,2)] assms(3,7) by simp
  have ok: "log_ok (?lg p)" for p using assms(3) raw_ok_log_ok by blast
  have len: "length (?lg p) \<le> length (raw p)" for p by (rule length_decoded_log)
  have cover: "\<forall>p. p \<notin> ps \<longrightarrow> ?lg p = []" using assms(5) len by (metis le_zero_eq length_0_conv)
  have small: "(\<Sum>p \<in> ps. length (?lg p)) < 2 ^ 63" using sum_mono [of ps, OF len] assms(6) by (rule le_less_trans)
  have q: "LEVEL_GLOBAL \<le> q_level q" "q_level q \<le> LEVEL_NAMESPACE"
      "\<not> (q_level q \<ge> LEVEL_WIKI \<and> q_family q = None)" "\<not> (q_level q \<ge> LEVEL_NAMESPACE \<and> q_wiki q = None)"
    using assms(8-11) by (auto simp: key_defs)
  from compute_stats_total [OF inv ok assms(4) cover small q] obtain r
    where "compute_stats (\<lambda>_. True) rng st q = Inr r" by blast
  with q show ?thesis
    by (auto simp: get_stats_def min_flushed_watermark_def Let_def split: option.splits)
qed

theorem valid_queries_never_fail_witness:
  "\<exists>s r. reachable demo_decode floor_trunc False demo_raw s \<and>
     (snd (get_stats (\<lambda>_. ''t'') (\<lambda>_. True) (\<lambda>_. 0) (demo_app\<lparr>as_db := sys_db s\<rparr>) (demo_query 1)) = HttpOk r \<or>
      get_stats (\<lambda>_. ''t'') (\<lambda>_. True) (\<lambda>_. 0) (demo_app\<lparr>as_db := sys_db s\<rparr>) (demo_query 1) =
        (demo_app\<lparr>as_db := sys_db s\<rparr>, HttpErr 409 ''window is not yet fully flushed by every partition''))"
proof -
  obtain w db where "demo_run demo_flush = Some (w, db)"
    using demo_flush_result by (auto split: option.splits)
  then obtain s where s: "reachable demo_decode floor_trunc False demo_raw s" using demo_run_reachable by blast
  let ?st = "demo_app\<lparr>as_db := sys_db s\<rparr>"
  have c: "\<forall>p. p \<notin> {0} \<longrightarrow> demo_raw p = []" "(\<Sum>p \<in> {0}. length (demo_raw p)) < 2 ^ 63" by (simp_all add: demo_raw_def)
  have q: "0 \<le> q_level (demo_query 1)" "q_level (demo_query 1) \<le> 3"
      "q_level (demo_query 1) \<ge> 2 \<longrightarrow> q_family (demo_query 1) \<noteq> None"
      "q_level (demo_query 1) = 3 \<longrightarrow> q_wiki (demo_query 1) \<noteq> None" by (simp_all add: demo_query_def)
  have d: "as_db ?st = sys_db s" "\<forall>p. raw_ok demo_decode (demo_raw p)" "finite {0 :: i32}" by (simp_all add: demo_raw_ok)
  from valid_queries_never_fail [OF s floor_trunc_spec d(2,3) c d(1) q, of "\<lambda>_. ''t''" "\<lambda>_. 0"] s
  show ?thesis by blast
qed

end
