(* ===== verification/QueryTruth.thy ===== *)
theory QueryTruth
  imports Ingest Tables
begin

text \<open>
  From the accepted batches to the answers of the query API: what a query reports is a statement about
  the events that were posted. The tables written by the aggregators are related to the set of events
  (\<open>tables_count\<close>), and the whole path of a query (the checks, the two reads, suppression) is followed from
  there. The aggregators run concurrently, in any orderly run of \<open>Orderly\<close>.
\<close>

text \<open>The tables say, for every cell of a window, how many events and how many different users there were.
  The totals are spread over rows of several partitions with disjoint sets of users.\<close>

definition tables_count :: "Database \<Rightarrow> i32 set \<Rightarrow> Event set \<Rightarrow> datetime \<Rightarrow> bool" where
  "tables_count db ps S w \<longleftrightarrow> keys_wf db \<and> al_inv (agg_cells db) \<and> finite ps \<and> finite S \<and> card S < 2 ^ 63 \<and>
     (\<forall>k. (\<exists>ev us. rows_by_partition db w k ps ev us \<and> (\<forall>p. finite (us p)) \<and> (\<forall>p q. p \<noteq> q \<longrightarrow> us p \<inter> us q = {}) \<and>
        (\<forall>p \<in> ps. ev p = 0 \<longrightarrow> map_of (agg_cells db) (w, k, p) = None) \<and>
        sum ev ps = card (hit_set (w, k) S) \<and> card (\<Union>p \<in> ps. us p) = card (ev_user ` hit_set (w, k) S)))"

text \<open>The children of a cell that have events in a window, and the row that reports one of them.\<close>

definition child_cells :: "CellKey \<Rightarrow> datetime \<Rightarrow> Event set \<Rightarrow> CellKey set" where
  "child_cells par w S = {c. parent c = Some par \<and> wf_key c \<and> hit_set (w, c) S \<noteq> {}}"

definition true_cell :: "datetime \<Rightarrow> Event set \<Rightarrow> CellKey \<Rightarrow> RawCell" where
  "true_cell w S c = \<lparr>rc_family = ck_family c, rc_wiki = ck_wiki c, rc_namespace = ck_namespace c,
     rc_events = of_nat (card (hit_set (w, c) S)), rc_users = of_nat (card (ev_user ` hit_set (w, c) S))\<rparr>"

section \<open>Reads\<close>

lemma map_sum_Inr: "map_sum f g x = Inr y \<longleftrightarrow> (\<exists>z. x = Inr z \<and> y = g z)"
  by (cases x) auto

lemma fetch_cell_true:
  assumes "tables_count db ps S w"
  shows "fetch_cell True db w k = Inr (Some (true_cell w S k))"
proof -
  obtain ev us where rows: "rows_by_partition db w k ps ev us" and us: "\<forall>p. finite (us p)" "\<forall>p q. p \<noteq> q \<longrightarrow> us p \<inter> us q = {}"
    and tot: "sum ev ps = card (hit_set (w, k) S)" "card (\<Union>p \<in> ps. us p) = card (ev_user ` hit_set (w, k) S)"
    using assms unfolding tables_count_def by metis
  have fin: "finite ps" "finite S" "card S < 2 ^ 63" using assms by (simp_all add: tables_count_def)
  have le: "card (hit_set (w, k) S) \<le> card S" using fin(2) by (intro card_mono) (auto simp: hit_set_def)
  have "finite (hit_set (w, k) S)" using fin(2) by (simp add: hit_set_def)
  with le have le2: "card (ev_user ` hit_set (w, k) S) \<le> card S" using card_image_le le_trans by blast
  have b: "sum ev ps < 2 ^ 63" "card (\<Union>p \<in> ps. us p) < 2 ^ 63" using le le2 fin(3) tot by linarith+
  from fetch_cell_exact_distinct [OF rows fin(1) us b] obtain rc where rc: "fetch_cell True db w k = Inr (Some rc)"
    "unat (rc_events rc) = card (hit_set (w, k) S)" "unat (rc_users rc) = card (ev_user ` hit_set (w, k) S)"
    by (auto simp: tot)
  from rc(1) have "(rc_family rc, rc_wiki rc, rc_namespace rc) = (ck_family k, ck_wiki k, ck_namespace k)"
    by (auto simp: fetch_cell_def map_sum_Inr dest: summed_cell_fields)
  moreover have "rc_events rc = of_nat (card (hit_set (w, k) S))" "rc_users rc = of_nat (card (ev_user ` hit_set (w, k) S))"
    by (simp_all flip: rc(2,3))
  ultimately show ?thesis using rc(1) by (simp add: true_cell_def)
qed

lemma cell_where_empty:
  assumes "tables_count db ps S w"
  shows "cell_where db w k = [] \<longleftrightarrow> hit_set (w, k) S = {}"
proof -
  obtain ev us where rows: "rows_by_partition db w k ps ev us"
    and zero: "\<forall>p \<in> ps. ev p = 0 \<longrightarrow> map_of (agg_cells db) (w, k, p) = None" and tot: "sum ev ps = card (hit_set (w, k) S)"
    using assms unfolding tables_count_def by metis
  have fin: "finite ps" "finite (hit_set (w, k) S)" and inv: "al_inv (agg_cells db)"
    using assms by (simp_all add: tables_count_def hit_set_def)
  have ev: "sum_list (map col_events (cell_where db w k)) = int (sum ev ps)"
    by (rule sum_rows [OF rows fin(1)]) (use rows_by_partitionD [OF rows] in blast)+
  show ?thesis
  proof
    assume "cell_where db w k = []"
    with ev tot fin(2) show "hit_set (w, k) S = {}" by simp
  next
    assume "hit_set (w, k) S = {}"
    then have "\<forall>p \<in> ps. ev p = 0" using tot fin(1) by simp
    with zero have none: "\<forall>p \<in> ps. map_of (agg_cells db) (w, k, p) = None" by blast
    have "map_of (agg_cells db) (w, k, p) = None" for p
    proof (rule ccontr)
      assume "map_of (agg_cells db) (w, k, p) \<noteq> None"
      then obtain row where "map_of (agg_cells db) (w, k, p) = Some row" by blast
      with rows_by_partitionD(1) [OF rows] none show False by force
    qed
    then show "cell_where db w k = []"
      using cell_rows_partitions(2) [OF inv, where w = w and key = k] by (auto simp: cell_where_def filter_empty_conv)
  qed
qed

lemma fetch_children_true:
  assumes "tables_count db ps S w" and "inner_key par"
  obtains cs where "fetch_children True db w par = Inr (map (true_cell w S) cs)" "distinct cs"
    "set cs = child_cells par w S"
proof -
  have wf: "keys_wf db" using assms(1) by (simp add: tables_count_def)
  have one: "summed_cell fwn rs = Inr (true_cell w S (child_key par fwn))"
    if "(fwn, rs) \<in> set (group_by (child_columns par) (child_where db w par))" for fwn rs
    using fetch_cell_true [OF assms(1), of "child_key par fwn"] group_members(3) [OF assms(2) wf that]
    by (auto simp: fetch_cell_def child_key_def map_sum_Inr)
  have "\<exists>cs. map_res (\<lambda>(fwn, rs). summed_cell fwn rs) (group_by (child_columns par) (child_where db w par)) = Inr cs"
    by (rule map_res_total) (use one in auto)
  then obtain cs where f: "fetch_children True db w par = Inr cs" by (auto simp: fetch_children_def)
  note ch = fetch_children_are_the_children [OF assms(2) wf f]
  have "rc = true_cell w S (key_of_cell par rc)" if "rc \<in> set cs" for rc
    using ch that fetch_cell_true [OF assms(1), of "key_of_cell par rc"] by (auto simp: list_all_iff)
  then have "cs = map (true_cell w S) (map (key_of_cell par) cs)" by (induction cs) auto
  moreover have "set (map (key_of_cell par) cs) = child_cells par w S"
    using ch cell_where_empty [OF assms(1)] by (simp add: child_cells_def)
  ultimately show ?thesis using that [of "map (key_of_cell par) cs"] f ch by simp
qed

section \<open>Suppression\<close>

lemma key_of_true_cell: "c \<in> child_cells par w S \<Longrightarrow> key_of_cell par (true_cell w S c) = c"
  using child_columns_full(2) [of "((0, c, 0), undefined)" par]
  by (cases c) (simp add: child_cells_def key_of_cell_def true_cell_def child_key_def)

text \<open>An event counts for one child of a cell.\<close>

lemma child_cells_disjoint:
  assumes "c \<in> child_cells par w S" and "c' \<in> child_cells par w S" and "c \<noteq> c'"
  shows "hit_set (w, c) S \<inter> hit_set (w, c') S = {}"
proof -
  have "ck_level c = ck_level c'"
    using assms(1,2) child_columns_full(2) [of "((0, c, 0), undefined)" par] child_columns_full(2) [of "((0, c', 0), undefined)" par]
    by (simp add: child_cells_def)
  with assms(3) show ?thesis by (auto simp: hit_set_def cells_for_event_def)
qed

lemma finite_child_cells: "finite S \<Longrightarrow> finite (child_cells par w S)"
proof -
  assume "finite S"
  moreover have "child_cells par w S \<subseteq> (\<Union>e \<in> S. set (cells_for_event e))" by (auto simp: child_cells_def hit_set_def)
  ultimately show ?thesis by (meson finite_UN_I finite_set finite_subset)
qed

lemma of_nat_sums: "(\<Sum>x \<leftarrow> xs. of_nat (f x)) = (of_nat (\<Sum>x \<leftarrow> xs. f x) :: u64)"
  by (induction xs) simp_all

lemma hidden_events:
  assumes "finite S" and "distinct hs" and "set hs \<subseteq> child_cells par w S"
  shows "sum_list (map (rc_events \<circ> true_cell w S) hs) = of_nat (card (\<Union>c \<in> set hs. hit_set (w, c) S))"
proof -
  have "card (\<Union>c \<in> set hs. hit_set (w, c) S) = (\<Sum>c \<in> set hs. card (hit_set (w, c) S))"
    using assms child_cells_disjoint [of _ par w S] by (intro card_UN_disjoint) (auto simp: hit_set_def subset_iff)
  also have "\<dots> = sum_list (map (\<lambda>c. card (hit_set (w, c) S)) hs)"
    using assms(2) by (simp add: sum_list_distinct_conv_sum_set)
  finally show ?thesis by (simp add: true_cell_def comp_def of_nat_sums)
qed

text \<open>What suppression leaves of the true children: all of them but a set \<open>hidden\<close>, and perhaps one row for
  that set.\<close>

definition released :: "u64 \<Rightarrow> CellKey \<Rightarrow> datetime \<Rightarrow> Event set \<Rightarrow> CellKey set \<Rightarrow> ResultCell list \<Rightarrow> bool" where
  "released k par w S hidden rows \<longleftrightarrow> hidden \<subseteq> child_cells par w S \<and>
     (\<exists>cs others. rows = map (as_visible \<circ> true_cell w S) cs @ others \<and> distinct cs \<and>
        set cs = child_cells par w S - hidden \<and> list_all (\<lambda>c. k \<le> of_nat (card (ev_user ` hit_set (w, c) S))) cs \<and>
        (others = [] \<or> (\<exists>u. k \<le> u \<and> others = [Other (of_nat (card (\<Union>c \<in> hidden. hit_set (w, c) S))) u])))"

lemma suppress_released:
  assumes "finite S" and "distinct cs" and "set cs = child_cells par w S"
  shows "\<exists>hidden. released k par w S hidden (suppress pu (map (true_cell w S) cs) k)"
proof -
  let ?children = "map (true_cell w S) cs"
  obtain he vis hid pulled where s: "suppress pu ?children k =
       map as_visible vis @ (if hid \<noteq> [] \<and> k \<le> he then [Other (sum_list (map rc_events hid)) he] else [])"
    and v: "visible0 k ?children = pulled @ vis" and h: "hid = hidden0 k ?children @ pulled"
    by (rule suppress_split)
  have groups: "mset vis + mset hid = mset ?children" using mset_groups [of k ?children] by (simp add: v h ac_simps)
  have ge: "list_all (\<lambda>c. k \<le> rc_users c) vis" using visible0_ge [of k ?children] by (simp add: v)
  let ?key = "key_of_cell par"
  have origin: "map (true_cell w S) (map ?key xs) = xs" if "set xs \<subseteq> set ?children" for xs
    unfolding map_map
  proof (rule map_idI)
    fix x assume "x \<in> set xs"
    with that obtain c where "c \<in> set cs" "x = true_cell w S c" by auto
    then show "(true_cell w S \<circ> ?key) x = x" using key_of_true_cell assms(3) by simp
  qed
  have sub: "set vis \<subseteq> set ?children" "set hid \<subseteq> set ?children"
    using arg_cong [OF groups, of set_mset] by auto
  have "map (?key \<circ> true_cell w S) cs = cs" by (rule map_idI) (use key_of_true_cell assms(3) in simp)
  then have "mset (map ?key vis) + mset (map ?key hid) = mset cs"
    using arg_cong [OF groups, of "image_mset ?key"] by (simp flip: mset_map)
  then have "mset (map ?key vis @ map ?key hid) = mset cs" by simp
  then have d: "distinct (map ?key vis @ map ?key hid)" "set (map ?key vis @ map ?key hid) = child_cells par w S"
    using assms(2,3) by (metis mset_eq_imp_distinct_iff, metis mset_eq_setD)
  let ?H = "set (map ?key hid)"
  have H: "?H \<subseteq> child_cells par w S" using d(2) by auto
  have ev: "sum_list (map rc_events hid) = of_nat (card (\<Union>c \<in> ?H. hit_set (w, c) S))"
    using hidden_events [OF assms(1) _ H] d(1) origin [OF sub(2)] by (simp flip: map_map)
  have "released k par w S ?H (suppress pu ?children k)"
    unfolding released_def
  proof (intro conjI exI)
    show "?H \<subseteq> child_cells par w S" by (rule H)
    show "suppress pu ?children k = map (as_visible \<circ> true_cell w S) (map ?key vis) @
        (if hid \<noteq> [] \<and> k \<le> he then [Other (sum_list (map rc_events hid)) he] else [])"
      using s origin [OF sub(1)] by (simp flip: map_map)
    show "distinct (map ?key vis)" using d(1) by simp
    show "set (map ?key vis) = child_cells par w S - ?H" using d by auto
    have "list_all (\<lambda>c. k \<le> rc_users c) (map (true_cell w S) (map ?key vis))" unfolding origin [OF sub(1)] by (rule ge)
    then show "list_all (\<lambda>c. k \<le> of_nat (card (ev_user ` hit_set (w, c) S))) (map ?key vis)"
      by (simp add: list_all_iff true_cell_def)
  qed (simp add: ev)
  then show ?thesis ..
qed

lemma compute_stats_true:
  assumes "tables_count (as_db st) ps S (q_window q)" and "\<not> as_dp_enabled st" and "q_estimator q = Exact"
    and "q_level q \<noteq> LEVEL_GLOBAL" and "parent_key q = Inr par" and "inner_key par"
  shows "\<exists>r hidden. compute_stats (\<lambda>_. True) rng st q = Inr r \<and> resp_window_start r = q_window q \<and>
    released (as_k st) par (q_window q) S hidden (resp_cells r)"
proof -
  let ?w = "q_window q"
  have fin: "finite S" using assms(1) by (simp add: tables_count_def)
  obtain cs where cs: "fetch_children True (as_db st) ?w par = Inr (map (true_cell ?w S) cs)" "distinct cs"
    "set cs = child_cells par ?w S" using fetch_children_true [OF assms(1,6)] by blast
  obtain hidden where "released (as_k st) par ?w S hidden
      (suppress (rc_users (true_cell ?w S par)) (map (true_cell ?w S) cs) (as_k st))"
    using suppress_released [OF fin cs(2,3)] by blast
  moreover have "compute_stats (\<lambda>_. True) rng st q = Inr \<lparr>resp_window_start = ?w, resp_level = q_level q,
      resp_cells = suppress (rc_users (true_cell ?w S par)) (map (true_cell ?w S) cs) (as_k st)\<rparr>"
    using fetch_cell_true [OF assms(1), of par] cs(1) assms(2-5)
    by (simp add: compute_stats_def apply_dp_noise_def)
  ultimately show ?thesis by auto
qed

section \<open>The tables after a flush\<close>

lemma built_key_wf: "build_window hll_on rs = Some win \<Longrightarrow> map_of (cells win) k = Some a \<Longrightarrow> wf_key k"
proof -
  assume "build_window hll_on rs = Some win" "map_of (cells win) k = Some a"
  then have "contributing k rs \<noteq> []"
    using cell_matches_built [of hll_on rs win k] by (auto simp: cell_matches_def true_events_def)
  then obtain e where "k \<in> set (cells_for_event e)" by (auto simp: contributing_def filter_empty_conv)
  then show "wf_key k" by (auto simp: cells_for_event_def wf_key_def)
qed

lemma orderly_tables_count:
  assumes "orderly_run decode trunc hll_on raw \<sigma>" and "duration_trunc_spec trunc" and "\<And>p. raw_ok decode (raw p)"
    and "\<And>p. within_lateness (decoded_log decode (raw p))"
    and "topic_holds part (\<lambda>p. decoded_log decode (raw p)) ps (pseud_event lib salt ` S)" and "finite ps"
    and "finite S" and "card S < 2 ^ 63" and "inj_on event_id S" and "inj_on (pseudonymize lib salt) (ev_user ` S)"
    and "\<And>p. in_window w (decoded_log decode (raw p)) \<noteq> [] \<Longrightarrow>
      \<exists>pp. map_of (partition_progress (sys_db \<sigma>)) p = Some pp \<and> window_end w \<le> pp_flushed_watermark pp"
  shows "tables_count (sys_db \<sigma>) ps S w"
proof -
  let ?lg = "\<lambda>p. decoded_log decode (raw p)" and ?db = "sys_db \<sigma>"
  have ok: "log_ok (?lg p)" for p by (rule raw_ok_log_ok [OF assms(3)])
  have inv: "db_inv hll_on ?lg ?db" using reachable_inv [OF orderly_reachable [OF assms(1)] assms(2,3)] by blast
  then have al: "al_inv (agg_cells ?db)" by (simp add: db_inv_def db_ok_def)
  have wf: "keys_wf ?db" by (rule typed_keys_wf [OF db_inv_typed [OF inv ok]])
  note rows = orderly_topic_rows [OF assms(1-5,11)]
  note rbp = flushed_rows_by_partition [OF rows al ok]
  note tot = partition_totals [OF assms(5,7,6,9,10)]
  have "\<exists>ev us. rows_by_partition ?db w k ps ev us \<and> (\<forall>p. finite (us p)) \<and> (\<forall>p q. p \<noteq> q \<longrightarrow> us p \<inter> us q = {}) \<and>
      (\<forall>p \<in> ps. ev p = 0 \<longrightarrow> map_of (agg_cells ?db) (w, k, p) = None) \<and>
      sum ev ps = card (hit_set (w, k) S) \<and> card (\<Union>p \<in> ps. us p) = card (ev_user ` hit_set (w, k) S)" for k
  proof (intro exI conjI allI impI ballI)
    show "rows_by_partition ?db w k ps (\<lambda>p. true_events k (in_window w (?lg p))) (\<lambda>p. true_users k (in_window w (?lg p)))"
      by (rule rbp)
    show "map_of (agg_cells ?db) (w, k, p) = None" if "p \<in> ps" "true_events k (in_window w (?lg p)) = 0" for p
      using that no_cell_when_zero by (auto simp: rows full_row_def split: option.splits)
    show "true_users k (in_window w (?lg p)) \<inter> true_users k (in_window w (?lg q)) = {}" if "p \<noteq> q" for p q
      using tot(3) [OF that] .
    show "finite (true_users k (in_window w (?lg p)))" for p by (simp add: true_users_def)
  qed (rule tot(1,2))+
  with wf al assms(6-8) show ?thesis by (simp add: tables_count_def)
qed

lemma parent_key_inner:
  "parent_key q = Inr par \<Longrightarrow> inner_key par \<and> q_level q = ck_level par + 1"
  by (auto simp: parent_key_def inner_key_def wf_key_def key_defs split: if_splits option.splits)

text \<open>A valid request for a complete window whose answer is not cached is computed from the tables.\<close>

lemma get_stats_computes:
  assumes "parent_key q = Inr par" and "min_flushed_watermark (up 0) (as_db st) = Inr (Some wm)"
    and "window_end (q_window q) \<le> wm" and "as_cache st (cache_key to_rfc3339 q) = None"
    and "compute_stats up rng st q = Inr r"
  shows "snd (get_stats to_rfc3339 up rng st q) = HttpOk r"
  using assms
  by (auto simp: get_stats_def is_complete_def parent_key_def key_defs split: if_splits option.splits)

text \<open>An orderly run over the demo topic.\<close>

definition demo_orderly :: "Cmd list" where
  "demo_orderly = [Assign [demo_assign\<lparr>ae_now_utc := 0\<rparr>], Deliver 0 0, Deliver 0 0, Deliver 0 0,
     Idle (seconds 11) (seconds 9000), Drain, WriteOne True]"

text \<open>The same records with short payloads.\<close>

definition demo_short :: "i32 \<Rightarrow> rawrec list" where
  "demo_short p = (if p = 0 then [(0, Some [1]), (1, Some [1]), (2, Some [2])] else [])"

definition demo_record :: "uuid \<Rightarrow> string \<Rightarrow> Event" where
  "demo_record i u = \<lparr>event_id = i, ev_user = u, ev_ts = seconds 6000, ev_family = ''wikipedia'', ev_wiki = ''enwiki'',
     ev_namespace = 0, ev_kind = Edit, ev_is_bot = False\<rparr>"

definition demo_short_decode :: decode_fn where
  "demo_short_decode b = (if b = [1] then Some (demo_record 1 ''salt-loadgen-user-1'')
     else if b = [2] then Some (demo_record 2 ''salt-loadgen-user-2'') else None)"

lemma demo_generated_record: "pseud_event demo_crypto ''salt-'' (demo_generated i u) = demo_record i (''salt-loadgen-user-'' @ show_nat u)"
  by (simp add: pseud_event_def demo_pseudonymize demo_generated_def demo_event_of_draw demo_record_def)

lemma demo_short_same:
  "same_events (demo_unjson demo_generated_stored) (partition_raw demo_generated_topic p) demo_short_decode (demo_short p)"
proof -
  let ?e = "\<lambda>i u. pseud_event demo_crypto ''salt-'' (demo_generated i u)"
  have dec: "demo_unjson demo_generated_stored (to_json demo_crypto e) = Some e" if "e \<in> {?e 1 1, ?e 2 2}" for e
    using demo_generated_json that by (auto simp: json_round_trip_def demo_generated_batches_def demo_gateway_def)
  have nats: "show_nat (Suc 0) = ''1''" "show_nat 2 = ''2''" by code_simp+
  have p0: "partition_raw demo_generated_topic 0 = [(0, Some (to_json demo_crypto (?e 1 1))),
      (1, Some (to_json demo_crypto (?e 1 1))), (2, Some (to_json demo_crypto (?e 2 2)))]"
    by (simp add: demo_generated_topic_def demo_generated_batches_def partition_raw_def pseudonymize_and_serialize_def
        pseud_event_def Let_def)
  have pn: "partition_raw demo_generated_topic p = []" if "p \<noteq> 0"
    using that by (simp add: demo_generated_topic_def demo_generated_batches_def partition_raw_def)
  show ?thesis
  proof (cases "p = 0")
    case True
    have "demo_unjson demo_generated_stored (to_json demo_crypto (?e 1 1)) = demo_short_decode [1]"
      "demo_unjson demo_generated_stored (to_json demo_crypto (?e 2 2)) = demo_short_decode [2]"
      using dec by (simp_all add: demo_short_decode_def demo_generated_record nats)
    then show ?thesis unfolding True p0 by (simp add: demo_short_def same_events_def)
  qed (simp add: pn demo_short_def same_events_def)
qed

lemma demo_orderly_result:
  "case orderly_cmds 3 (seconds 5000) demo_short_decode floor_trunc False demo_short demo_orderly (worker_init, sys_db system_init) of
     None \<Rightarrow> False
   | Some (w, db) \<Rightarrow> partition_progress db = [(0, \<lparr>pp_committed_offset = 3, pp_flushed_watermark = seconds 8970\<rparr>)]"
  by code_simp

lemma demo_short_log:
  "within_lateness (decoded_log demo_short_decode (demo_short 0)) \<and>
   list_all (\<lambda>r. fst r < 3 \<and> seconds 5000 < window_end (rec_window r) \<and> window_end (rec_window r) \<le> seconds 8970)
     (decoded_log demo_short_decode (demo_short 0))"
  by code_simp

lemma demo_generated_log:
  "within_lateness (decoded_log (demo_unjson demo_generated_stored) (partition_raw demo_generated_topic p))"
  "r \<in> set (decoded_log (demo_unjson demo_generated_stored) (partition_raw demo_generated_topic p)) \<Longrightarrow>
     p = 0 \<and> fst r < 3 \<and> seconds 5000 < window_end (rec_window r) \<and> window_end (rec_window r) \<le> seconds 8970"
proof -
  have "p \<noteq> 0 \<Longrightarrow> decoded_log demo_short_decode (demo_short p) = []"
    by (simp add: demo_short_def decoded_log_def map_filter_simps)
  with demo_short_log show "within_lateness (decoded_log (demo_unjson demo_generated_stored) (partition_raw demo_generated_topic p))"
    "r \<in> set (decoded_log (demo_unjson demo_generated_stored) (partition_raw demo_generated_topic p)) \<Longrightarrow>
       p = 0 \<and> fst r < 3 \<and> seconds 5000 < window_end (rec_window r) \<and> window_end (rec_window r) \<le> seconds 8970"
    unfolding same_events_log [OF demo_short_same]
    by (cases "p = 0"; simp add: within_lateness_def list_all_iff)+
qed

lemma demo_generated_orderly:
  obtains \<sigma> where "orderly_run (demo_unjson demo_generated_stored) floor_trunc False (partition_raw demo_generated_topic) \<sigma>"
    "partition_progress (sys_db \<sigma>) = [(0, \<lparr>pp_committed_offset = 3, pp_flushed_watermark = seconds 8970\<rparr>)]"
proof -
  obtain w db where "orderly_cmds 3 (seconds 5000) demo_short_decode floor_trunc False demo_short demo_orderly
      (worker_init, sys_db system_init) = Some (w, db)"
    and db: "partition_progress db = [(0, \<lparr>pp_committed_offset = 3, pp_flushed_watermark = seconds 8970\<rparr>)]"
    using demo_orderly_result by (auto split: option.splits)
  then have "orderly_cmds 3 (seconds 5000) (demo_unjson demo_generated_stored) floor_trunc False (partition_raw demo_generated_topic)
      demo_orderly (workers system_init 0, sys_db system_init) = Some (w, db)"
    by (simp add: orderly_cmds_same [where raw = "partition_raw demo_generated_topic", OF demo_short_same] system_init_def)
  from that [OF orderly_cmds_run [OF this orderly_run.init]] demo_generated_log(2) db show thesis
    by (fastforce simp: list_all_iff)
qed

text \<open>C2: answers are true while everything runs. Let clients post any batches whose ids identify their events, and let
  the gateway accept and store all of them, in any interleaving; let any number of aggregators read the
  topic in any orderly run, with flushes, idle ticks, rebalances, replays and crashes in between. At
  every moment of it, a valid query below the root (exact counts, no noise, answer not cached) for a
  window that passes the completeness check is served, provided every partition with an event of the
  window has some stored progress; and its answer is true: each visible row carries exactly the number
  of posted events and of different users of its cell in the window, and at least \<open>k\<close> users; every
  child cell with events is visible or hidden, none twice; and the hidden ones appear at most as one
  row with their true number of events. Other windows may still be open. Pseudonyms must not collide,
  event times lie in range, and the topic is at most thirty seconds out of order.\<close>

theorem answers_are_true:
  assumes "duration_trunc_spec trunc"
    and "channel_spec try_send queue alive cap" and "recv_spec recv queue alive" and "fresh_gateway queue alive gw"
    and "ingest_run lib try_send recv part gw s" and "took_all queue bs s"
    and "json_round_trip decode lib (pseud_event lib (gs_salt gw) ` set (concat bs))"
    and "inj_on (pseudonymize lib (gs_salt gw)) (ev_user ` set (concat bs))" and "inj_on event_id (set (concat bs))"
    and "list_all (\<lambda>e. in_i64 (ev_ts e)) (concat bs)" and "length (concat bs) < 2 ^ 63" and "finite (range part)"
    and "orderly_run decode trunc hll_on (partition_raw (ig_topic s)) \<sigma>"
    and "\<forall>p. within_lateness (decoded_log decode (partition_raw (ig_topic s) p))"
    and "\<forall>p. in_window (q_window q) (decoded_log decode (partition_raw (ig_topic s) p)) \<noteq> [] \<longrightarrow>
           map_of (partition_progress (sys_db \<sigma>)) p \<noteq> None"
    and "as_db st = sys_db \<sigma>" and "\<not> as_dp_enabled st" and "as_cache st (cache_key to_rfc3339 q) = None"
    and "q_estimator q = Exact" and "parent_key q = Inr par"
    and "min_flushed_watermark True (sys_db \<sigma>) = Inr (Some wm)" and "window_end (q_window q) \<le> wm"
  shows "\<exists>r hidden. snd (get_stats to_rfc3339 (\<lambda>_. True) rng st q) = HttpOk r \<and> resp_window_start r = q_window q \<and>
    released (as_k st) par (q_window q) (set (concat bs)) hidden (resp_cells r)"
proof -
  note t = ingest_topic_holds [OF assms(2-7,10) subset_refl]
  have c: "card (set (concat bs)) < 2 ^ 63" using card_length [of "concat bs"] assms(11) by linarith
  have flushed: "\<exists>pp. map_of (partition_progress (sys_db \<sigma>)) p = Some pp \<and> window_end (q_window q) \<le> pp_flushed_watermark pp"
    if in_w: "in_window (q_window q) (decoded_log decode (partition_raw (ig_topic s) p)) \<noteq> []" for p
  proof -
    obtain pp where pp: "map_of (partition_progress (sys_db \<sigma>)) p = Some pp" using assms(15) in_w by blast
    from min_flushed_watermark_le [OF assms(21) map_of_SomeD [OF pp]] assms(22) pp show ?thesis by auto
  qed
  have tc: "tables_count (as_db st) (range part) (set (concat bs)) (q_window q)"
    using orderly_tables_count [OF assms(13,1) t(1) _ t(2) assms(12) finite_set c assms(9,8) flushed] assms(14) by (simp add: assms(16))
  note p = parent_key_inner [OF assms(20)]
  have "q_level q \<noteq> LEVEL_GLOBAL" using conjunct1 [OF p] conjunct2 [OF p] by (cases rule: inner_key_cases) (simp_all add: key_defs)
  from compute_stats_true [OF tc assms(17,19) this assms(20) conjunct1 [OF p], of rng] obtain r hidden
    where r: "compute_stats (\<lambda>_. True) rng st q = Inr r" "resp_window_start r = q_window q"
      "released (as_k st) par (q_window q) (set (concat bs)) hidden (resp_cells r)" by blast
  from get_stats_computes [OF assms(20) _ assms(22,18) r(1)] assms(21) r(2,3) show ?thesis by (auto simp: assms(16))
qed

theorem answers_are_true_witness:
  "\<exists>s \<sigma> r hidden. ingest_run demo_crypto demo_send demo_recv (\<lambda>_. 0) demo_gateway s \<and>
     orderly_run (demo_unjson demo_generated_stored) floor_trunc False (partition_raw (ig_topic s)) \<sigma> \<and>
     snd (get_stats (\<lambda>_. ''t'') (\<lambda>_. True) (\<lambda>_. 0) (demo_app\<lparr>as_db := sys_db \<sigma>\<rparr>)
       ((demo_query 1)\<lparr>q_window := seconds 6000\<rparr>)) = HttpOk r \<and>
     released 2 global_key (seconds 6000) {demo_generated 1 1, demo_generated 2 2} hidden (resp_cells r)"
proof -
  let ?q = "(demo_query 1)\<lparr>q_window := seconds 6000\<rparr>" and ?dec = "demo_unjson demo_generated_stored"
  obtain s where s: "ingest_run demo_crypto demo_send demo_recv (\<lambda>_. 0) demo_gateway s" "took_all fst demo_generated_batches s"
    and topic: "ig_topic s = demo_generated_topic" using demo_generated_ingested by blast
  obtain \<sigma> where run: "orderly_run ?dec floor_trunc False (partition_raw demo_generated_topic) \<sigma>"
    and prog: "partition_progress (sys_db \<sigma>) = [(0, \<lparr>pp_committed_offset = 3, pp_flushed_watermark = seconds 8970\<rparr>)]"
    by (rule demo_generated_orderly)
  have ids: "inj_on event_id (set (concat demo_generated_batches))"
    by (simp add: demo_generated_batches_def demo_generated_def demo_event_of_draw)
  have ts: "list_all (\<lambda>e. in_i64 (ev_ts e)) (concat demo_generated_batches)" "length (concat demo_generated_batches) < 2 ^ 63"
    by (simp_all add: demo_generated_batches_def in_i64_def seconds_def)
  have fin: "finite (range (\<lambda>_ :: string. 0 :: i32))" by simp
  have late: "\<forall>p. within_lateness (decoded_log ?dec (partition_raw (ig_topic s) p))"
    by (simp add: topic demo_generated_log(1))
  have prog0: "\<forall>p. in_window (q_window ?q) (decoded_log ?dec (partition_raw (ig_topic s) p)) \<noteq> [] \<longrightarrow>
      map_of (partition_progress (sys_db \<sigma>)) p \<noteq> None"
    using demo_generated_log(2) by (fastforce simp: topic prog in_window_def filter_empty_conv)
  have q: "\<not> as_dp_enabled (demo_app\<lparr>as_db := sys_db \<sigma>\<rparr>)"
    "as_cache (demo_app\<lparr>as_db := sys_db \<sigma>\<rparr>) (cache_key (\<lambda>_. ''t'') ?q) = None"
    "q_estimator ?q = Exact" "parent_key ?q = Inr global_key"
    by (simp_all add: demo_app_def demo_query_def parent_key_def key_defs)
  have wm: "min_flushed_watermark True (sys_db \<sigma>) = Inr (Some (seconds 8970))" "window_end (q_window ?q) \<le> seconds 8970"
    by (simp_all add: min_flushed_watermark_def prog window_end_def time_defs)
  from answers_are_true [OF floor_trunc_spec demo_send_spec demo_recv_spec demo_fresh s demo_generated_json
      demo_generated_pseudonyms ids ts fin run [folded topic] late prog0 _ q wm, of "\<lambda>_. 0"]
  obtain r hidden where "snd (get_stats (\<lambda>_. ''t'') (\<lambda>_. True) (\<lambda>_. 0) (demo_app\<lparr>as_db := sys_db \<sigma>\<rparr>) ?q) = HttpOk r"
    "released (as_k (demo_app\<lparr>as_db := sys_db \<sigma>\<rparr>)) global_key (q_window ?q) (set (concat demo_generated_batches)) hidden (resp_cells r)"
    by auto
  moreover have "set (concat demo_generated_batches) = {demo_generated 1 1, demo_generated 2 2}"
    by (simp add: demo_generated_batches_def)
  ultimately show ?thesis using s(1) run [folded topic] by (auto simp: demo_app_def)
qed

end
