(* ===== verification/QueryRun.thy ===== *)
theory QueryRun
  imports QueryApi
begin

text \<open>
  A request to \<^verbatim>\<open>GET /v1/stats\<close> as it runs (\<^verbatim>\<open>query-api/src/handlers.rs\<close>): the handler gives up the
  processor at every \<open>await\<close>, so between the watermark check, the look into the cache, the two reads and the
  insertion other requests and the aggregators may act. A stage says where the handler waits, and
  \<open>handler_step\<close> runs it to the next \<open>await\<close> or to its answer; \<open>up\<close> says whether the query of that step
  reaches the database and \<open>rng\<close> holds the draws of the step. \<open>get_stats\<close> is the handler that is never
  interrupted.
\<close>

datatype Stage =
    Arrived
  | Checking
  | Looking
  | ReadingParent
  | ReadingChildren CellKey "RawCell option"
  | Storing StatsResponse

definition stats_response :: "AppState \<Rightarrow> StatsQuery \<Rightarrow> (nat \<Rightarrow> real) \<Rightarrow> ResultCell list \<Rightarrow> StatsResponse" where
  "stats_response st q rng cs = \<lparr>resp_window_start = q_window q, resp_level = q_level q,
     resp_cells = apply_dp_noise cs (as_dp_enabled st) (as_dp_epsilon st) rng\<rparr>"

definition read_cell :: "bool \<Rightarrow> AppState \<Rightarrow> StatsQuery \<Rightarrow> CellKey \<Rightarrow> query_error + RawCell option" where
  "read_cell up st q key = (case q_estimator q of
       Exact \<Rightarrow> fetch_cell up (as_db st) (q_window q) key
     | Hll \<Rightarrow> fetch_cell_hll up (as_db st) (q_window q) key)"

definition read_children :: "bool \<Rightarrow> AppState \<Rightarrow> StatsQuery \<Rightarrow> CellKey \<Rightarrow> query_error + RawCell list" where
  "read_children up st q par = (case q_estimator q of
       Exact \<Rightarrow> fetch_children up (as_db st) (q_window q) par
     | Hll \<Rightarrow> fetch_children_hll up (as_db st) (q_window q) par)"

fun handler_step ::
  "(datetime \<Rightarrow> string) \<Rightarrow> bool \<Rightarrow> (nat \<Rightarrow> real) \<Rightarrow> AppState \<Rightarrow> StatsQuery \<Rightarrow> Stage \<Rightarrow>
     AppState \<times> (Stage + StatsResponse http)" where
  "handler_step to_rfc3339 up rng st q Arrived =
     (st, if \<not> (LEVEL_GLOBAL \<le> q_level q \<and> q_level q \<le> LEVEL_NAMESPACE) then
            Inr (bad_request ''level must be between 0 and 3'')
          else if q_level q \<ge> LEVEL_WIKI \<and> q_family q = None then
            Inr (bad_request ''family is required for level >= 2'')
          else if q_level q \<ge> LEVEL_NAMESPACE \<and> q_wiki q = None then
            Inr (bad_request ''wiki is required for level >= 3'')
          else Inl Checking)"
| "handler_step to_rfc3339 up rng st q Checking =
     (st, case min_flushed_watermark up (as_db st) of
            Inl e \<Rightarrow> Inr (internal_error e)
          | Inr min_watermark \<Rightarrow>
              if is_complete min_watermark q then Inl Looking
              else Inr (HttpErr 409 ''window is not yet fully flushed by every partition''))"
| "handler_step to_rfc3339 up rng st q Looking =
     (st, case as_cache st (cache_key to_rfc3339 q) of Some hit \<Rightarrow> Inr (HttpOk hit) | None \<Rightarrow> Inl ReadingParent)"
| "handler_step to_rfc3339 up rng st q ReadingParent =
     (st, if q_level q = LEVEL_GLOBAL then
            (case read_cell up st q global_key of
               Inl e \<Rightarrow> Inr (internal_error e)
             | Inr global \<Rightarrow> Inl (Storing (stats_response st q rng
                 (case global of None \<Rightarrow> [] | Some c \<Rightarrow> [global_result (as_k st) c]))))
          else
            (case parent_key q of
               Inl e \<Rightarrow> Inr (internal_error e)
             | Inr par \<Rightarrow>
                 (case read_cell up st q par of
                    Inl e \<Rightarrow> Inr (internal_error e)
                  | Inr parent_cell \<Rightarrow> Inl (ReadingChildren par parent_cell))))"
| "handler_step to_rfc3339 up rng st q (ReadingChildren par parent_cell) =
     (st, case read_children up st q par of
            Inl e \<Rightarrow> Inr (internal_error e)
          | Inr children \<Rightarrow> Inl (Storing (stats_response st q rng
              (suppress (case parent_cell of None \<Rightarrow> 0 | Some c \<Rightarrow> rc_users c) children (as_k st)))))"
| "handler_step to_rfc3339 up rng st q (Storing response) =
     (st\<lparr>as_cache := (as_cache st)(cache_key to_rfc3339 q \<mapsto> response)\<rparr>, Inr (HttpOk response))"

section \<open>A request among others\<close>

text \<open>The query of a stage, in the numbering of \<open>get_stats\<close>.\<close>

fun stage_query :: "Stage \<Rightarrow> nat" where
  "stage_query ReadingParent = 1"
| "stage_query (ReadingChildren _ _) = 2"
| "stage_query _ = 0"

text \<open>The handler resumed in one state of the service after the other, whatever happened in between.\<close>

type_synonym moment = "AppState \<times> (nat \<Rightarrow> bool) \<times> (nat \<Rightarrow> real)"

fun handle_among ::
  "(datetime \<Rightarrow> string) \<Rightarrow> moment list \<Rightarrow> StatsQuery \<Rightarrow> Stage \<Rightarrow> (AppState \<times> StatsResponse http) option" where
  "handle_among to_rfc3339 [] q stage = None"
| "handle_among to_rfc3339 ((st, up, rng) # ms) q stage =
     (case handler_step to_rfc3339 (up (stage_query stage)) rng st q stage of
        (st', Inr resp) \<Rightarrow> Some (st', resp)
      | (_, Inl stage') \<Rightarrow> handle_among to_rfc3339 ms q stage')"

text \<open>How many steps are left at most.\<close>

fun steps_left :: "Stage \<Rightarrow> nat" where
  "steps_left Arrived = 6"
| "steps_left Checking = 5"
| "steps_left Looking = 4"
| "steps_left ReadingParent = 3"
| "steps_left (ReadingChildren _ _) = 2"
| "steps_left (Storing _) = 1"

lemma handler_step_progress:
  "handler_step to_rfc3339 up rng st q stage = (st', Inl stage') \<Longrightarrow> steps_left stage' < steps_left stage \<and> st' = st"
  by (cases stage) (auto split: if_splits option.splits sum.splits)

lemma handle_among_answers:
  "steps_left stage \<le> length ms \<Longrightarrow> \<exists>st resp. handle_among to_rfc3339 ms q stage = Some (st, resp)"
proof (induction ms arbitrary: stage)
  case Nil
  then show ?case by (cases stage) simp_all
next
  case (Cons m ms)
  obtain st up rng where m: "m = (st, up, rng)" by (metis prod.exhaust)
  obtain st' x where h: "handler_step to_rfc3339 (up (stage_query stage)) rng st q stage = (st', x)" by fastforce
  show ?case
  proof (cases x)
    case (Inl stage')
    with handler_step_progress h have "steps_left stage' < steps_left stage" by blast
    with Cons.prems have "steps_left stage' \<le> length ms" by simp
    from Cons.IH [OF this] show ?thesis by (simp add: m h Inl)
  qed (simp add: m h)
qed

text \<open>Suppression survives interference: a stored or cached answer reaches the threshold.\<close>

definition stage_ok :: "u64 \<Rightarrow> Stage \<Rightarrow> bool" where
  "stage_ok k stage \<longleftrightarrow> (case stage of
       Storing r \<Rightarrow> resp_level r \<noteq> 0 \<longrightarrow> list_all (\<lambda>c. k \<le> res_users c) (resp_cells r)
     | _ \<Rightarrow> True)"

lemma handler_step_keeps_k:
  assumes "cache_ok st" and "\<not> as_dp_enabled st" and "stage_ok (as_k st) stage"
    and "handler_step to_rfc3339 up rng st q stage = (st', x)"
  shows "case x of Inl stage' \<Rightarrow> stage_ok (as_k st) stage'
    | Inr resp \<Rightarrow> \<forall>r. resp = HttpOk r \<and> resp_level r \<noteq> 0 \<longrightarrow> list_all (\<lambda>c. as_k st \<le> res_users c) (resp_cells r)"
  using assms
  by (cases stage)
    (auto simp: stage_ok_def cache_ok_def stats_response_def apply_dp_noise_def suppressed_ge bad_request_def
      internal_error_def LEVEL_GLOBAL_def split: if_splits option.splits sum.splits query_error.splits)

lemma handle_among_keeps_k:
  assumes "list_all (\<lambda>(st, _, _). cache_ok st \<and> \<not> as_dp_enabled st \<and> as_k st = k) ms" and "stage_ok k stage"
    and "handle_among to_rfc3339 ms q stage = Some (st, HttpOk r)" and "resp_level r \<noteq> 0"
  shows "list_all (\<lambda>c. k \<le> res_users c) (resp_cells r)"
  using assms(1-3)
proof (induction ms arbitrary: stage)
  case (Cons m ms)
  obtain st0 up rng where m: "m = (st0, up, rng)" by (metis prod.exhaust)
  with Cons.prems(1) have st0: "cache_ok st0" "\<not> as_dp_enabled st0" "as_k st0 = k" by simp_all
  obtain st' x where h: "handler_step to_rfc3339 (up (stage_query stage)) rng st0 q stage = (st', x)" by fastforce
  note k = handler_step_keeps_k [OF st0(1,2) _ h, unfolded st0(3), OF Cons.prems(2)]
  show ?case
  proof (cases x)
    case (Inl stage')
    with Cons.IH [of stage'] Cons.prems k show ?thesis by (simp add: m h)
  next
    case (Inr resp)
    with Cons.prems(3) k assms(4) show ?thesis by (simp add: m h)
  qed
qed simp

section \<open>A request alone\<close>

text \<open>The reads and the insertion together are \<open>compute_stats\<close> and its use in \<open>get_stats\<close>.\<close>

lemma compute_stats_reads:
  "compute_stats up rng st q =
     (if q_level q = LEVEL_GLOBAL then
        map_sum id (\<lambda>global. stats_response st q rng (case global of None \<Rightarrow> [] | Some c \<Rightarrow> [global_result (as_k st) c]))
          (read_cell (up 1) st q global_key)
      else
        (case parent_key q of
           Inl e \<Rightarrow> Inl e
         | Inr par \<Rightarrow>
             (case read_cell (up 1) st q par of
                Inl e \<Rightarrow> Inl e
              | Inr cell \<Rightarrow> map_sum id (\<lambda>children. stats_response st q rng
                  (suppress (case cell of None \<Rightarrow> 0 | Some c \<Rightarrow> rc_users c) children (as_k st))) (read_children (up 2) st q par))))"
  by (cases "q_estimator q")
    (simp_all add: compute_stats_def stats_response_def read_cell_def read_children_def Let_def split: sum.split)

lemma handle_alone_reads:
  "handle_among to_rfc3339 (replicate (Suc (Suc (Suc n))) (st, up, rng)) q ReadingParent =
     Some (case compute_stats up rng st q of
             Inl e \<Rightarrow> (st, internal_error e)
           | Inr response \<Rightarrow> (st\<lparr>as_cache := (as_cache st)(cache_key to_rfc3339 q \<mapsto> response)\<rparr>, HttpOk response))"
  by (simp add: compute_stats_reads split: sum.split)

lemma handle_alone_look:
  "handle_among to_rfc3339 (replicate (Suc (Suc (Suc (Suc n)))) (st, up, rng)) q Looking =
     Some (case as_cache st (cache_key to_rfc3339 q) of
          Some hit \<Rightarrow> (st, HttpOk hit)
        | None \<Rightarrow> (case compute_stats up rng st q of
              Inl e \<Rightarrow> (st, internal_error e)
            | Inr response \<Rightarrow> (st\<lparr>as_cache := (as_cache st)(cache_key to_rfc3339 q \<mapsto> response)\<rparr>, HttpOk response)))"
  by (subst replicate_Suc, subst handle_among.simps(2))
    (simp add: handle_alone_reads del: replicate_Suc split: option.split)

lemma handle_alone_get_stats:
  "handle_among to_rfc3339 (replicate (Suc (Suc (Suc (Suc (Suc (Suc n)))))) (st, up, rng)) q Arrived = Some (get_stats to_rfc3339 up rng st q)"
proof -
  have c: "handle_among to_rfc3339 (replicate (Suc (Suc (Suc (Suc (Suc n))))) (st, up, rng)) q Checking =
      Some (case min_flushed_watermark (up 0) (as_db st) of
          Inl e \<Rightarrow> (st, internal_error e)
        | Inr wm \<Rightarrow> if is_complete wm q then the (handle_among to_rfc3339 (replicate (Suc (Suc (Suc (Suc n)))) (st, up, rng)) q Looking)
            else (st, HttpErr 409 ''window is not yet fully flushed by every partition''))"
    by (subst replicate_Suc, subst handle_among.simps(2))
      (simp add: handle_alone_look del: replicate_Suc split: sum.split)
  show ?thesis
    by (subst replicate_Suc, subst handle_among.simps(2))
      (simp add: c handle_alone_look get_stats_def Let_def del: replicate_Suc split: sum.split)
qed

text \<open>C30: a request is answered whatever happens around it. The handler is suspended at up to six points, between which
  other requests, evictions and the aggregators may change cache and tables; however they do, it ends
  with an answer after at most six steps, and as long as the cache only holds suppressed answers, the
  answer below the root has at least \<open>k\<close> users in every row. Undisturbed, the steps compute
  exactly \<open>get_stats\<close>.\<close>

theorem request_answered_under_interference:
  assumes "6 \<le> length ms"
  shows "(\<exists>st resp. handle_among to_rfc3339 ms q Arrived = Some (st, resp) \<and>
      (list_all (\<lambda>(st, _, _). cache_ok st \<and> \<not> as_dp_enabled st \<and> as_k st = k) ms \<longrightarrow>
        (\<forall>r. resp = HttpOk r \<and> resp_level r \<noteq> 0 \<longrightarrow> list_all (\<lambda>c. k \<le> res_users c) (resp_cells r)))) \<and>
    handle_among to_rfc3339 (replicate (length ms) (st0, up, rng)) q Arrived = Some (get_stats to_rfc3339 up rng st0 q)"
proof
  obtain st resp where a: "handle_among to_rfc3339 ms q Arrived = Some (st, resp)"
    using handle_among_answers [of Arrived ms to_rfc3339 q] assms by auto
  then show "\<exists>st resp. handle_among to_rfc3339 ms q Arrived = Some (st, resp) \<and>
      (list_all (\<lambda>(st, _, _). cache_ok st \<and> \<not> as_dp_enabled st \<and> as_k st = k) ms \<longrightarrow>
        (\<forall>r. resp = HttpOk r \<and> resp_level r \<noteq> 0 \<longrightarrow> list_all (\<lambda>c. k \<le> res_users c) (resp_cells r)))"
    using handle_among_keeps_k [of k ms Arrived] by (auto simp: stage_ok_def)
  obtain n where "length ms = Suc (Suc (Suc (Suc (Suc (Suc n)))))"
    using le_Suc_ex [OF assms] by (auto simp: numeral_eq_Suc)
  then show "handle_among to_rfc3339 (replicate (length ms) (st0, up, rng)) q Arrived = Some (get_stats to_rfc3339 up rng st0 q)"
    by (simp only: handle_alone_get_stats)
qed

theorem request_answered_under_interference_witness:
  "\<exists>st r. handle_among (\<lambda>_. ''t'') (replicate 6 (demo_app, \<lambda>_. True, \<lambda>_. 0)) (demo_query 1) Arrived = Some (st, HttpOk r) \<and>
     list_all (\<lambda>c. 2 \<le> res_users c) (resp_cells r)"
proof -
  let ?ms = "replicate 6 (demo_app, \<lambda>_ :: nat. True, \<lambda>_ :: nat. 0 :: real)"
  have l: "6 \<le> length ?ms" by simp
  obtain st where g: "get_stats (\<lambda>_. ''t'') (\<lambda>_. True) (\<lambda>_. 0) demo_app (demo_query 1) =
      (st, HttpOk \<lparr>resp_window_start = 0, resp_level = 1, resp_cells = [Visible ''wikipedia'' ''*'' (- 1) 5 4]\<rparr>)"
    using demo_query_result by blast
  have "list_all (\<lambda>(st, _, _). cache_ok st \<and> \<not> as_dp_enabled st \<and> as_k st = 2) ?ms"
    by (simp add: list_all_iff cache_ok_def demo_app_def)
  with request_answered_under_interference [OF l, of "\<lambda>_. ''t''" "demo_query 1" 2 demo_app "\<lambda>_. True" "\<lambda>_. 0"] g
  show ?thesis by auto
qed

end
