(* ===== verification/Pipeline.thy ===== *)
theory Pipeline
  imports QueryTruth QueryRun
begin

text \<open>
  The services together: the gateway of \<open>Ingest\<close>, any number of aggregator workers over the growing
  topic, and the query API over the tables they write, all running at once. One step is one action of
  one service. What the workers read is the topic as it is at that moment; a request to the query API
  runs from one \<open>await\<close> to the next, so its reads may see different states of the tables and other
  requests may fill the cache meanwhile. A request may be dropped when its client goes away.
\<close>

record 'ch Pipeline =
  pl_ingest :: "'ch Ingest"
  pl_agg :: System
  pl_query :: AppState
  pl_requests :: "StatsQuery list"
  pl_running :: "(StatsQuery \<times> Stage) multiset"
  pl_answers :: "(StatsQuery \<times> StatsResponse http) list"

inductive pipeline ::
  "crypto \<Rightarrow> ('ch \<Rightarrow> QueuedMessage \<Rightarrow> TrySendError + 'ch) \<Rightarrow> ('ch \<Rightarrow> (QueuedMessage \<times> 'ch) option) \<Rightarrow>
     (string \<Rightarrow> i32) \<Rightarrow> decode_fn \<Rightarrow> trunc_fn \<Rightarrow> bool \<Rightarrow> (datetime \<Rightarrow> string) \<Rightarrow>
     'ch GatewayState \<Rightarrow> AppState \<Rightarrow> 'ch Pipeline \<Rightarrow> bool"
  for lib try_send recv part decode trunc hll_on to_rfc3339 gw app where
  start: "pipeline lib try_send recv part decode trunc hll_on to_rfc3339 gw app
    \<lparr>pl_ingest = ingest_init gw, pl_agg = system_init, pl_query = app, pl_requests = [], pl_running = {#}, pl_answers = []\<rparr>"
| gateway: "pipeline lib try_send recv part decode trunc hll_on to_rfc3339 gw app s \<Longrightarrow>
    ingest_step lib try_send recv part (pl_ingest s) g \<Longrightarrow>
    pipeline lib try_send recv part decode trunc hll_on to_rfc3339 gw app (s\<lparr>pl_ingest := g\<rparr>)"
| aggregator: "pipeline lib try_send recv part decode trunc hll_on to_rfc3339 gw app s \<Longrightarrow>
    worker_step decode trunc hll_on (partition_raw (ig_topic (pl_ingest s)))
      (workers (pl_agg s) i) (sys_db (pl_agg s)) w db \<Longrightarrow>
    pipeline lib try_send recv part decode trunc hll_on to_rfc3339 gw app
      (s\<lparr>pl_agg := \<lparr>workers = (workers (pl_agg s))(i := w), sys_db = db\<rparr>\<rparr>)"
| request: "pipeline lib try_send recv part decode trunc hll_on to_rfc3339 gw app s \<Longrightarrow>
    pipeline lib try_send recv part decode trunc hll_on to_rfc3339 gw app
      (s\<lparr>pl_requests := pl_requests s @ [q], pl_running := add_mset (q, Arrived) (pl_running s)\<rparr>)"
| resumed: "pipeline lib try_send recv part decode trunc hll_on to_rfc3339 gw app s \<Longrightarrow> (q, stage) \<in># pl_running s \<Longrightarrow>
    handler_step to_rfc3339 up rng ((pl_query s)\<lparr>as_db := sys_db (pl_agg s)\<rparr>) q stage = (st, Inl stage') \<Longrightarrow>
    pipeline lib try_send recv part decode trunc hll_on to_rfc3339 gw app
      (s\<lparr>pl_query := st, pl_running := add_mset (q, stage') (pl_running s - {#(q, stage)#})\<rparr>)"
| answered: "pipeline lib try_send recv part decode trunc hll_on to_rfc3339 gw app s \<Longrightarrow> (q, stage) \<in># pl_running s \<Longrightarrow>
    handler_step to_rfc3339 up rng ((pl_query s)\<lparr>as_db := sys_db (pl_agg s)\<rparr>) q stage = (st, Inr resp) \<Longrightarrow>
    pipeline lib try_send recv part decode trunc hll_on to_rfc3339 gw app
      (s\<lparr>pl_query := st, pl_running := pl_running s - {#(q, stage)#}, pl_answers := pl_answers s @ [(q, resp)]\<rparr>)"
| dropped: "pipeline lib try_send recv part decode trunc hll_on to_rfc3339 gw app s \<Longrightarrow>
    pipeline lib try_send recv part decode trunc hll_on to_rfc3339 gw app (s\<lparr>pl_running := pl_running s - {#(q, stage)#}\<rparr>)"
| evicted: "pipeline lib try_send recv part decode trunc hll_on to_rfc3339 gw app s \<Longrightarrow>
    pipeline lib try_send recv part decode trunc hll_on to_rfc3339 gw app (s\<lparr>pl_query := evict ks (pl_query s)\<rparr>)"

text \<open>What is asked of the posted events: payloads decode, timestamps are in range, an event id names one
  event (posting it again is fine) and pseudonyms do not collide.\<close>

definition posts_ok :: "decode_fn \<Rightarrow> crypto \<Rightarrow> string \<Rightarrow> Event set \<Rightarrow> bool" where
  "posts_ok decode lib salt es \<longleftrightarrow> json_round_trip decode lib (pseud_event lib salt ` es) \<and>
     (\<forall>e \<in> es. in_i64 (ev_ts e)) \<and> inj_on event_id es \<and> inj_on (pseudonymize lib salt) (ev_user ` es) \<and>
     finite es \<and> card es < 2 ^ 63"

text \<open>A cell reports the events and users of some of the posted events.\<close>

definition counts_some :: "Event set \<Rightarrow> datetime \<Rightarrow> CellKey \<Rightarrow> u64 \<Rightarrow> u64 \<Rightarrow> bool" where
  "counts_some es w k events users \<longleftrightarrow>
     (\<exists>S \<subseteq> es. unat events = card (hit_set (w, k) S) \<and> unat users = card (ev_user ` hit_set (w, k) S))"

definition sound_answer :: "u64 \<Rightarrow> Event set \<Rightarrow> StatsResponse \<Rightarrow> bool" where
  "sound_answer k es r \<longleftrightarrow> (\<forall>f w n events users. Visible f w n events users \<in> set (resp_cells r) \<longrightarrow> k \<le> users \<and>
     counts_some es (resp_window_start r) \<lparr>ck_level = resp_level r, ck_family = f, ck_wiki = w, ck_namespace = n\<rparr> events users)"

section \<open>The aggregators read a growing topic\<close>

lemma next_record_append: "next_record raws pos = Some r \<Longrightarrow> next_record (raws @ ext) pos = Some r"
  by (induction raws) (auto simp: next_record_def split: if_splits)

lemma worker_step_append:
  assumes "worker_step decode trunc hll_on raw w db w' db'" and "\<And>p. \<exists>ext. raw' p = raw p @ ext"
  shows "worker_step decode trunc hll_on raw' w db w' db'"
  using assms(1)
proof cases
  case (deliver p off payload now_wall sts oc)
  obtain ext where "raw' p = raw p @ ext" using assms(2) by blast
  with next_record_append [OF deliver(4)] have n: "next_record (raw' p) (w_pos w p) = Some (off, payload)" by simp
  show ?thesis unfolding deliver(1,2) by (rule worker_step.deliver [where raw = raw']) (use deliver n in simp_all)
qed (auto intro: worker_step.intros)

lemma reachable_append:
  assumes "reachable decode trunc hll_on raw s" and "\<And>p. \<exists>ext. raw' p = raw p @ ext"
  shows "reachable decode trunc hll_on raw' s"
  using assms(1)
proof (induction rule: reachable.induct)
  case init
  show ?case by (rule reachable.init)
next
  case (step s i w db)
  show ?case by (rule reachable.step [OF step.IH worker_step_append [OF step.hyps(2) assms(2)]])
qed

lemma ingest_step_grows:
  "ingest_step lib try_send recv part s s' \<Longrightarrow>
     set (ig_queued s) \<subseteq> set (ig_queued s') \<and> (\<exists>ext. partition_raw (ig_topic s') p = partition_raw (ig_topic s) p @ ext)"
  by (elim ingest_stepE) (auto simp: partition_raw_def)

lemma pipeline_parts:
  assumes "pipeline lib try_send recv part decode trunc hll_on to_rfc3339 gw app s"
  shows "ingest_run lib try_send recv part gw (pl_ingest s) \<and>
    reachable decode trunc hll_on (partition_raw (ig_topic (pl_ingest s))) (pl_agg s)"
  using assms
proof (induction rule: pipeline.induct)
  case start
  show ?case by (simp add: ingest_run.start reachable.init)
next
  case (gateway s g)
  have "reachable decode trunc hll_on (partition_raw (ig_topic g)) (pl_agg s)"
    using conjunct2 [OF gateway.IH] conjunct2 [OF ingest_step_grows [OF gateway.hyps(2)]] by (rule reachable_append)
  moreover have "ingest_run lib try_send recv part gw g" using conjunct1 [OF gateway.IH] gateway.hyps(2) by (rule ingest_run.action)
  ultimately show ?case by simp
next
  case (aggregator s i w db)
  from reachable.step [OF conjunct2 [OF aggregator.IH] aggregator.hyps(2)] aggregator.IH show ?case by simp
qed simp_all

section \<open>What a cell reports\<close>

lemma posts_ok_subset: "posts_ok decode lib salt es \<Longrightarrow> es' \<subseteq> es \<Longrightarrow> posts_ok decode lib salt es'"
  unfolding posts_ok_def json_round_trip_def
  by (meson card_mono finite_subset image_mono inj_on_subset le_less_trans subset_iff)

lemma counts_some_mono: "counts_some es w k ev us \<Longrightarrow> es \<subseteq> es' \<Longrightarrow> counts_some es' w k ev us"
  unfolding counts_some_def by blast

lemma sound_answer_mono: "sound_answer k es r \<Longrightarrow> es \<subseteq> es' \<Longrightarrow> sound_answer k es' r"
  unfolding sound_answer_def using counts_some_mono by blast

lemma row_counts_posts:
  assumes "posts_ok decode lib salt es" and "row_counts hll_on k (in_window w (before lg n)) row"
    and "\<And>off e. (off, e) \<in> set lg \<Longrightarrow> \<exists>e0 \<in> es. e = pseud_event lib salt e0 \<and> part (ev_user e) = p"
  shows "\<exists>S. S \<subseteq> {e \<in> es. part (pseudonymize lib salt (ev_user e)) = p} \<and>
    col_events row = int (card (hit_set (w, k) S)) \<and> col_users row = int (card (ev_user ` hit_set (w, k) S))"
proof -
  let ?F = "pseud_event lib salt"
  define S where "S = {e \<in> es. ?F e \<in> snd ` set (before lg n)}"
  have inj: "inj_on event_id es" "inj_on (pseudonymize lib salt) (ev_user ` es)"
    using assms(1) by (simp_all add: posts_ok_def)
  have R: "snd ` set (before lg n) = ?F ` S"
  proof (intro equalityI subsetI)
    fix e assume e: "e \<in> snd ` set (before lg n)"
    then obtain off where "(off, e) \<in> set lg" by (auto simp: before_def)
    from assms(3) [OF this] obtain e0 where "e0 \<in> es" "e = ?F e0" by blast
    moreover from this e have "e0 \<in> S" by (simp add: S_def)
    ultimately show "e \<in> ?F ` S" by (simp only: imageI)
  qed (auto simp: S_def)
  have sub: "S \<subseteq> es" by (auto simp: S_def)
  then have "inj_on event_id (?F ` S)" using inj(1) by (auto simp: inj_on_def)
  note t = true_totals_of_set [where rs = "before lg n", unfolded R, OF this]
  have p: "part (pseudonymize lib salt (ev_user e)) = p" if "e \<in> S" for e
  proof -
    from that obtain off where "(off, ?F e) \<in> set lg" by (auto simp: S_def before_def)
    from assms(3) [OF this] show ?thesis by auto
  qed
  have "col_events row = int (card (hit_set (w, k) S))" "col_users row = int (card (ev_user ` hit_set (w, k) S))"
    using assms(2) pseud_hits [OF inj sub, of "(w, k)"] by (simp_all add: row_counts_def t)
  with p sub show ?thesis by (intro exI [of _ S]) auto
qed

lemma fetch_cell_posts:
  assumes "posts_ok decode lib salt es" and "al_inv (agg_cells db)"
    and "\<And>p row. map_of (agg_cells db) (w, k, p) = Some row \<Longrightarrow>
      \<exists>S. S \<subseteq> {e \<in> es. part (pseudonymize lib salt (ev_user e)) = p} \<and>
        col_events row = int (card (hit_set (w, k) S)) \<and> col_users row = int (card (ev_user ` hit_set (w, k) S))"
  shows "\<exists>rc. fetch_cell True db w k = Inr (Some rc) \<and> counts_some es w k (rc_events rc) (rc_users rc)"
proof -
  let ?ps = "{p. map_of (agg_cells db) (w, k, p) \<noteq> None}" and ?E = "\<lambda>p. {e \<in> es. part (pseudonymize lib salt (ev_user e)) = p}"
  have "\<forall>p. \<exists>S. \<forall>row. map_of (agg_cells db) (w, k, p) = Some row \<longrightarrow> S \<subseteq> ?E p \<and>
      col_events row = int (card (hit_set (w, k) S)) \<and> col_users row = int (card (ev_user ` hit_set (w, k) S))"
  proof
    fix p
    show "\<exists>S. \<forall>row. map_of (agg_cells db) (w, k, p) = Some row \<longrightarrow> S \<subseteq> ?E p \<and>
        col_events row = int (card (hit_set (w, k) S)) \<and> col_users row = int (card (ev_user ` hit_set (w, k) S))"
      using assms(3) [of p] by (cases "map_of (agg_cells db) (w, k, p)") simp_all
  qed
  from choice [OF this] obtain S where S: "\<And>p row. map_of (agg_cells db) (w, k, p) = Some row \<Longrightarrow> S p \<subseteq> ?E p \<and>
      col_events row = int (card (hit_set (w, k) (S p))) \<and> col_users row = int (card (ev_user ` hit_set (w, k) (S p)))"
    by auto
  define T where "T p = (if map_of (agg_cells db) (w, k, p) = None then {} else S p)" for p
  have T: "T p \<subseteq> ?E p" for p using S by (auto simp: T_def)
  have fin: "finite es" "card es < 2 ^ 63" using assms(1) by (simp_all add: posts_ok_def)
  have "?ps \<subseteq> (\<lambda>x. snd (snd (fst x))) ` set (agg_cells db)" by (force dest: map_of_SomeD)
  then have ps: "finite ?ps" by (rule finite_subset) simp
  let ?ev = "\<lambda>p. card (hit_set (w, k) (T p))" and ?us = "\<lambda>p. ev_user ` hit_set (w, k) (T p)"
  let ?U = "\<Union>p \<in> ?ps. T p"
  have finT: "finite (hit_set (w, k) (T p))" for p
    using finite_subset [OF T] fin(1) by (simp add: hit_set_def)
  have rows: "rows_by_partition db w k ?ps ?ev ?us"
    using assms(2) S by (auto simp: rows_by_partition_def T_def hit_set_def split: option.splits)
  have disj: "\<forall>p q. p \<noteq> q \<longrightarrow> ?us p \<inter> ?us q = {}"
  proof (intro allI impI)
    fix p q :: i32 assume "p \<noteq> q"
    have "part (pseudonymize lib salt u) = p" if "u \<in> ?us p" for u p using that T by (auto simp: hit_set_def)
    with \<open>p \<noteq> q\<close> show "?us p \<inter> ?us q = {}" by blast
  qed
  have un: "(\<Union>p \<in> ?ps. ?us p) = ev_user ` hit_set (w, k) ?U" by (auto simp: hit_set_def)
  have "sum ?ev ?ps = card (\<Union>p \<in> ?ps. hit_set (w, k) (T p))"
  proof (rule card_UN_disjoint [symmetric])
    show "\<forall>p \<in> ?ps. \<forall>q \<in> ?ps. p \<noteq> q \<longrightarrow> hit_set (w, k) (T p) \<inter> hit_set (w, k) (T q) = {}" using disj by blast
  qed (use ps finT in simp_all)
  also have "(\<Union>p \<in> ?ps. hit_set (w, k) (T p)) = hit_set (w, k) ?U" by (auto simp: hit_set_def)
  finally have ev: "sum ?ev ?ps = card (hit_set (w, k) ?U)" .
  have U: "?U \<subseteq> es" using T by blast
  then have hU: "hit_set (w, k) ?U \<subseteq> es" by (auto simp: hit_set_def)
  have b1: "card (hit_set (w, k) ?U) < 2 ^ 63" using card_mono [OF fin(1) hU] fin(2) by linarith
  have b2: "card (ev_user ` hit_set (w, k) ?U) < 2 ^ 63"
    using card_image_le [OF finite_subset [OF hU fin(1)], of ev_user] b1 by linarith
  from fetch_cell_exact_distinct [OF rows ps _ disj, unfolded ev un] finT b1 b2 U
  show ?thesis unfolding counts_some_def by blast
qed

text \<open>Tables in which every cell counts some of the events.\<close>

definition db_sound :: "Event set \<Rightarrow> Database \<Rightarrow> bool" where
  "db_sound es db \<longleftrightarrow> keys_wf db \<and>
     (\<forall>w k. \<exists>rc. fetch_cell True db w k = Inr (Some rc) \<and> counts_some es w k (rc_events rc) (rc_users rc))"

text \<open>Every cell the tables of a running pipeline report.\<close>

lemma pipeline_db_sound:
  assumes "duration_trunc_spec trunc" and "channel_spec try_send queue alive cap" and "recv_spec recv queue alive"
    and "fresh_gateway queue alive gw"
    and "pipeline lib try_send recv part decode trunc hll_on to_rfc3339 gw app s"
    and "posts_ok decode lib (gs_salt gw) (set (ig_queued (pl_ingest s)))"
  shows "db_sound (set (ig_queued (pl_ingest s))) (sys_db (pl_agg s))"
proof -
  let ?lg = "\<lambda>p. decoded_log decode (partition_raw (ig_topic (pl_ingest s)) p)"
  from pipeline_parts [OF assms(5)] have run: "ingest_run lib try_send recv part gw (pl_ingest s)"
    and agg: "reachable decode trunc hll_on (partition_raw (ig_topic (pl_ingest s))) (pl_agg s)" by blast+
  have json: "json_round_trip decode lib (pseud_event lib (gs_salt gw) ` set (ig_queued (pl_ingest s)))"
    and ts: "\<forall>e \<in> set (ig_queued (pl_ingest s)). in_i64 (ev_ts e)" using assms(6) by (simp_all add: posts_ok_def)
  note raw = ingest_raw_ok [OF assms(2-4) run json ts]
  have ok: "log_ok (?lg p)" for p by (rule raw_ok_log_ok [OF raw])
  have inv: "db_inv hll_on ?lg (sys_db (pl_agg s))" using reachable_inv [OF agg assms(1) raw] by blast
  have wf: "keys_wf (sys_db (pl_agg s))" by (rule typed_keys_wf [OF db_inv_typed [OF inv ok]])
  have al: "al_inv (agg_cells (sys_db (pl_agg s)))" using inv by (simp add: db_inv_def db_ok_def)
  have "\<exists>rc. fetch_cell True (sys_db (pl_agg s)) w k = Inr (Some rc) \<and>
       counts_some (set (ig_queued (pl_ingest s))) w k (rc_events rc) (rc_users rc)" for w k
  proof (rule fetch_cell_posts [OF assms(6) al, where part = part])
    fix p row assume "map_of (agg_cells (sys_db (pl_agg s))) (w, k, p) = Some row"
    then have "row_from_log hll_on (?lg p) w k row" using inv by (simp add: db_inv_def)
    from row_from_log_counts [OF ok this] obtain n
      where "row_counts hll_on k (in_window w (before (?lg p) n)) row" ..
    from assms(6) this show "\<exists>S. S \<subseteq> {e \<in> set (ig_queued (pl_ingest s)). part (pseudonymize lib (gs_salt gw) (ev_user e)) = p} \<and>
        col_events row = int (card (hit_set (w, k) S)) \<and> col_users row = int (card (ev_user ` hit_set (w, k) S))"
    proof (rule row_counts_posts)
      fix off e assume "(off, e) \<in> set (?lg p)"
      from decoded_events_queued [OF assms(2-4) run json this]
      show "\<exists>e0 \<in> set (ig_queued (pl_ingest s)). e = pseud_event lib (gs_salt gw) e0 \<and> part (ev_user e) = p" by blast
    qed
  qed
  with wf show ?thesis by (simp add: db_sound_def)
qed

section \<open>What an answer reports\<close>

text \<open>The cache keeps the answers of exact queries apart from the estimates, so what it holds under the key of
  an exact query is sound.\<close>

lemma cache_key_estimator: "cache_key to_rfc3339 q = cache_key to_rfc3339 q' \<Longrightarrow> q_estimator q = q_estimator q'"
proof -
  assume "cache_key to_rfc3339 q = cache_key to_rfc3339 q'"
  then have "last (cache_key to_rfc3339 q) = last (cache_key to_rfc3339 q')" by simp
  then show ?thesis
    by (cases "q_estimator q"; cases "q_estimator q'") (simp_all add: cache_key_def show_estimator_def)
qed

definition cache_sound :: "(datetime \<Rightarrow> string) \<Rightarrow> u64 \<Rightarrow> Event set \<Rightarrow> AppState \<Rightarrow> bool" where
  "cache_sound to_rfc3339 k es st \<longleftrightarrow> (\<forall>q r. q_estimator q = Exact \<and> as_cache st (cache_key to_rfc3339 q) = Some r \<longrightarrow>
     sound_answer k es r)"

definition stage_sound :: "u64 \<Rightarrow> Event set \<Rightarrow> StatsQuery \<Rightarrow> Stage \<Rightarrow> bool" where
  "stage_sound k es q stage \<longleftrightarrow> (case stage of
       Storing r \<Rightarrow> q_estimator q = Exact \<longrightarrow> sound_answer k es r
     | ReadingChildren par _ \<Rightarrow> parent_key q = Inr par
     | _ \<Rightarrow> True)"

lemma db_soundD:
  assumes "db_sound es db" and "fetch_cell True db w k = Inr (Some rc)"
  shows "counts_some es w k (rc_events rc) (rc_users rc)"
proof -
  from assms(1) obtain rc' where "fetch_cell True db w k = Inr (Some rc')" "counts_some es w k (rc_events rc') (rc_users rc')"
    unfolding db_sound_def by blast
  with assms(2) show ?thesis by simp
qed

text \<open>What the two kinds of answers show.\<close>

lemma global_answer_sound:
  assumes "db_sound es db" and "fetch_cell up db w global_key = Inr g"
  shows "sound_answer k es \<lparr>resp_window_start = w, resp_level = LEVEL_GLOBAL,
    resp_cells = (case g of None \<Rightarrow> [] | Some c \<Rightarrow> [global_result k c])\<rparr>"
proof (cases g)
  case (Some c)
  with assms(2) have c: "fetch_cell True db w global_key = Inr (Some c)" by (auto simp: fetch_cell_def split: if_splits)
  then have "(rc_family c, rc_wiki c, rc_namespace c) = (ck_family global_key, ck_wiki global_key, ck_namespace global_key)"
    by (auto simp: fetch_cell_def map_sum_Inr dest: summed_cell_fields)
  with db_soundD [OF assms(1) c] show ?thesis
    by (auto simp: sound_answer_def Some global_result_def suppress_single_def key_defs)
qed (simp add: sound_answer_def)

lemma visible_child:
  assumes "Visible f wi n events users \<in> set (suppress pu cs k)"
  obtains rc where "rc \<in> set cs" "as_visible rc = Visible f wi n events users"
proof (rule suppress_split [of pu cs k])
  fix he vis hid pulled
  assume s: "suppress pu cs k = map as_visible vis @ (if hid \<noteq> [] \<and> k \<le> he then [Other (sum_list (map rc_events hid)) he] else [])"
    and v: "visible0 k cs = pulled @ vis"
  have "set vis \<subseteq> set (visible0 k cs)" by (simp add: v)
  also have "\<dots> \<subseteq> set cs" by (auto simp: visible0_def)
  finally show thesis using assms that by (auto simp: s split: if_splits)
qed

lemma children_answer_sound:
  assumes "db_sound es db" and "parent_key q = Inr par" and "fetch_children up db w par = Inr cs"
  shows "sound_answer k es \<lparr>resp_window_start = w, resp_level = q_level q, resp_cells = suppress pu cs k\<rparr>"
  unfolding sound_answer_def
proof (intro allI impI)
  fix f wi n events users
  assume "Visible f wi n events users \<in> set (resp_cells \<lparr>resp_window_start = w, resp_level = q_level q, resp_cells = suppress pu cs k\<rparr>)"
  then have v: "Visible f wi n events users \<in> set (suppress pu cs k)" by simp
  note p = parent_key_inner [OF assms(2)]
  have ge: "k \<le> users" using suppressed_ge [of k pu cs] v by (auto simp: list_all_iff)
  obtain rc where rc: "rc \<in> set cs" "as_visible rc = Visible f wi n events users" using visible_child [OF v] .
  have cs: "fetch_children True db w par = Inr cs" and wf: "keys_wf db"
    using assms(1,3) by (auto simp: fetch_children_def db_sound_def split: if_splits)
  from fetch_children_are_the_children [OF conjunct1 [OF p] wf cs] rc(1)
  have "fetch_cell True db w (key_of_cell par rc) = Inr (Some rc)" by (simp add: list_all_iff)
  from db_soundD [OF assms(1) this] rc(2) ge p
  show "k \<le> users \<and> counts_some es (resp_window_start \<lparr>resp_window_start = w, resp_level = q_level q, resp_cells = suppress pu cs k\<rparr>)
      \<lparr>ck_level = resp_level \<lparr>resp_window_start = w, resp_level = q_level q, resp_cells = suppress pu cs k\<rparr>,
        ck_family = f, ck_wiki = wi, ck_namespace = n\<rparr> events users"
    by (cases rc) (auto simp: key_of_cell_def child_key_def as_visible_def)
qed

lemma cache_sound_insert:
  assumes "cache_sound to_rfc3339 k es st" and "q_estimator q = Exact \<longrightarrow> sound_answer k es r"
  shows "cache_sound to_rfc3339 k es (st\<lparr>as_cache := (as_cache st)(cache_key to_rfc3339 q \<mapsto> r)\<rparr>)"
  unfolding cache_sound_def
proof (intro allI impI)
  fix q' r'
  assume "q_estimator q' = Exact \<and> as_cache (st\<lparr>as_cache := (as_cache st)(cache_key to_rfc3339 q \<mapsto> r)\<rparr>) (cache_key to_rfc3339 q') = Some r'"
  then have e: "q_estimator q' = Exact" "((as_cache st)(cache_key to_rfc3339 q \<mapsto> r)) (cache_key to_rfc3339 q') = Some r'" by simp_all
  show "sound_answer k es r'"
  proof (cases "cache_key to_rfc3339 q' = cache_key to_rfc3339 q")
    case True
    with e cache_key_estimator [OF True] assms(2) show ?thesis by simp
  next
    case False
    with e have "as_cache st (cache_key to_rfc3339 q') = Some r'" by simp
    with e(1) assms(1) show ?thesis unfolding cache_sound_def by blast
  qed
qed

lemma handler_step_sound:
  assumes "db_sound es (as_db st)" and "\<not> as_dp_enabled st" and "cache_sound to_rfc3339 (as_k st) es st"
    and "stage_sound (as_k st) es q stage" and "handler_step to_rfc3339 up rng st q stage = (st', x)"
  shows "cache_sound to_rfc3339 (as_k st) es st' \<and> as_k st' = as_k st \<and> \<not> as_dp_enabled st' \<and>
    (case x of Inl stage' \<Rightarrow> stage_sound (as_k st) es q stage'
     | Inr resp \<Rightarrow> q_estimator q = Exact \<longrightarrow> (\<forall>r. resp = HttpOk r \<longrightarrow> sound_answer (as_k st) es r))"
proof (cases stage)
  case ReadingParent
  with assms show ?thesis
    by (cases "q_estimator q")
      (auto simp: stage_sound_def stats_response_def read_cell_def apply_dp_noise_def internal_error_def
        intro: global_answer_sound split: if_splits sum.splits query_error.splits)
next
  case (ReadingChildren par cell)
  with assms show ?thesis
    by (cases "q_estimator q")
      (auto simp: stage_sound_def stats_response_def read_children_def apply_dp_noise_def internal_error_def
        intro: children_answer_sound split: sum.splits query_error.splits)
next
  case Looking
  then have "st' = st" "x = (case as_cache st (cache_key to_rfc3339 q) of Some hit \<Rightarrow> Inr (HttpOk hit) | None \<Rightarrow> Inl ReadingParent)"
    using assms(5) by auto
  with assms(2,3) show ?thesis
    by (cases "as_cache st (cache_key to_rfc3339 q)") (auto simp: stage_sound_def cache_sound_def)
next
  case (Storing r)
  with assms cache_sound_insert [OF assms(3), of q r] show ?thesis by (auto simp: stage_sound_def)
qed (use assms in \<open>auto simp: stage_sound_def bad_request_def internal_error_def
    split: if_splits option.splits sum.splits query_error.splits\<close>)

section \<open>Every answer ever given\<close>

definition answers_inv :: "(datetime \<Rightarrow> string) \<Rightarrow> AppState \<Rightarrow> 'ch Pipeline \<Rightarrow> bool" where
  "answers_inv to_rfc3339 app s \<longleftrightarrow> as_k (pl_query s) = as_k app \<and> \<not> as_dp_enabled (pl_query s) \<and>
     cache_sound to_rfc3339 (as_k app) (set (ig_queued (pl_ingest s))) (pl_query s) \<and>
     (\<forall>q stage. (q, stage) \<in># pl_running s \<longrightarrow>
        q \<in> set (pl_requests s) \<and> stage_sound (as_k app) (set (ig_queued (pl_ingest s))) q stage) \<and>
     (\<forall>q r. (q, HttpOk r) \<in> set (pl_answers s) \<longrightarrow> q_estimator q = Exact \<longrightarrow> sound_answer (as_k app) (set (ig_queued (pl_ingest s))) r)"

lemma cache_sound_mono: "cache_sound to_rfc3339 k es st \<Longrightarrow> es \<subseteq> es' \<Longrightarrow> cache_sound to_rfc3339 k es' st"
  unfolding cache_sound_def using sound_answer_mono by blast

lemma stage_sound_mono: "stage_sound k es q stage \<Longrightarrow> es \<subseteq> es' \<Longrightarrow> stage_sound k es' q stage"
  by (cases stage) (auto simp: stage_sound_def dest: sound_answer_mono)

lemma answers_inv_grows:
  assumes "answers_inv to_rfc3339 app s" and "set (ig_queued (pl_ingest s)) \<subseteq> set (ig_queued g)"
  shows "answers_inv to_rfc3339 app (s\<lparr>pl_ingest := g\<rparr>)"
  using assms(1) sound_answer_mono [OF _ assms(2)] cache_sound_mono [OF _ assms(2)] stage_sound_mono [OF _ assms(2)]
  by (simp add: answers_inv_def)

text \<open>One step of a running request.\<close>

lemma answers_inv_step:
  assumes "answers_inv to_rfc3339 app s" and "db_sound (set (ig_queued (pl_ingest s))) (sys_db (pl_agg s))"
    and "(q, stage) \<in># pl_running s"
    and "handler_step to_rfc3339 up rng ((pl_query s)\<lparr>as_db := sys_db (pl_agg s)\<rparr>) q stage = (st, x)"
  shows "cache_sound to_rfc3339 (as_k app) (set (ig_queued (pl_ingest s))) st \<and> as_k st = as_k app \<and> \<not> as_dp_enabled st \<and>
    (case x of Inl stage' \<Rightarrow> stage_sound (as_k app) (set (ig_queued (pl_ingest s))) q stage'
     | Inr resp \<Rightarrow> q_estimator q = Exact \<longrightarrow>
         (\<forall>r. resp = HttpOk r \<longrightarrow> sound_answer (as_k app) (set (ig_queued (pl_ingest s))) r))"
proof -
  let ?st = "(pl_query s)\<lparr>as_db := sys_db (pl_agg s)\<rparr>" and ?es = "set (ig_queued (pl_ingest s))"
  have k: "as_k ?st = as_k app" "\<not> as_dp_enabled ?st" "cache_sound to_rfc3339 (as_k ?st) ?es ?st"
    and q: "stage_sound (as_k ?st) ?es q stage"
    using assms(1,3) by (simp_all add: answers_inv_def cache_sound_def)
  have "db_sound ?es (as_db ?st)" using assms(2) by simp
  from handler_step_sound [OF this k(2,3) q assms(4)] show ?thesis by (simp only: k(1) simp_thms)
qed

lemma pipeline_answers:
  assumes "duration_trunc_spec trunc" and "channel_spec try_send queue alive cap" and "recv_spec recv queue alive"
    and "fresh_gateway queue alive gw" and "as_cache app = Map.empty" and "\<not> as_dp_enabled app"
    and "pipeline lib try_send recv part decode trunc hll_on to_rfc3339 gw app s"
    and "posts_ok decode lib (gs_salt gw) (set (ig_queued (pl_ingest s)))"
  shows "answers_inv to_rfc3339 app s"
  using assms(7-)
proof (induction rule: pipeline.induct)
  case start
  then show ?case using assms(5,6) by (simp add: answers_inv_def cache_sound_def)
next
  case (gateway s g)
  have q: "set (ig_queued (pl_ingest s)) \<subseteq> set (ig_queued g)" using ingest_step_grows [OF gateway.hyps(2)] ..
  have "posts_ok decode lib (gs_salt gw) (set (ig_queued g))" using gateway.prems(1) by simp
  from gateway.IH [OF posts_ok_subset [OF this q]] have "answers_inv to_rfc3339 app s" by simp
  from answers_inv_grows [OF this q] show ?case .
next
  case (request s q)
  then show ?case by (auto simp: answers_inv_def stage_sound_def)
next
  case (resumed s q stage up rng st stage')
  then have inv: "answers_inv to_rfc3339 app s"
    and ok: "posts_ok decode lib (gs_salt gw) (set (ig_queued (pl_ingest s)))" by simp_all
  from answers_inv_step [OF inv pipeline_db_sound [OF assms(1-4) resumed.hyps(1) ok] resumed.hyps(2,3)] inv resumed.hyps(2)
  show ?case by (auto simp: answers_inv_def dest: in_diffD)
next
  case (answered s q stage up rng st resp)
  then have inv: "answers_inv to_rfc3339 app s"
    and ok: "posts_ok decode lib (gs_salt gw) (set (ig_queued (pl_ingest s)))" by simp_all
  from answers_inv_step [OF inv pipeline_db_sound [OF assms(1-4) answered.hyps(1) ok] answered.hyps(2,3)] inv
  show ?case by (auto simp: answers_inv_def dest: in_diffD)
next
  case (dropped s q stage)
  then show ?case by (auto simp: answers_inv_def dest: in_diffD)
next
  case (evicted s ks)
  then show ?case by (auto simp: answers_inv_def cache_sound_def evict_def restrict_map_def)
qed (simp add: answers_inv_def)

text \<open>Every visible row ever returned for an exact query counts, for its window and cell, events that clients
  really posted and that passed validation, and at least \<open>k\<close> different users stand behind it.\<close>

lemma pipeline_visible_rows:
  assumes "duration_trunc_spec trunc" and "channel_spec try_send queue alive cap" and "recv_spec recv queue alive"
    and "fresh_gateway queue alive gw" and "as_cache app = Map.empty" and "\<not> as_dp_enabled app"
    and "pipeline lib try_send recv part decode trunc hll_on to_rfc3339 gw app s"
    and "posts_ok decode lib (gs_salt gw) (set (ig_queued (pl_ingest s)))"
    and "q_estimator q = Exact" and "(q, HttpOk r) \<in> set (pl_answers s)" and "Visible f wi n events users \<in> set (resp_cells r)"
    and "wk = (resp_window_start r, \<lparr>ck_level = resp_level r, ck_family = f, ck_wiki = wi, ck_namespace = n\<rparr>)"
  shows "\<exists>S. list_all (\<lambda>e. (\<exists>now. validate e now = Inr ()) \<and> (\<exists>b \<in> posted (pl_ingest s). e \<in> set b)) S \<and>
    unat events = card (hit_set wk (set S)) \<and> unat users = card (ev_user ` hit_set wk (set S)) \<and>
    unat (as_k app) \<le> card (ev_user ` hit_set wk (set S))"
proof -
  have "sound_answer (as_k app) (set (ig_queued (pl_ingest s))) r"
    using pipeline_answers [OF assms(1-8)] assms(9,10) by (auto simp: answers_inv_def)
  with assms(11,12) obtain S where S: "S \<subseteq> set (ig_queued (pl_ingest s))" "unat events = card (hit_set wk S)"
    "unat users = card (ev_user ` hit_set wk S)" and k: "as_k app \<le> users"
    unfolding sound_answer_def counts_some_def by metis
  obtain es where es: "set es = S" using finite_list finite_subset [OF S(1)] by blast
  have "(\<exists>now. validate e now = Inr ()) \<and> (\<exists>b \<in> posted (pl_ingest s). e \<in> set b)" if "e \<in> S" for e
    using requests_invD(4) [OF ingest_requests [OF assms(2-4) conjunct1 [OF pipeline_parts [OF assms(7)]]]] that S(1) by blast
  moreover have "unat (as_k app) \<le> unat users" using k by (simp add: word_le_nat_alt)
  ultimately show ?thesis using S(2,3) es by (intro exI [of _ es]) (simp add: list_all_iff)
qed

section \<open>A run of all services\<close>

lemma pipeline_ingest:
  assumes "ingest_run lib try_send recv part gw g"
  shows "pipeline lib try_send recv part decode trunc hll_on to_rfc3339 gw app
    \<lparr>pl_ingest = g, pl_agg = system_init, pl_query = app, pl_requests = [], pl_running = {#}, pl_answers = []\<rparr>"
  using assms
proof (induction rule: ingest_run.induct)
  case start
  show ?case by (rule pipeline.start)
next
  case (action s s')
  then show ?case using pipeline.gateway [OF action.IH, of s'] by simp
qed

lemma pipeline_exec:
  assumes "pipeline lib try_send recv part decode trunc hll_on to_rfc3339 gw app s"
    and "exec_cmds decode trunc hll_on (partition_raw (ig_topic (pl_ingest s))) cs (workers (pl_agg s) i, sys_db (pl_agg s)) = Some (w, db)"
  shows "pipeline lib try_send recv part decode trunc hll_on to_rfc3339 gw app
    (s\<lparr>pl_agg := \<lparr>workers = (workers (pl_agg s))(i := w), sys_db = db\<rparr>\<rparr>)"
  using assms
proof (induction cs arbitrary: s)
  case Nil
  have "s\<lparr>pl_agg := \<lparr>workers = (workers (pl_agg s))(i := workers (pl_agg s) i), sys_db = sys_db (pl_agg s)\<rparr>\<rparr> = s"
    by (cases s; cases "pl_agg s") (simp add: fun_upd_idem)
  moreover have "w = workers (pl_agg s) i" "db = sys_db (pl_agg s)" using Nil.prems(2) by simp_all
  ultimately show ?case using Nil.prems(1) by (simp only:)
next
  case (Cons c cs)
  then obtain w1 db1 where e: "exec_cmd decode trunc hll_on (partition_raw (ig_topic (pl_ingest s))) c
      (workers (pl_agg s) i, sys_db (pl_agg s)) = Some (w1, db1)" by (auto split: option.splits)
  from Cons.IH [OF pipeline.aggregator [OF Cons.prems(1) exec_cmd_step [OF e]]] Cons.prems(2) e show ?case by (simp cong: if_cong)
qed

text \<open>A request that nothing interrupts.\<close>

lemma pipeline_alone:
  assumes "pipeline lib try_send recv part decode trunc hll_on to_rfc3339 gw app s" and "(q, stage) \<in># pl_running s"
    and "handle_among to_rfc3339 (replicate n ((pl_query s)\<lparr>as_db := sys_db (pl_agg s)\<rparr>, up, rng)) q stage = Some (st, resp)"
  shows "pipeline lib try_send recv part decode trunc hll_on to_rfc3339 gw app
    (s\<lparr>pl_query := st, pl_running := pl_running s - {#(q, stage)#}, pl_answers := pl_answers s @ [(q, resp)]\<rparr>)"
  using assms
proof (induction n arbitrary: s stage)
  case (Suc n)
  let ?st = "(pl_query s)\<lparr>as_db := sys_db (pl_agg s)\<rparr>"
  obtain st1 x where h: "handler_step to_rfc3339 (up (stage_query stage)) rng ?st q stage = (st1, x)" by fastforce
  show ?case
  proof (cases x)
    case (Inr r)
    from pipeline.answered [OF Suc.prems(1,2) h [unfolded Inr]] Suc.prems(3) h show ?thesis by (simp add: Inr)
  next
    case (Inl stage')
    let ?s1 = "s\<lparr>pl_query := st1, pl_running := add_mset (q, stage') (pl_running s - {#(q, stage)#})\<rparr>"
    have "st1 = ?st" using handler_step_progress h Inl by blast
    then have "handle_among to_rfc3339 (replicate n ((pl_query ?s1)\<lparr>as_db := sys_db (pl_agg ?s1)\<rparr>, up, rng)) q stage' = Some (st, resp)"
      using Suc.prems(3) h by (simp add: Inl)
    from Suc.IH [OF pipeline.resumed [OF Suc.prems(1,2) h [unfolded Inl]] _ this] show ?thesis by simp
  qed
qed simp

definition demo_cmds :: "Cmd list" where
  "demo_cmds = [Assign [demo_assign\<lparr>ae_now_utc := 0\<rparr>], Deliver 0 0, Deliver 0 0, Idle (seconds 11) (seconds 9000), Drain, WriteOne True]"

definition demo_topic :: "(i32 \<times> i64 \<times> QueuedMessage) list" where
  "demo_topic = stamped (\<lambda>_. 0) 0 (map (pseudonymize_and_serialize demo_crypto ''salt-'') (batch_events demo_batch))"

lemma demo_cmds_result:
  "case exec_cmds (demo_unjson demo_stored) floor_trunc False (partition_raw demo_topic) demo_cmds (worker_init, sys_db system_init) of
     None \<Rightarrow> False
   | Some (w, db) \<Rightarrow> min_flushed_watermark True db = Inr (Some (seconds 8970)) \<and>
       fetch_cell True db 0 global_key = Inr (Some (raw_cell (''*'', ''*'', - 1) 2 2)) \<and>
       fetch_children True db 0 global_key = Inr [raw_cell (''wikipedia'', ''*'', - 1) 2 2]"
  by code_simp

lemma demo_posts_ok:
  assumes "es \<subseteq> set (batch_events demo_batch)"
  shows "(\<forall>e \<in> es. in_i64 (ev_ts e)) \<and> inj_on event_id es \<and>
    inj_on (pseudonymize demo_crypto (gs_salt demo_gateway)) (ev_user ` es) \<and> finite es \<and> card es < 2 ^ 63"
proof (intro conjI)
  have fin: "finite es" and "card es \<le> length (batch_events demo_batch)"
    using finite_subset [OF assms] card_mono [OF _ assms] card_length [of "batch_events demo_batch"] by force+
  then show "finite es" "card es < 2 ^ 63" by (simp_all add: demo_batch_def)
  show "\<forall>e \<in> es. in_i64 (ev_ts e)" using assms by (auto simp: demo_batch_def in_i64_def)
  show "inj_on event_id es" by (rule inj_on_subset [OF _ assms]) (simp add: demo_batch_def)
  show "inj_on (pseudonymize demo_crypto (gs_salt demo_gateway)) (ev_user ` es)"
    by (simp add: demo_pseudonymize inj_on_def)
qed

lemma demo_pipeline:
  obtains s r where "pipeline demo_crypto demo_send demo_recv (\<lambda>_. 0) (demo_unjson demo_stored) floor_trunc False (\<lambda>_. ''t'')
      demo_gateway (demo_app\<lparr>as_db := sys_db system_init\<rparr>) s"
    "pl_requests s = [demo_query 1]" "(demo_query 1, HttpOk r) \<in> set (pl_answers s)"
    "r = \<lparr>resp_window_start = 0, resp_level = 1, resp_cells = [Visible ''wikipedia'' ''*'' (- 1) 2 2]\<rparr>"
    "posts_ok (demo_unjson demo_stored) demo_crypto (gs_salt demo_gateway) (set (ig_queued (pl_ingest s)))"
proof -
  let ?app = "demo_app\<lparr>as_db := sys_db system_init\<rparr>" and ?dec = "demo_unjson demo_stored"
  let ?pipe = "pipeline demo_crypto demo_send demo_recv (\<lambda>_. 0) ?dec floor_trunc False (\<lambda>_. ''t'') demo_gateway ?app"
  let ?r = "\<lparr>resp_window_start = 0, resp_level = 1, resp_cells = [Visible ''wikipedia'' ''*'' (- 1) 2 2]\<rparr>"
  obtain g where g: "ingest_run demo_crypto demo_send demo_recv (\<lambda>_. 0) demo_gateway g" "ig_topic g = demo_topic"
    and json: "json_round_trip ?dec demo_crypto (pseud_event demo_crypto (gs_salt demo_gateway) ` set (ig_queued g))"
    and sub: "set (ig_queued g) \<subseteq> set (batch_events demo_batch)"
    by (rule demo_delivered) (simp add: demo_topic_def)
  obtain w db where x: "exec_cmds ?dec floor_trunc False (partition_raw demo_topic) demo_cmds (worker_init, sys_db system_init) = Some (w, db)"
    and db: "min_flushed_watermark True db = Inr (Some (seconds 8970))"
      "fetch_cell True db 0 global_key = Inr (Some (raw_cell (''*'', ''*'', - 1) 2 2))"
      "fetch_children True db 0 global_key = Inr [raw_cell (''wikipedia'', ''*'', - 1) 2 2]"
    using demo_cmds_result by (auto split: option.splits)
  let ?s = "\<lparr>pl_ingest = g, pl_agg = \<lparr>workers = (workers system_init)(0 := w), sys_db = db\<rparr>, pl_query = ?app,
    pl_requests = [], pl_running = {#}, pl_answers = []\<rparr>"
  have run: "?pipe ?s" using pipeline_exec [OF pipeline_ingest [OF g(1)], where i = 0 and cs = demo_cmds and w = w and db = db] x g(2)
    by (simp add: system_init_def)
  have sup: "suppress (rc_users (raw_cell (''*'', ''*'', - 1) 2 2)) [raw_cell (''wikipedia'', ''*'', - 1) 2 2] 2 =
      [Visible ''wikipedia'' ''*'' (- 1) 2 2]" by code_simp
  have "is_complete (Some (seconds 8970)) (demo_query 1)" by code_simp
  from demo_app_answer [OF db(1) this db(2,3)] obtain st
    where st: "get_stats (\<lambda>_. ''t'') (\<lambda>_. True) (\<lambda>_. 0) (demo_app\<lparr>as_db := db\<rparr>) (demo_query 1) = (st, HttpOk ?r)"
    unfolding sup by blast
  have h: "handle_among (\<lambda>_. ''t'') (replicate (Suc (Suc (Suc (Suc (Suc (Suc 0)))))) (demo_app\<lparr>as_db := db\<rparr>, \<lambda>_. True, \<lambda>_. 0))
      (demo_query 1) Arrived = Some (st, HttpOk ?r)" unfolding handle_alone_get_stats st ..
  note alone = pipeline_alone [OF pipeline.request [OF run, of "demo_query 1"], of "demo_query 1" Arrived "Suc (Suc (Suc (Suc (Suc (Suc 0)))))"
      "\<lambda>_. True" "\<lambda>_. 0" st "HttpOk ?r"]
  let ?s' = "?s\<lparr>pl_query := st, pl_requests := [demo_query 1], pl_answers := [(demo_query 1, HttpOk ?r)]\<rparr>"
  have run': "?pipe ?s'" using alone h by (simp del: replicate_Suc)
  have ok: "posts_ok ?dec demo_crypto (gs_salt demo_gateway) (set (ig_queued (pl_ingest ?s')))"
    using json demo_posts_ok [OF sub] by (simp add: posts_ok_def)
  show thesis by (rule that [OF run' _ _ refl ok]) simp_all
qed

end
