(* ===== verification/Startup.thy ===== *)
theory Startup
  imports QueryApi WikiSource
begin

text \<open>
  \<^verbatim>\<open>crates/common/src/config.rs\<close>, the \<open>from_env\<close> functions of the four services and the state with
  which \<^verbatim>\<open>main.rs\<close> starts the query API and the gateway. The environment is a function: \<open>None\<close> for a
  variable that is unset or not Unicode. \<open>str::parse\<close> is modelled for \<open>u64\<close>, \<open>usize\<close> and \<open>bool\<close>;
  parsing a float, the resulting \<open>f64\<close> being a real here, is an argument (\<open>parse_f64\<close>), and so is the
  constructor of the tokio channel.
\<close>

type_synonym env = "string \<Rightarrow> string option"

definition EVENTS_TOPIC :: string where
  "EVENTS_TOPIC = ''events''"

definition EVENTS_TOPIC_PARTITIONS :: i32 where
  "EVENTS_TOPIC_PARTITIONS = 12"

definition require_env :: "env \<Rightarrow> string \<Rightarrow> string res" where
  "require_env env key =
     (case env key of
        None \<Rightarrow> Inl (PanicMessage (''missing required environment variable: '' @ key))
      | Some v \<Rightarrow> Inr v)"

definition env_or :: "env \<Rightarrow> string \<Rightarrow> string \<Rightarrow> string" where
  "env_or env key dflt = (case env key of None \<Rightarrow> dflt | Some v \<Rightarrow> v)"

definition env_or_parse :: "(string \<Rightarrow> 'a option) \<Rightarrow> env \<Rightarrow> string \<Rightarrow> 'a \<Rightarrow> 'a" where
  "env_or_parse parse env key dflt =
     (case Option.bind (env key) parse of None \<Rightarrow> dflt | Some x \<Rightarrow> x)"

section \<open>Parsing\<close>

definition digit_value :: "char \<Rightarrow> nat option" where
  "digit_value c = (if 48 \<le> (of_char c :: nat) \<and> (of_char c :: nat) \<le> 57 then Some (of_char c - 48) else None)"

text \<open>\<open>u64::from_str\<close>: an optional plus sign, then decimal digits whose value fits.\<close>

fun parse_digits :: "nat \<Rightarrow> string \<Rightarrow> nat option" where
  "parse_digits acc [] = Some acc"
| "parse_digits acc (c # cs) =
     (case digit_value c of
        None \<Rightarrow> None
      | Some v \<Rightarrow> if acc * 10 + v < 2 ^ 64 then parse_digits (acc * 10 + v) cs else None)"

definition parse_u64 :: "string \<Rightarrow> nat option" where
  "parse_u64 s =
     (case s of
        [] \<Rightarrow> None
      | c # cs \<Rightarrow> if c = CHR ''+'' \<and> cs \<noteq> [] then parse_digits 0 cs else parse_digits 0 s)"

definition parse_bool :: "string \<Rightarrow> bool option" where
  "parse_bool s = (if s = ''true'' then Some True else if s = ''false'' then Some False else None)"

section \<open>Configurations\<close>

record AggregatorConfig =
  ac_kafka_brokers :: string
  ac_topic :: string
  ac_group_id :: string
  ac_database_url :: string
  ac_metrics_addr :: string
  ac_flush_interval_ms :: nat
  ac_idle_check_interval_ms :: nat
  ac_hll_enabled :: bool

definition aggregator_from_env :: "env \<Rightarrow> AggregatorConfig res" where
  "aggregator_from_env env =
     (case require_env env ''DATABASE_URL'' of
        Inl p \<Rightarrow> Inl p
      | Inr url \<Rightarrow> Inr
          \<lparr>ac_kafka_brokers = env_or env ''KAFKA_BROKERS'' ''localhost:9092'',
           ac_topic = env_or env ''EVENTS_TOPIC'' EVENTS_TOPIC,
           ac_group_id = env_or env ''AGGREGATOR_GROUP_ID'' ''hush-aggregator'',
           ac_database_url = url,
           ac_metrics_addr = env_or env ''AGGREGATOR_METRICS_ADDR'' ''0.0.0.0:9102'',
           ac_flush_interval_ms = env_or_parse parse_u64 env ''FLUSH_INTERVAL_MS'' 1000,
           ac_idle_check_interval_ms = env_or_parse parse_u64 env ''IDLE_CHECK_INTERVAL_MS'' 1000,
           ac_hll_enabled = env_or_parse parse_bool env ''HLL_ENABLED'' False\<rparr>)"

record QueryConfig =
  qc_bind_addr :: string
  qc_database_url :: string
  qc_metrics_addr :: string
  qc_privacy_k :: u64
  qc_cache_capacity :: nat
  qc_dp_enabled :: bool
  qc_dp_epsilon :: real

definition query_from_env :: "(string \<Rightarrow> real option) \<Rightarrow> env \<Rightarrow> QueryConfig res" where
  "query_from_env parse_f64 env =
     (case require_env env ''DATABASE_URL'' of
        Inl p \<Rightarrow> Inl p
      | Inr url \<Rightarrow> Inr
          \<lparr>qc_bind_addr = env_or env ''QUERY_BIND_ADDR'' ''0.0.0.0:8081'',
           qc_database_url = url,
           qc_metrics_addr = env_or env ''QUERY_METRICS_ADDR'' ''0.0.0.0:9103'',
           qc_privacy_k = env_or_parse (map_option of_nat \<circ> parse_u64) env ''PRIVACY_K'' DEFAULT_K,
           qc_cache_capacity = env_or_parse parse_u64 env ''QUERY_CACHE_CAPACITY'' 10000,
           qc_dp_enabled = env_or_parse parse_bool env ''DP_ENABLED'' False,
           qc_dp_epsilon = env_or_parse parse_f64 env ''DP_EPSILON'' 1\<rparr>)"

record AppConfig =
  gc_bind_addr :: string
  gc_kafka_brokers :: string
  gc_topic :: string
  gc_pseudonym_salt :: string
  gc_channel_capacity :: nat
  gc_max_batch_events :: nat
  gc_metrics_addr :: string
  gc_kafka_linger_ms :: string
  gc_kafka_batch_size :: string

definition gateway_from_env :: "env \<Rightarrow> AppConfig res" where
  "gateway_from_env env =
     (case require_env env ''PSEUDONYM_SALT'' of
        Inl p \<Rightarrow> Inl p
      | Inr salt \<Rightarrow> Inr
          \<lparr>gc_bind_addr = env_or env ''INGEST_BIND_ADDR'' ''0.0.0.0:8080'',
           gc_kafka_brokers = env_or env ''KAFKA_BROKERS'' ''localhost:9092'',
           gc_topic = env_or env ''EVENTS_TOPIC'' EVENTS_TOPIC,
           gc_pseudonym_salt = salt,
           gc_channel_capacity = env_or_parse parse_u64 env ''INGEST_CHANNEL_CAPACITY'' 10000,
           gc_max_batch_events = env_or_parse parse_u64 env ''INGEST_MAX_BATCH_EVENTS'' 5000,
           gc_metrics_addr = env_or env ''INGEST_METRICS_ADDR'' ''0.0.0.0:9100'',
           gc_kafka_linger_ms = env_or env ''KAFKA_LINGER_MS'' ''5'',
           gc_kafka_batch_size = env_or env ''KAFKA_BATCH_SIZE'' ''262144''\<rparr>)"

record SourceConfig =
  sc_stream_url :: string
  sc_gateway_url :: string
  sc_batch_max_events :: nat
  sc_batch_max_interval_ms :: nat

definition source_from_env :: "env \<Rightarrow> SourceConfig" where
  "source_from_env env =
     \<lparr>sc_stream_url = env_or env ''WIKI_STREAM_URL'' ''https://stream.wikimedia.org/v2/stream/recentchange'',
      sc_gateway_url = env_or env ''GATEWAY_URL'' ''http://localhost:8080/v1/events'',
      sc_batch_max_events = env_or_parse parse_u64 env ''BATCH_MAX_EVENTS'' 500,
      sc_batch_max_interval_ms = env_or_parse parse_u64 env ''BATCH_MAX_INTERVAL_MS'' 200\<rparr>"

section \<open>The state a service starts with\<close>

definition query_start :: "QueryConfig \<Rightarrow> Database \<Rightarrow> AppState" where
  "query_start cfg db = \<lparr>as_db = db, as_cache = Map.empty, as_k = qc_privacy_k cfg,
     as_dp_enabled = qc_dp_enabled cfg, as_dp_epsilon = qc_dp_epsilon cfg\<rparr>"

definition gateway_start :: "(nat \<Rightarrow> 'ch res) \<Rightarrow> AppConfig \<Rightarrow> 'ch GatewayState res" where
  "gateway_start channel cfg =
     (case channel (gc_channel_capacity cfg) of
        Inl p \<Rightarrow> Inl p
      | Inr tx \<Rightarrow> Inr \<lparr>gs_tx = tx, gs_salt = gc_pseudonym_salt cfg, gs_max_batch_events = gc_max_batch_events cfg\<rparr>)"

text \<open>The life of a query server: requests (with the outcome of their queries and the random draws),
  writes of the aggregators to the shared database, and evictions from the cache.\<close>

datatype ServerStep = Request "nat \<Rightarrow> bool" "nat \<Rightarrow> real" StatsQuery | DbChange Database | Evict "string set"

fun serve :: "(datetime \<Rightarrow> string) \<Rightarrow> AppState \<Rightarrow> ServerStep list \<Rightarrow> StatsResponse http list" where
  "serve to_rfc3339 st [] = []"
| "serve to_rfc3339 st (Request up rng q # steps) =
     (case get_stats to_rfc3339 up rng st q of (st', res) \<Rightarrow> res # serve to_rfc3339 st' steps)"
| "serve to_rfc3339 st (DbChange db # steps) = serve to_rfc3339 (st\<lparr>as_db := db\<rparr>) steps"
| "serve to_rfc3339 st (Evict ks # steps) = serve to_rfc3339 (evict ks st) steps"

section \<open>Numbers in the environment\<close>

lemma digit_value_digit: "n < 10 \<Longrightarrow> digit_value (char_of (48 + n)) = Some n"
  by (simp add: digit_value_def)

lemma parse_digits_append:
  "parse_digits acc (xs @ ys) = Option.bind (parse_digits acc xs) (\<lambda>a. parse_digits a ys)"
  by (induction acc xs rule: parse_digits.induct) (auto split: option.splits)

lemma parse_digits_show: "n < 2 ^ 64 \<Longrightarrow> parse_digits 0 (show_nat n) = Some n"
proof (induction n rule: show_nat.induct)
  case (1 n)
  show ?case
  proof (cases "n < 10")
    case True
    then show ?thesis by (simp add: show_nat.simps [of n] digit_value_digit)
  next
    case False
    then have "parse_digits 0 (show_nat (n div 10)) = Some (n div 10)" using 1 by simp
    moreover have "n div 10 * 10 + n mod 10 = n" by simp
    ultimately show ?thesis using False 1(2)
      by (simp add: show_nat.simps [of n] parse_digits_append digit_value_digit del: div_mult_mod_eq)
  qed
qed

lemma parse_digits_overflow: "2 ^ 64 \<le> n \<Longrightarrow> parse_digits 0 (show_nat n) = None"
proof (induction n rule: show_nat.induct)
  case (1 n)
  then have n: "\<not> n < 10" by simp
  show ?case
  proof (cases "n div 10 < 2 ^ 64")
    case True
    then show ?thesis using n 1(2)
      by (simp add: show_nat.simps [of n] parse_digits_append parse_digits_show digit_value_digit)
  next
    case False
    then show ?thesis using 1 n by (simp add: show_nat.simps [of n] parse_digits_append)
  qed
qed

lemma show_nat_digits: "show_nat n \<noteq> [] \<and> hd (show_nat n) \<noteq> CHR ''+''"
proof (induction n rule: show_nat.induct)
  case (1 n)
  have "char_of (48 + n) \<noteq> CHR ''+''" if "n < 10"
  proof
    assume "char_of (48 + n) = CHR ''+''"
    then have "(of_char (char_of (48 + n) :: char) :: nat) = of_char CHR ''+''" by simp
    with that show False by simp
  qed
  with 1 show ?case by (cases "n < 10") (simp_all add: show_nat.simps [of n])
qed

lemma parse_u64_show_nat: "parse_u64 (show_nat n) = (if n < 2 ^ 64 then Some n else None)"
  using show_nat_digits [of n] parse_digits_show [of n] parse_digits_overflow [of n]
  by (cases "show_nat n") (auto simp: parse_u64_def)

text \<open>Numbers survive the environment. A decimal number written to a variable is read back when it
  fits 64 bits and silently replaced by the default otherwise, wherever a service reads a number; for
  the privacy threshold this means that the query API runs with exactly the configured \<open>k\<close> or, if the
  number does not fit, with ten.\<close>

theorem config_number_round_trip:
  "env_or_parse parse_u64 (env(key \<mapsto> show_nat n)) key dflt = (if n < 2 ^ 64 then n else dflt) \<and>
   (\<exists>cfg. query_from_env parse_f64 (env(''DATABASE_URL'' \<mapsto> url, ''PRIVACY_K'' \<mapsto> show_nat n)) = Inr cfg \<and>
      unat (qc_privacy_k cfg) = (if n < 2 ^ 64 then n else 10))"
proof -
  have "unat (of_nat n :: u64) = n" if "n < 2 ^ 64" using that by (simp add: unat_of_nat take_bit_nat_eq_self)
  then show ?thesis
    by (simp add: env_or_parse_def parse_u64_show_nat query_from_env_def require_env_def DEFAULT_K_def)
qed

section \<open>Starting\<close>

text \<open>The services that need a variable stop with a message that names it, and only then.\<close>

lemma startup_panics_iff:
  "(\<exists>p. query_from_env parse_f64 env = Inl p) \<longleftrightarrow> env ''DATABASE_URL'' = None"
  "(\<exists>p. aggregator_from_env env = Inl p) \<longleftrightarrow> env ''DATABASE_URL'' = None"
  "(\<exists>p. gateway_from_env env = Inl p) \<longleftrightarrow> env ''PSEUDONYM_SALT'' = None"
  by (auto simp: query_from_env_def aggregator_from_env_def gateway_from_env_def require_env_def split: option.splits)

text \<open>Only the exact word \<open>true\<close> turns a feature on: \<open>HLL_ENABLED=1\<close> or \<open>DP_ENABLED=TRUE\<close> leave it off.\<close>

lemma env_flag: "env_or_parse parse_bool env key False \<longleftrightarrow> env key = Some ''true''"
  by (cases "env key") (auto simp: env_or_parse_def parse_bool_def)

lemma query_from_env_fields:
  assumes "query_from_env parse_f64 env = Inr cfg"
  shows "qc_dp_enabled cfg \<longleftrightarrow> env ''DP_ENABLED'' = Some ''true''"
    "qc_privacy_k cfg = env_or_parse (map_option of_nat \<circ> parse_u64) env ''PRIVACY_K'' DEFAULT_K"
    "qc_dp_epsilon cfg = env_or_parse parse_f64 env ''DP_EPSILON'' 1"
  using assms by (auto simp: query_from_env_def env_flag split: sum.splits)

lemma aggregator_hll_flag: "aggregator_from_env env = Inr cfg \<Longrightarrow> ac_hll_enabled cfg \<longleftrightarrow> env ''HLL_ENABLED'' = Some ''true''"
  by (auto simp: aggregator_from_env_def env_flag split: sum.splits)

section \<open>The query server over time\<close>

lemma serve_k:
  assumes "cache_ok st" and "\<not> as_dp_enabled st" and "res \<in> set (serve to_rfc3339 st steps)"
    and "res = HttpOk r" and "resp_level r \<noteq> 0"
  shows "list_all (\<lambda>c. as_k st \<le> res_users c) (resp_cells r)"
  using assms
proof (induction to_rfc3339 st steps rule: serve.induct)
  case (2 to_rfc3339 st up rng q steps)
  obtain st' res' where g: "get_stats to_rfc3339 up rng st q = (st', res')" by (cases "get_stats to_rfc3339 up rng st q")
  from get_stats_keeps_k [OF "2.prems"(1,2) g] have k: "cache_ok st'" "\<not> as_dp_enabled st'" "as_k st' = as_k st"
    and r: "\<And>r. res' = HttpOk r \<Longrightarrow> resp_level r \<noteq> 0 \<Longrightarrow> list_all (\<lambda>c. as_k st \<le> res_users c) (resp_cells r)"
    by auto
  show ?case
  proof (cases "res = res'")
    case True
    with r "2.prems"(4,5) show ?thesis by simp
  next
    case False
    then have "res \<in> set (serve to_rfc3339 st' steps)" using "2.prems"(3) g by simp
    from "2.IH" [OF g [symmetric] k(1,2) this "2.prems"(4,5)] k(3) show ?thesis by simp
  qed
next
  case (3 to_rfc3339 st db steps)
  then show ?case by (simp add: cache_ok_def)
next
  case (4 to_rfc3339 st ks steps)
  then show ?case using cache_ok_evict by (simp add: evict_def)
qed simp

text \<open>C9: k-anonymity over the life of a server. Start the query API from its environment with noise off and
  let it serve any sequence of requests while the tables change and the cache drops entries at will.
  Every answer below the root level, cached or fresh, reports in each of its rows at least as many
  users as the configured threshold; without a usable \<open>PRIVACY_K\<close> that is ten.\<close>

theorem server_k_anonymous:
  assumes "query_from_env parse_f64 env = Inr cfg" and "env ''DP_ENABLED'' \<noteq> Some ''true''"
    and "HttpOk r \<in> set (serve to_rfc3339 (query_start cfg db) steps)" and "resp_level r \<noteq> 0"
  shows "list_all (\<lambda>c. qc_privacy_k cfg \<le> res_users c) (resp_cells r) \<and>
    (Option.bind (env ''PRIVACY_K'') parse_u64 = None \<longrightarrow> list_all (\<lambda>c. 10 \<le> res_users c) (resp_cells r))"
proof -
  have "cache_ok (query_start cfg db)" by (simp add: cache_ok_def query_start_def)
  moreover have "\<not> as_dp_enabled (query_start cfg db)"
    using query_from_env_fields(1) [OF assms(1)] assms(2) by (simp add: query_start_def)
  ultimately have k: "list_all (\<lambda>c. qc_privacy_k cfg \<le> res_users c) (resp_cells r)"
    using serve_k [OF _ _ assms(3) refl assms(4)] by (simp add: query_start_def)
  have "qc_privacy_k cfg = 10" if "Option.bind (env ''PRIVACY_K'') parse_u64 = None"
    unfolding query_from_env_fields(2) [OF assms(1)] using that
    by (cases "env ''PRIVACY_K''") (simp_all add: env_or_parse_def DEFAULT_K_def)
  with k show ?thesis by auto
qed

theorem server_k_anonymous_witness:
  "\<exists>cfg r. query_from_env (\<lambda>_. None) [''DATABASE_URL'' \<mapsto> ''db'', ''PRIVACY_K'' \<mapsto> ''2''] = Inr cfg \<and> qc_privacy_k cfg = 2 \<and>
     HttpOk r \<in> set (serve (\<lambda>_. ''t'') (query_start cfg demo_db) [Request (\<lambda>_. True) (\<lambda>_. 0) (demo_query 1)]) \<and>
     list_all (\<lambda>c. 2 \<le> res_users c) (resp_cells r)"
proof -
  let ?env = "[''DATABASE_URL'' \<mapsto> ''db'', ''PRIVACY_K'' \<mapsto> ''2'']"
  obtain cfg where c: "query_from_env (\<lambda>_. None) ?env = Inr cfg"
    by (simp add: query_from_env_def require_env_def)
  note f = query_from_env_fields [OF c]
  have k: "qc_privacy_k cfg = 2" unfolding f(2) by (simp add: env_or_parse_def parse_u64_def digit_value_def)
  have start: "query_start cfg demo_db = demo_app"
    using f(1,3) k by (simp add: query_start_def demo_app_def env_or_parse_def)
  let ?r = "\<lparr>resp_window_start = 0, resp_level = 1, resp_cells = [Visible ''wikipedia'' ''*'' (- 1) 5 4]\<rparr>"
  have "HttpOk ?r \<in> set (serve (\<lambda>_. ''t'') (query_start cfg demo_db) [Request (\<lambda>_. True) (\<lambda>_. 0) (demo_query 1)])"
    unfolding start using demo_query_result by auto
  with server_k_anonymous [OF c _ this] c k show ?thesis by auto
qed

end
