(* ===== verification/Services.thy ===== *)
theory Services
  imports Pipeline Startup
begin

text \<open>
  The \<open>main\<close> functions of the four services: \<^verbatim>\<open>aggregator/src/main.rs\<close>, \<^verbatim>\<open>ingest-gateway/src/main.rs\<close> with the
  producer settings of \<^verbatim>\<open>producer.rs\<close>, \<^verbatim>\<open>query-api/src/main.rs\<close>, \<^verbatim>\<open>wiki-source/src/main.rs\<close>; and the rebalance
  context of \<^verbatim>\<open>aggregator/src/rebalance.rs\<close>. Starting is a sequence of calls to the outside, each of which may
  fail; what they answer is the argument \<open>out\<close>. A service that starts is the record of what it runs with.
\<close>

record Outside =
  addr_valid :: "string \<Rightarrow> bool"
  exporter_ok :: "string \<Rightarrow> bool"
  database_ok :: "string \<Rightarrow> bool"
  migrations_ok :: "string \<Rightarrow> bool"
  kafka_ok :: "(string \<times> string) list \<Rightarrow> bool"
  subscribe_ok :: "string \<Rightarrow> bool"
  bind_ok :: "string \<Rightarrow> bool"

text \<open>\<open>addr_valid\<close>: the string parses as a socket address. The others: the metrics exporter could be installed
  at the address, the database connected to, its migrations run, a Kafka client created from its
  settings, the topic subscribed to, the server socket bound.\<close>

datatype start_error =
    StartPanic panic
  | InvalidAddr string
  | ExporterFailed string
  | DatabaseUnreachable
  | MigrationFailed
  | KafkaRefused
  | SubscribeFailed string
  | BindFailed string

definition install_exporter :: "Outside \<Rightarrow> string \<Rightarrow> start_error option" where
  "install_exporter out addr =
     (if \<not> addr_valid out addr then Some (InvalidAddr addr)
      else if \<not> exporter_ok out addr then Some (ExporterFailed addr)
      else None)"

definition bind_server :: "Outside \<Rightarrow> string \<Rightarrow> start_error option" where
  "bind_server out addr =
     (if \<not> addr_valid out addr then Some (InvalidAddr addr)
      else if \<not> bind_ok out addr then Some (BindFailed addr)
      else None)"

text \<open>\<open>tokio::time::interval\<close> refuses a period of zero.\<close>

definition interval :: "nat \<Rightarrow> nat res" where
  "interval ms = (if ms = 0 then Inl (AssertionFailed ''`period` must be non-zero.'') else Inr ms)"

section \<open>The rebalance context\<close>

text \<open>\<open>rx_consumer\<close> is the weak reference to the consumer, once it is bound; \<open>alive\<close> says whether it can still be
  upgraded.\<close>

record RebalanceContext =
  rx_states :: states
  rx_consumer :: "nat option"
  rx_hll_enabled :: bool

datatype Rebalance = AssignPartitions "AssignElem list" | RevokePartitions "i32 list" | RebalanceError

definition context_new :: "bool \<Rightarrow> RebalanceContext" where
  "context_new hll_on = \<lparr>rx_states = [], rx_consumer = None, rx_hll_enabled = hll_on\<rparr>"

definition bind_consumer :: "nat \<Rightarrow> RebalanceContext \<Rightarrow> RebalanceContext" where
  "bind_consumer consumer ctx = ctx\<lparr>rx_consumer := Some consumer\<rparr>"

definition context_pre_rebalance :: "Rebalance \<Rightarrow> RebalanceContext \<Rightarrow> RebalanceContext" where
  "context_pre_rebalance rb ctx =
     (case rb of
        RevokePartitions ps \<Rightarrow> ctx\<lparr>rx_states := pre_rebalance ps (rx_states ctx)\<rparr>
      | _ \<Rightarrow> ctx)"

definition context_post_rebalance ::
  "(nat \<Rightarrow> bool) \<Rightarrow> Database \<Rightarrow> Rebalance \<Rightarrow> RebalanceContext \<Rightarrow> (i32 \<Rightarrow> i64) \<Rightarrow> RebalanceContext \<times> (i32 \<Rightarrow> i64)" where
  "context_post_rebalance alive db rb ctx pos =
     (case rb of
        AssignPartitions els \<Rightarrow>
          (case post_rebalance (case rx_consumer ctx of None \<Rightarrow> False | Some c \<Rightarrow> alive c)
                  (rx_hll_enabled ctx) db els (rx_states ctx, pos) of
             (sts, pos') \<Rightarrow> (ctx\<lparr>rx_states := sts\<rparr>, pos'))
      | _ \<Rightarrow> (ctx, pos))"

section \<open>The aggregator\<close>

definition consumer_settings :: "AggregatorConfig \<Rightarrow> (string \<times> string) list" where
  "consumer_settings cfg =
     [(''bootstrap.servers'', ac_kafka_brokers cfg),
      (''group.id'', ac_group_id cfg),
      (''enable.auto.commit'', ''false''),
      (''auto.offset.reset'', ''earliest''),
      (''partition.assignment.strategy'', ''cooperative-sticky'')]"

record Aggregator =
  ag_context :: RebalanceContext
  ag_settings :: "(string \<times> string) list"
  ag_topic :: string
  ag_flush_timer :: "nat res"
  ag_idle_timer :: "nat res"

definition aggregator_main :: "env \<Rightarrow> Outside \<Rightarrow> nat \<Rightarrow> start_error + Aggregator" where
  "aggregator_main env out consumer =
     (case aggregator_from_env env of
        Inl p \<Rightarrow> Inl (StartPanic p)
      | Inr cfg \<Rightarrow>
          (case install_exporter out (ac_metrics_addr cfg) of
             Some e \<Rightarrow> Inl e
           | None \<Rightarrow>
               if \<not> database_ok out (ac_database_url cfg) then Inl DatabaseUnreachable
               else if \<not> migrations_ok out (ac_database_url cfg) then Inl MigrationFailed
               else if \<not> kafka_ok out (consumer_settings cfg) then Inl KafkaRefused
               else if \<not> subscribe_ok out (ac_topic cfg) then Inl (SubscribeFailed (ac_topic cfg))
               else Inr \<lparr>ag_context = bind_consumer consumer (context_new (ac_hll_enabled cfg)),
                      ag_settings = consumer_settings cfg, ag_topic = ac_topic cfg,
                      ag_flush_timer = interval (ac_flush_interval_ms cfg),
                      ag_idle_timer = interval (ac_idle_check_interval_ms cfg)\<rparr>))"

text \<open>The message loop: an error of the consumer is logged and skipped, a panic ends the process.\<close>

datatype StreamItem = Received instant Message | ConsumerError

fun message_loop ::
  "decode_fn \<Rightarrow> trunc_fn \<Rightarrow> bool \<Rightarrow> StreamItem list \<Rightarrow> states \<Rightarrow> states res" where
  "message_loop decode trunc hll_on [] sts = Inr sts"
| "message_loop decode trunc hll_on (ConsumerError # items) sts = message_loop decode trunc hll_on items sts"
| "message_loop decode trunc hll_on (Received now_wall msg # items) sts =
     (case handle_message decode trunc hll_on now_wall msg sts of
        Inl p \<Rightarrow> Inl p
      | Inr (sts', _) \<Rightarrow> message_loop decode trunc hll_on items sts')"

section \<open>The gateway\<close>

definition producer_settings :: "AppConfig \<Rightarrow> (string \<times> string) list" where
  "producer_settings cfg =
     [(''bootstrap.servers'', gc_kafka_brokers cfg),
      (''enable.idempotence'', ''true''),
      (''acks'', ''all''),
      (''linger.ms'', gc_kafka_linger_ms cfg),
      (''batch.size'', gc_kafka_batch_size cfg),
      (''compression.type'', ''lz4'')]"

definition gateway_main :: "env \<Rightarrow> Outside \<Rightarrow> (nat \<Rightarrow> 'ch res) \<Rightarrow> start_error + 'ch GatewayState" where
  "gateway_main env out channel =
     (case gateway_from_env env of
        Inl p \<Rightarrow> Inl (StartPanic p)
      | Inr cfg \<Rightarrow>
          (case install_exporter out (gc_metrics_addr cfg) of
             Some e \<Rightarrow> Inl e
           | None \<Rightarrow>
               if \<not> kafka_ok out (producer_settings cfg) then Inl KafkaRefused
               else (case gateway_start channel cfg of
                       Inl p \<Rightarrow> Inl (StartPanic p)
                     | Inr st \<Rightarrow> (case bind_server out (gc_bind_addr cfg) of Some e \<Rightarrow> Inl e | None \<Rightarrow> Inr st))))"

section \<open>The query API and the wiki source\<close>

definition query_main :: "(string \<Rightarrow> real option) \<Rightarrow> env \<Rightarrow> Outside \<Rightarrow> Database \<Rightarrow> start_error + AppState" where
  "query_main parse_f64 env out db =
     (case query_from_env parse_f64 env of
        Inl p \<Rightarrow> Inl (StartPanic p)
      | Inr cfg \<Rightarrow>
          (case install_exporter out (qc_metrics_addr cfg) of
             Some e \<Rightarrow> Inl e
           | None \<Rightarrow>
               if \<not> database_ok out (qc_database_url cfg) then Inl DatabaseUnreachable
               else (case bind_server out (qc_bind_addr cfg) of Some e \<Rightarrow> Inl e | None \<Rightarrow> Inr (query_start cfg db))))"

definition source_main :: "env \<Rightarrow> Outside \<Rightarrow> start_error + SourceConfig" where
  "source_main env out =
     (case install_exporter out (env_or env ''WIKI_SOURCE_METRICS_ADDR'' ''0.0.0.0:9101'') of
        Some e \<Rightarrow> Inl e
      | None \<Rightarrow> Inr (source_from_env env))"

section \<open>A started aggregator\<close>

lemma aggregator_main_started:
  assumes "aggregator_main env out consumer = Inr ag"
  shows "ag_context ag = \<lparr>rx_states = [], rx_consumer = Some consumer, rx_hll_enabled = (env ''HLL_ENABLED'' = Some ''true'')\<rparr>"
    "(''enable.auto.commit'', ''false'') \<in> set (ag_settings ag)" "(''auto.offset.reset'', ''earliest'') \<in> set (ag_settings ag)"
    "ag_flush_timer ag = interval (env_or_parse parse_u64 env ''FLUSH_INTERVAL_MS'' 1000)"
    "ag_idle_timer ag = interval (env_or_parse parse_u64 env ''IDLE_CHECK_INTERVAL_MS'' 1000)"
  using assms
  by (auto simp: aggregator_main_def aggregator_from_env_def bind_consumer_def context_new_def consumer_settings_def env_flag
      split: sum.splits option.splits if_splits)

text \<open>The callbacks of librdkafka are steps of the worker whose states the context shares.\<close>

lemma pre_rebalance_is_step:
  assumes "rx_states ctx = w_states w"
  shows "worker_step decode trunc hll_on raw w db (w\<lparr>w_states := rx_states (context_pre_rebalance rb ctx)\<rparr>) db"
proof (cases rb)
  case (RevokePartitions ps)
  with assms worker_step.revoke [of decode trunc hll_on raw w db ps] show ?thesis by (simp add: context_pre_rebalance_def)
qed (use assms worker_step.revoke [of decode trunc hll_on raw w db "[]"] in \<open>simp_all add: context_pre_rebalance_def pre_rebalance_def\<close>)

lemma post_rebalance_is_step:
  assumes "rx_states ctx = w_states w" and "rx_hll_enabled ctx = hll_on"
    and "context_post_rebalance alive db rb ctx (w_pos w) = (ctx', pos)"
  shows "worker_step decode trunc hll_on raw w db (w\<lparr>w_states := rx_states ctx', w_pos := pos\<rparr>) db"
proof (cases rb)
  case (AssignPartitions els)
  then show ?thesis using assms
    by (intro worker_step.assign [of "case rx_consumer ctx of None \<Rightarrow> False | Some c \<Rightarrow> alive c" _ _ els])
      (auto simp: context_post_rebalance_def split: prod.splits)
qed (use assms worker_step.assign [of False hll_on db "[]" w "w_states w" "w_pos w" decode trunc raw] in
    \<open>simp_all add: context_post_rebalance_def post_rebalance_def\<close>)

text \<open>The consumer is bound before the topic is subscribed to, so the first assignment already resumes from the
  stored checkpoints.\<close>

lemma started_aggregator_resumes:
  assumes "aggregator_main env out consumer = Inr ag" and "alive consumer"
    and "map_of (partition_progress db) (ae_partition el) = Some pp" and "ae_db_up el" and "ae_seek_ok el"
    and "context_post_rebalance alive db (AssignPartitions [el]) (ag_context ag) pos = (ctx, pos')"
  shows "map_of (rx_states ctx) (ae_partition el) =
      Some (with_hll_enabled (resume_from (ae_now_wall el) (ae_partition el) (pp_committed_offset pp) (pp_flushed_watermark pp))
        (env ''HLL_ENABLED'' = Some ''true''))"
    "pos' (ae_partition el) = pp_committed_offset pp"
  using assms(2-6) aggregator_main_started(1) [OF assms(1)]
  by (auto simp: context_post_rebalance_def post_rebalance_def assign_partition_def load_progress_def map_of_al_put Let_def
      split: prod.splits)

text \<open>With \<open>FLUSH_INTERVAL_MS=0\<close> the service starts, but its flush task dies at once, so that nothing is ever written.\<close>

lemma zero_flush_interval_stops_flushing:
  assumes "env ''FLUSH_INTERVAL_MS'' = Some ''0''" and "aggregator_main env out consumer = Inr ag"
  shows "ag_flush_timer ag = Inl (AssertionFailed ''`period` must be non-zero.'')"
  using aggregator_main_started(4) [OF assms(2)] assms(1)
  by (simp add: env_or_parse_def parse_u64_def digit_value_def interval_def)

lemma message_loop_skips_errors:
  "message_loop decode trunc hll_on (filter (\<lambda>i. i \<noteq> ConsumerError) items) sts = message_loop decode trunc hll_on items sts"
  by (induction decode trunc hll_on items sts rule: message_loop.induct) (auto split: sum.splits)

section \<open>A deployment\<close>

lemma gateway_main_started:
  assumes "gateway_main env out channel = Inr gw"
  shows "channel (env_or_parse parse_u64 env ''INGEST_CHANNEL_CAPACITY'' 10000) = Inr (gs_tx gw)"
    "env ''PSEUDONYM_SALT'' = Some (gs_salt gw)"
    "gs_max_batch_events gw = env_or_parse parse_u64 env ''INGEST_MAX_BATCH_EVENTS'' 5000"
  using assms
  by (auto simp: gateway_main_def gateway_from_env_def gateway_start_def require_env_def
      split: sum.splits option.splits if_splits)

lemma parse_digits_less: "parse_digits acc cs = Some n \<Longrightarrow> acc < 2 ^ 64 \<Longrightarrow> n < 2 ^ 64"
  by (induction acc cs rule: parse_digits.induct) (auto split: option.splits if_splits)

lemma parse_u64_less: "parse_u64 s = Some n \<Longrightarrow> n < 2 ^ 64"
  by (cases s) (auto simp: parse_u64_def simp del: parse_digits.simps dest: parse_digits_less split: if_splits)

lemma query_main_started:
  assumes "query_main parse_f64 env out db = Inr app"
  shows "as_cache app = Map.empty" "as_dp_enabled app \<longleftrightarrow> env ''DP_ENABLED'' = Some ''true''"
    "unat (as_k app) = (case Option.bind (env ''PRIVACY_K'') parse_u64 of None \<Rightarrow> 10 | Some n \<Rightarrow> n)"
proof -
  obtain cfg where cfg: "query_from_env parse_f64 env = Inr cfg" and app: "app = query_start cfg db"
    using assms by (auto simp: query_main_def split: sum.splits option.splits if_splits)
  note f = query_from_env_fields [OF cfg]
  show "as_cache app = Map.empty" "as_dp_enabled app \<longleftrightarrow> env ''DP_ENABLED'' = Some ''true''"
    using f(1) by (simp_all add: app query_start_def)
  have "unat (of_nat n :: u64) = n" if "parse_u64 v = Some n" for v n
    using parse_u64_less [OF that] by (simp add: unat_of_nat take_bit_nat_eq_self)
  then show "unat (as_k app) = (case Option.bind (env ''PRIVACY_K'') parse_u64 of None \<Rightarrow> 10 | Some n \<Rightarrow> n)"
    by (cases "env ''PRIVACY_K''") (auto simp: app query_start_def f(2) env_or_parse_def DEFAULT_K_def split: option.split)
qed

text \<open>What tokio documents for a new channel.\<close>

definition channel_new_spec :: "(nat \<Rightarrow> 'ch res) \<Rightarrow> ('ch \<Rightarrow> QueuedMessage list) \<Rightarrow> ('ch \<Rightarrow> bool) \<Rightarrow> bool" where
  "channel_new_spec channel queue alive \<longleftrightarrow> (\<forall>n tx. channel n = Inr tx \<longrightarrow> queue tx = [] \<and> alive tx)"

text \<open>C3: k-anonymity of a deployment, from environment variables to answers. Start a gateway, a query API
  with noise off and any number of aggregators, each from its environment, and let them run concurrently in
  any interleaving, with failed sends and writes, rebalances and crashes of workers, repeated posts,
  requests whose reads are interrupted, cached answers and evictions, exact queries and sketch
  queries side by side. Every visible row ever returned
  for an exact query counts, for its window and cell, events that clients really posted and that
  passed validation, and behind it stand at least \<open>PRIVACY_K\<close> different real users (ten when the
  variable is unset or not a number): no duplicate, replay or takeover lifts a group over the
  threshold, and no cached sketch estimate is served for an exact count. Of the posts it asks
  \<open>posts_ok\<close>: an event id names one event (which may be posted again), pseudonyms do not collide,
  timestamps are in range, there are fewer than \<open>2 ^ 63\<close> events, and the stored payloads decode.\<close>

theorem deployment_k_anonymous:
  assumes "gateway_main gateway_env out channel = Inr gw" and "query_main parse_f64 query_env out db = Inr app"
    and "aggregator_main aggregator_env out consumer = Inr ag" and "query_env ''DP_ENABLED'' \<noteq> Some ''true''"
    and "duration_trunc_spec trunc" and "channel_new_spec channel queue alive"
    and "channel_spec try_send queue alive (env_or_parse parse_u64 gateway_env ''INGEST_CHANNEL_CAPACITY'' 10000)"
    and "recv_spec recv queue alive"
    and "pipeline lib try_send recv part decode trunc (rx_hll_enabled (ag_context ag)) to_rfc3339 gw app s"
    and "posts_ok decode lib (gs_salt gw) (set (ig_queued (pl_ingest s)))"
    and "q_estimator q = Exact" and "(q, HttpOk r) \<in> set (pl_answers s)" and "Visible f wi n events users \<in> set (resp_cells r)"
    and "wk = (resp_window_start r, \<lparr>ck_level = resp_level r, ck_family = f, ck_wiki = wi, ck_namespace = n\<rparr>)"
  shows "\<exists>S. list_all (\<lambda>e. (\<exists>now. validate e now = Inr ()) \<and> (\<exists>b \<in> posted (pl_ingest s). e \<in> set b)) S \<and>
    unat events = card (hit_set wk (set S)) \<and> unat users = card (ev_user ` hit_set wk (set S)) \<and>
    (case Option.bind (query_env ''PRIVACY_K'') parse_u64 of None \<Rightarrow> 10 | Some k \<Rightarrow> k) \<le> card (ev_user ` hit_set wk (set S))"
proof -
  have "fresh_gateway queue alive gw"
    using gateway_main_started(1) [OF assms(1)] assms(6) by (auto simp: channel_new_spec_def fresh_gateway_def)
  moreover have "\<not> as_dp_enabled app" using query_main_started(2) [OF assms(2)] assms(4) by simp
  ultimately show ?thesis
    using pipeline_visible_rows [OF assms(5,7,8) _ query_main_started(1) [OF assms(2)] _ assms(9-14)]
    unfolding query_main_started(3) [OF assms(2)] by blast
qed

section \<open>A run of the deployment\<close>

definition demo_outside :: Outside where
  "demo_outside = \<lparr>addr_valid = (\<lambda>_. True), exporter_ok = (\<lambda>_. True), database_ok = (\<lambda>_. True), migrations_ok = (\<lambda>_. True),
     kafka_ok = (\<lambda>_. True), subscribe_ok = (\<lambda>_. True), bind_ok = (\<lambda>_. True)\<rparr>"

lemma demo_services:
  "gateway_main [''PSEUDONYM_SALT'' \<mapsto> ''salt-'', ''INGEST_MAX_BATCH_EVENTS'' \<mapsto> ''5'', ''INGEST_CHANNEL_CAPACITY'' \<mapsto> ''2'']
     demo_outside (\<lambda>_. Inr ([], True)) = Inr demo_gateway"
  "query_main (\<lambda>_. None) [''DATABASE_URL'' \<mapsto> ''db'', ''PRIVACY_K'' \<mapsto> ''2''] demo_outside db = Inr (demo_app\<lparr>as_db := db\<rparr>)"
  by (simp_all add: gateway_main_def gateway_from_env_def gateway_start_def query_main_def query_from_env_def query_start_def
      install_exporter_def bind_server_def demo_outside_def require_env_def env_or_def env_or_parse_def parse_u64_def
      digit_value_def demo_gateway_def demo_app_def)

theorem deployment_k_anonymous_witness:
  "\<exists>ag s r S. aggregator_main [''DATABASE_URL'' \<mapsto> ''db''] demo_outside 0 = Inr ag \<and>
     pipeline demo_crypto demo_send demo_recv (\<lambda>_. 0) (demo_unjson demo_stored) floor_trunc (rx_hll_enabled (ag_context ag))
       (\<lambda>_. ''t'') demo_gateway (demo_app\<lparr>as_db := sys_db system_init\<rparr>) s \<and> (demo_query 1, HttpOk r) \<in> set (pl_answers s) \<and>
     Visible ''wikipedia'' ''*'' (- 1) 2 2 \<in> set (resp_cells r) \<and>
     list_all (\<lambda>e. (\<exists>now. validate e now = Inr ()) \<and> (\<exists>b \<in> posted (pl_ingest s). e \<in> set b)) S \<and>
     card (ev_user ` hit_set (0, family_key ''wikipedia'') (set S)) = 2"
proof -
  let ?genv = "[''PSEUDONYM_SALT'' \<mapsto> ''salt-'', ''INGEST_MAX_BATCH_EVENTS'' \<mapsto> ''5'', ''INGEST_CHANNEL_CAPACITY'' \<mapsto> ''2'']"
  let ?qenv = "[''DATABASE_URL'' \<mapsto> ''db'', ''PRIVACY_K'' \<mapsto> ''2'']"
  obtain ag where ag: "aggregator_main [''DATABASE_URL'' \<mapsto> ''db''] demo_outside 0 = Inr ag"
    by (simp add: aggregator_main_def aggregator_from_env_def require_env_def install_exporter_def demo_outside_def)
  have off: "rx_hll_enabled (ag_context ag) = False" using aggregator_main_started(1) [OF ag] by simp
  obtain s r where run: "pipeline demo_crypto demo_send demo_recv (\<lambda>_. 0) (demo_unjson demo_stored) floor_trunc False (\<lambda>_. ''t'')
      demo_gateway (demo_app\<lparr>as_db := sys_db system_init\<rparr>) s"
    and req: "pl_requests s = [demo_query 1]" and ans: "(demo_query 1, HttpOk r) \<in> set (pl_answers s)"
    and r: "r = \<lparr>resp_window_start = 0, resp_level = 1, resp_cells = [Visible ''wikipedia'' ''*'' (- 1) 2 2]\<rparr>"
    and ok: "posts_ok (demo_unjson demo_stored) demo_crypto (gs_salt demo_gateway) (set (ig_queued (pl_ingest s)))"
    by (rule demo_pipeline)
  have cap: "channel_spec demo_send fst snd (env_or_parse parse_u64 ?genv ''INGEST_CHANNEL_CAPACITY'' 10000)"
  proof -
    have "env_or_parse parse_u64 ?genv ''INGEST_CHANNEL_CAPACITY'' 10000 = 2"
      by (simp add: env_or_parse_def parse_u64_def digit_value_def)
    with demo_send_spec show ?thesis by simp
  qed
  have new: "channel_new_spec (\<lambda>_. Inr ([], True)) fst snd" by (simp add: channel_new_spec_def)
  have ex: "q_estimator (demo_query 1) = Exact" by (simp add: demo_query_def)
  have v: "Visible ''wikipedia'' ''*'' (- 1) 2 2 \<in> set (resp_cells r)" by (simp add: r)
  have wk: "(0, family_key ''wikipedia'') =
      (resp_window_start r, \<lparr>ck_level = resp_level r, ck_family = ''wikipedia'', ck_wiki = ''*'', ck_namespace = - 1\<rparr>)"
    by (simp add: r family_key_def key_defs ROLLUP_STR_def ROLLUP_NAMESPACE_def)
  obtain S where S: "list_all (\<lambda>e. (\<exists>now. validate e now = Inr ()) \<and> (\<exists>b \<in> posted (pl_ingest s). e \<in> set b)) S"
    "unat (2 :: u64) = card (ev_user ` hit_set (0, family_key ''wikipedia'') (set S))"
    using deployment_k_anonymous [OF demo_services ag _ floor_trunc_spec new cap demo_recv_spec run [folded off] ok ex ans v wk]
    by auto
  show ?thesis by (rule exI [of _ ag], rule exI [of _ s], rule exI [of _ r], rule exI [of _ S])
      (use ag run off ans v S in simp)
qed

end
