(* ===== verification/LoadSend.thy ===== *)
theory LoadSend
  imports LoadRun Startup "HOL-Library.Monad_Syntax"
begin

text \<open>
  A run of the load generator (\<^verbatim>\<open>crates/loadgen/src/{config,main}.rs\<close>): reading the command line, the open loop that
  spawns one task per batch and never waits for the answers, the latency histogram and the truth
  file. Ticks, answers and the final write interleave, one action per step. Outside the repository,
  and so arguments: which parameters \<open>Zipf::new\<close> takes (\<open>zipf_ok\<close>), which latencies the histogram can
  record (\<open>recordable\<close>) and how floats are parsed. \<open>rand\<close> documents that \<open>gen_bool\<close> panics on a
  probability outside \<open>[0, 1]\<close>.
\<close>

section \<open>The command line\<close>

text \<open>An option that is not given has its default; one that does not parse ends the program (\<open>None\<close>).\<close>

definition cli_arg :: "(string \<Rightarrow> 'a option) \<Rightarrow> (string \<Rightarrow> string option) \<Rightarrow> string \<Rightarrow> 'a \<Rightarrow> 'a option" where
  "cli_arg parse args name dflt = (case args name of None \<Rightarrow> Some dflt | Some v \<Rightarrow> parse v)"

definition parse_word :: "string \<Rightarrow> u64 option" where
  "parse_word s = map_option of_nat (parse_u64 s)"

definition loadgen_from_args ::
  "(string \<Rightarrow> real option) \<Rightarrow> (string \<Rightarrow> string option) \<Rightarrow> env \<Rightarrow> LoadgenConfig option" where
  "loadgen_from_args parse_f64 args env = do {
     url \<leftarrow> cli_arg Some args ''gateway-url'' (env_or env ''GATEWAY_URL'' ''http://localhost:8080/v1/events'');
     events_per_sec \<leftarrow> cli_arg parse_word args ''events-per-sec'' 200;
     duration_secs \<leftarrow> cli_arg parse_word args ''duration-secs'' 60;
     num_users \<leftarrow> cli_arg parse_word args ''num-users'' 5000;
     zipf_exponent \<leftarrow> cli_arg parse_f64 args ''zipf-exponent'' 1.2;
     duplicate_rate \<leftarrow> cli_arg parse_f64 args ''duplicate-rate'' 0.01;
     late_rate \<leftarrow> cli_arg parse_f64 args ''late-rate'' 0.005;
     seed \<leftarrow> cli_arg parse_word args ''seed'' 42;
     batch_size \<leftarrow> cli_arg parse_u64 args ''batch-size'' 100;
     truth_file \<leftarrow> cli_arg Some args ''truth-file'' ''truth.json'';
     Some \<lparr>lc_gateway_url = url, lc_events_per_sec = events_per_sec, lc_duration_secs = duration_secs,
       lc_num_users = num_users, lc_zipf_exponent = zipf_exponent, lc_duplicate_rate = duplicate_rate,
       lc_late_rate = late_rate, lc_seed = seed, lc_batch_size = batch_size, lc_truth_file = truth_file\<rparr>
   }"

section \<open>The run\<close>

record Generator =
  gn_cfg :: LoadgenConfig
  gn_truth :: truth_map

definition generator_new :: "(nat \<Rightarrow> real \<Rightarrow> bool) \<Rightarrow> LoadgenConfig \<Rightarrow> Generator res" where
  "generator_new zipf_ok cfg =
     (if \<not> zipf_ok (unat (lc_num_users cfg)) (lc_zipf_exponent cfg) then Inl (ExpectFailed ''valid zipf params'')
      else if \<not> zipf_ok (length WIKIS) 1 then Inl (ExpectFailed ''valid zipf params'')
      else Inr \<lparr>gn_cfg = cfg, gn_truth = []\<rparr>)"

definition rates_ok :: "LoadgenConfig \<Rightarrow> bool" where
  "rates_ok cfg \<longleftrightarrow> 0 \<le> lc_late_rate cfg \<and> lc_late_rate cfg \<le> 1 \<and> 0 \<le> lc_duplicate_rate cfg \<and> lc_duplicate_rate cfg \<le> 1"

definition generator_batch :: "trunc_fn \<Rightarrow> Draw list \<Rightarrow> Generator \<Rightarrow> (Generator \<times> Event list) res" where
  "generator_batch trunc ds g =
     (if ds \<noteq> [] \<and> \<not> rates_ok (gn_cfg g) then Inl (PanicMessage ''p is outside range [0.0, 1.0]'')
      else map_sum id (\<lambda>(truth, events). (g\<lparr>gn_truth := truth\<rparr>, events)) (next_batch trunc ds (gn_truth g)))"

datatype SendResult = Responded nat | TransportError

datatype LoadEnd = LoadPanic panic | WriteFailed | TruthWritten "TruthCell list"

record Load =
  ld_gen :: Generator
  ld_todo :: "Draw list list"
  ld_inflight :: "Event list multiset"
  ld_sent :: "(Event list \<times> SendResult) list"
  ld_hist :: "nat list"
  ld_end :: "LoadEnd option"

text \<open>\<open>ld_todo\<close> holds what the random generator and the clock yield for the batches still to come, \<open>ld_inflight\<close> the
  bodies of the spawned sends, \<open>ld_sent\<close> those that ended and how.\<close>

definition load_start :: "LoadgenConfig \<Rightarrow> Generator \<Rightarrow> (nat \<Rightarrow> nat \<Rightarrow> Draw) \<Rightarrow> Load" where
  "load_start cfg g draw = \<lparr>ld_gen = g,
     ld_todo = map (\<lambda>i. map (draw i) [0..<lc_batch_size cfg]) [0..<batch_count cfg],
     ld_inflight = {#}, ld_sent = [], ld_hist = [], ld_end = None\<rparr>"

inductive load_run :: "(nat \<Rightarrow> real \<Rightarrow> bool) \<Rightarrow> (nat \<Rightarrow> bool) \<Rightarrow> trunc_fn \<Rightarrow> LoadgenConfig \<Rightarrow> (nat \<Rightarrow> nat \<Rightarrow> Draw) \<Rightarrow> Load \<Rightarrow> bool"
  for zipf_ok recordable trunc cfg draw where
  start: "batch_period cfg = Inr period \<Longrightarrow> generator_new zipf_ok cfg = Inr g \<Longrightarrow>
    load_run zipf_ok recordable trunc cfg draw (load_start cfg g draw)"
| tick: "load_run zipf_ok recordable trunc cfg draw s \<Longrightarrow> ld_end s = None \<Longrightarrow> ld_todo s = ds # dss \<Longrightarrow>
    generator_batch trunc ds (ld_gen s) = Inr (g, events) \<Longrightarrow>
    load_run zipf_ok recordable trunc cfg draw
      (s\<lparr>ld_gen := g, ld_todo := dss, ld_inflight := add_mset events (ld_inflight s)\<rparr>)"
| panicked: "load_run zipf_ok recordable trunc cfg draw s \<Longrightarrow> ld_end s = None \<Longrightarrow> ld_todo s = ds # dss \<Longrightarrow>
    generator_batch trunc ds (ld_gen s) = Inl p \<Longrightarrow>
    load_run zipf_ok recordable trunc cfg draw (s\<lparr>ld_inflight := {#}, ld_end := Some (LoadPanic p)\<rparr>)"
| ended: "load_run zipf_ok recordable trunc cfg draw s \<Longrightarrow> ld_end s = None \<Longrightarrow> events \<in># ld_inflight s \<Longrightarrow>
    load_run zipf_ok recordable trunc cfg draw
      (s\<lparr>ld_inflight := ld_inflight s - {#events#}, ld_sent := ld_sent s @ [(events, result)],
         ld_hist := ld_hist s @ (if recordable elapsed_us then [elapsed_us] else [])\<rparr>)"
| joined: "load_run zipf_ok recordable trunc cfg draw s \<Longrightarrow> ld_end s = None \<Longrightarrow> ld_todo s = [] \<Longrightarrow> ld_inflight s = {#} \<Longrightarrow>
    load_run zipf_ok recordable trunc cfg draw
      (s\<lparr>ld_end := Some (if file_ok then TruthWritten (into_truth (gn_truth (ld_gen s))) else WriteFailed)\<rparr>)"

text \<open>The defaults are settings a run works with; a rate of zero events is accepted by the parser and panics.\<close>

lemma default_settings_legal:
  assumes "loadgen_from_args parse_f64 (\<lambda>_. None) env = Some cfg"
  shows "0 < lc_batch_size cfg \<and> 0 < lc_events_per_sec cfg \<and> rates_ok cfg \<and>
    unat (lc_events_per_sec cfg) * unat (lc_duration_secs cfg) = 12000 \<and> batch_count cfg = 120"
  using assms
  by (auto simp: loadgen_from_args_def cli_arg_def rates_ok_def batch_count_def total_events_def unat_f64_as_u64)

lemma zero_rate_panics:
  assumes "loadgen_from_args parse_f64 (\<lambda>a. if a = ''events-per-sec'' then Some ''0'' else None) env = Some cfg"
  shows "\<exists>p. batch_period cfg = Inl p"
proof -
  have "lc_events_per_sec cfg = 0"
    using assms by (auto simp: loadgen_from_args_def cli_arg_def parse_word_def parse_u64_def digit_value_def)
  then show ?thesis by (simp add: batch_period_def)
qed

section \<open>What a run writes\<close>

lemma generator_batch_Inr:
  "generator_batch trunc ds g = Inr (g', events) \<Longrightarrow>
     next_batch trunc ds (gn_truth g) = Inr (gn_truth g', events) \<and> gn_cfg g' = gn_cfg g"
  by (cases "next_batch trunc ds (gn_truth g)") (auto simp: generator_batch_def split: if_splits)

lemma generate_batches_snoc:
  "generate_batches trunc dss truth = Inr (truth', outs) \<Longrightarrow> next_batch trunc ds truth' = Inr (truth'', out) \<Longrightarrow>
     generate_batches trunc (dss @ [ds]) truth = Inr (truth'', outs @ [out])"
  by (induction dss arbitrary: truth truth' outs) (auto split: sum.splits prod.splits)

lemma generate_batches_snoc_Inl:
  "generate_batches trunc dss truth = Inr (truth', outs) \<Longrightarrow> next_batch trunc ds truth' = Inl p \<Longrightarrow>
     generate_batches trunc (dss @ [ds]) truth = Inl p"
  by (induction dss arbitrary: truth truth' outs) (auto split: sum.splits prod.splits)

definition planned_draws :: "LoadgenConfig \<Rightarrow> (nat \<Rightarrow> nat \<Rightarrow> Draw) \<Rightarrow> Draw list list" where
  "planned_draws cfg draw = map (\<lambda>i. map (draw i) [0..<lc_batch_size cfg]) [0..<batch_count cfg]"

text \<open>Whatever the answers: the generator is where the batches taken so far have brought it, and each of them is
  in flight or has ended.\<close>

definition load_inv :: "trunc_fn \<Rightarrow> LoadgenConfig \<Rightarrow> (nat \<Rightarrow> nat \<Rightarrow> Draw) \<Rightarrow> Load \<Rightarrow> bool" where
  "load_inv trunc cfg draw s \<longleftrightarrow>
     (\<exists>taken outs. taken @ ld_todo s = planned_draws cfg draw \<and>
        generate_batches trunc taken [] = Inr (gn_truth (ld_gen s), outs) \<and>
        mset outs = ld_inflight s + mset (map fst (ld_sent s)) \<and> length (ld_hist s) \<le> length (ld_sent s) \<and>
        (\<forall>cells. ld_end s = Some (TruthWritten cells) \<longrightarrow>
           ld_todo s = [] \<and> ld_inflight s = {#} \<and> cells = into_truth (gn_truth (ld_gen s))))"

lemma load_invD:
  assumes "load_inv trunc cfg draw s"
  obtains taken outs where "taken @ ld_todo s = planned_draws cfg draw"
    "generate_batches trunc taken [] = Inr (gn_truth (ld_gen s), outs)"
    "mset outs = ld_inflight s + mset (map fst (ld_sent s))" "length (ld_hist s) \<le> length (ld_sent s)"
    "\<And>cells. ld_end s = Some (TruthWritten cells) \<Longrightarrow>
       ld_todo s = [] \<and> ld_inflight s = {#} \<and> cells = into_truth (gn_truth (ld_gen s))"
  using assms unfolding load_inv_def by blast

lemma load_invariant:
  assumes "load_run zipf_ok recordable trunc cfg draw s" and "\<And>p. ld_end s \<noteq> Some (LoadPanic p)"
  shows "load_inv trunc cfg draw s \<and> gn_cfg (ld_gen s) = cfg"
  using assms
proof (induction rule: load_run.induct)
  case (start period g)
  then show ?case
    by (auto simp: load_inv_def load_start_def planned_draws_def generator_new_def split: if_splits)
next
  case (tick s ds dss g events)
  then have inv: "load_inv trunc cfg draw s" "gn_cfg (ld_gen s) = cfg" by simp_all
  from inv(1) obtain taken outs where i: "taken @ ld_todo s = planned_draws cfg draw"
    "generate_batches trunc taken [] = Inr (gn_truth (ld_gen s), outs)"
    "mset outs = ld_inflight s + mset (map fst (ld_sent s))" "length (ld_hist s) \<le> length (ld_sent s)" by (rule load_invD)
  note b = generator_batch_Inr [OF tick.hyps(4)]
  have "generate_batches trunc (taken @ [ds]) [] = Inr (gn_truth g, outs @ [events])"
    by (rule generate_batches_snoc [OF i(2)]) (use b in simp)
  then show ?case using i(1,3,4) tick.hyps(2,3) b inv(2)
    by (auto simp: load_inv_def intro!: exI [of _ "taken @ [ds]"] exI [of _ "outs @ [events]"])
next
  case (ended s events result elapsed_us)
  then have "load_inv trunc cfg draw s" "gn_cfg (ld_gen s) = cfg" by simp_all
  with ended.hyps(2,3) show ?case by (auto simp: load_inv_def elim!: load_invD)
next
  case (joined s file_ok)
  then have "load_inv trunc cfg draw s" "gn_cfg (ld_gen s) = cfg" by simp_all
  with joined.hyps(2-4) show ?case by (auto simp: load_inv_def split: if_splits)
next
  case (panicked s ds dss p)
  from panicked.prems [of p] show ?case by simp
qed

lemma load_never_panics:
  assumes "load_run zipf_ok recordable trunc cfg draw s" and "rates_ok cfg" and "duration_trunc_spec trunc"
    and "\<forall>i j. draw_ok (draw i j)"
  shows "ld_end s \<noteq> Some (LoadPanic p)"
  using assms(1)
proof (cases rule: load_run.cases)
  case (panicked s0 ds dss p')
  have inv: "load_inv trunc cfg draw s0" "gn_cfg (ld_gen s0) = cfg"
    using load_invariant [OF panicked(2)] panicked(3) by simp_all
  from inv(1) obtain taken outs where i: "taken @ ds # dss = planned_draws cfg draw"
    "generate_batches trunc taken [] = Inr (gn_truth (ld_gen s0), outs)"
    unfolding panicked(4) [symmetric] by (rule load_invD)
  have "next_batch trunc ds (gn_truth (ld_gen s0)) = Inl p'"
    using panicked(5) assms(2) inv(2)
    by (cases "next_batch trunc ds (gn_truth (ld_gen s0))") (auto simp: generator_batch_def)
  then have "generate_batches trunc (taken @ [ds]) [] = Inl p'" by (rule generate_batches_snoc_Inl [OF i(2)])
  moreover have "set (taken @ [ds]) \<subseteq> set (planned_draws cfg draw)" unfolding i(1) [symmetric] by auto
  then have "list_all draw_ok (concat (taken @ [ds]))"
    using assms(4) unfolding list_all_iff by (fastforce simp: planned_draws_def)
  then have "\<exists>truth outs. generate_batches trunc (taken @ [ds]) [] = Inr (truth, outs)"
    by (rule generate_batches_truth [OF assms(3)]) blast
  ultimately show ?thesis by simp
qed (auto simp: load_start_def)

text \<open>C25: the open loop. Let the load generator run with any settings the code accepts, with any mixture of
  answers, refusals and lost connections, in any order of completion. If the rate, the batch size and
  the probabilities are legal it never panics; and a run that wrote its truth file has sent every
  planned batch exactly once, at least the configured number of events and less than one batch more,
  and the file counts every one of them, whether or not its batch was accepted; at most one latency was
  recorded per batch.\<close>

theorem open_loop_writes_planned_truth:
  assumes "load_run zipf_ok recordable trunc cfg draw s"
    and "0 < lc_batch_size cfg" and "0 < lc_events_per_sec cfg" and "rates_ok cfg"
    and "unat (lc_events_per_sec cfg) * unat (lc_duration_secs cfg) < 2 ^ 64"
    and "unat (lc_events_per_sec cfg) \<le> lc_batch_size cfg * 10 ^ 9" and "lc_batch_size cfg < 2 ^ 64"
    and "duration_trunc_spec trunc" and "\<forall>i j. draw_ok (draw i j)"
  shows "(\<forall>p. ld_end s \<noteq> Some (LoadPanic p)) \<and>
    (\<forall>cells. ld_end s = Some (TruthWritten cells) \<longrightarrow>
      (\<exists>truth es. cells = into_truth truth \<and> truth_of truth es \<and>
        set es = (\<Union>b \<in> set (map fst (ld_sent s)). set b) \<and> length (ld_sent s) = batch_count cfg \<and>
        unat (lc_events_per_sec cfg) * unat (lc_duration_secs cfg) \<le> length es \<and>
        length es < unat (lc_events_per_sec cfg) * unat (lc_duration_secs cfg) + lc_batch_size cfg)) \<and>
    length (ld_hist s) \<le> length (ld_sent s)"
proof (intro conjI allI impI)
  show np: "ld_end s \<noteq> Some (LoadPanic p)" for p by (rule load_never_panics [OF assms(1,4,8,9)])
  have inv: "load_inv trunc cfg draw s" using load_invariant [OF assms(1) np] ..
  then show "length (ld_hist s) \<le> length (ld_sent s)" by (rule load_invD)
  fix cells assume e: "ld_end s = Some (TruthWritten cells)"
  from inv obtain taken outs where i: "taken @ ld_todo s = planned_draws cfg draw"
    "generate_batches trunc taken [] = Inr (gn_truth (ld_gen s), outs)"
    "mset outs = ld_inflight s + mset (map fst (ld_sent s))" "length (ld_hist s) \<le> length (ld_sent s)"
    "\<And>cells. ld_end s = Some (TruthWritten cells) \<Longrightarrow>
       ld_todo s = [] \<and> ld_inflight s = {#} \<and> cells = into_truth (gn_truth (ld_gen s))" by (rule load_invD) blast
  from i(5) [OF e] i(1-3) have g: "generate_batches trunc (planned_draws cfg draw) [] = Inr (gn_truth (ld_gen s), outs)"
    and m: "mset outs = mset (map fst (ld_sent s))" and c: "cells = into_truth (gn_truth (ld_gen s))" by auto
  from loadgen_plan [OF assms(2,3,5-9)] obtain truth outs' es
    where p: "loadgen_main trunc cfg draw = Inr (into_truth truth, outs')" "truth_of truth es" "set es = set (concat outs')"
      "unat (lc_events_per_sec cfg) * unat (lc_duration_secs cfg) \<le> length es"
      "length es < unat (lc_events_per_sec cfg) * unat (lc_duration_secs cfg) + lc_batch_size cfg" by blast
  have "into_truth truth = cells" "outs' = outs"
    using p(1) g by (auto simp: loadgen_main_def planned_draws_def c split: sum.splits)
  moreover have "set outs = set (map fst (ld_sent s))" using arg_cong [OF m, of set_mset] by simp
  moreover have "length (ld_sent s) = length outs" using arg_cong [OF m, of size] by simp
  moreover have "length outs = batch_count cfg"
    using list_all2_lengthD [OF generate_batches_all2 [OF g]] by (simp add: planned_draws_def)
  ultimately show "\<exists>truth es. cells = into_truth truth \<and> truth_of truth es \<and>
        set es = (\<Union>b \<in> set (map fst (ld_sent s)). set b) \<and> length (ld_sent s) = batch_count cfg \<and>
        unat (lc_events_per_sec cfg) * unat (lc_duration_secs cfg) \<le> length es \<and>
        length es < unat (lc_events_per_sec cfg) * unat (lc_duration_secs cfg) + lc_batch_size cfg"
    using p(2-5) by (intro exI [of _ truth] exI [of _ es]) simp
qed

text \<open>A run can always be brought to its end, for instance with every batch refused; the truth file is no different.\<close>

lemma load_completes:
  assumes "load_run zipf_ok recordable trunc cfg draw s" and "ld_end s = None" and "ld_inflight s = {#}"
    and "list_all (\<lambda>a. snd a = result) (ld_sent s)"
    and "rates_ok cfg" and "duration_trunc_spec trunc" and "\<forall>i j. draw_ok (draw i j)"
  shows "\<exists>s' cells. load_run zipf_ok recordable trunc cfg draw s' \<and> ld_end s' = Some (TruthWritten cells) \<and>
    list_all (\<lambda>a. snd a = result) (ld_sent s')"
  using assms(1-4)
proof (induction "ld_todo s" arbitrary: s)
  case Nil
  let ?s = "s\<lparr>ld_end := Some (TruthWritten (into_truth (gn_truth (ld_gen s))))\<rparr>"
  have "load_run zipf_ok recordable trunc cfg draw ?s"
    using load_run.joined [OF Nil.prems(1,2) _ Nil.prems(3), of True] Nil.hyps by simp
  with Nil.prems(4) show ?case by (intro exI [of _ ?s]) simp
next
  case (Cons ds dss)
  obtain g events where b: "generator_batch trunc ds (ld_gen s) = Inr (g, events)"
  proof (cases "generator_batch trunc ds (ld_gen s)")
    case (Inl p)
    from load_never_panics [OF load_run.panicked [OF Cons.prems(1,2) Cons.hyps(2) [symmetric] Inl] assms(5-7), of p]
    show thesis by simp
  qed (use that in auto)
  let ?s1 = "s\<lparr>ld_gen := g, ld_todo := dss, ld_inflight := add_mset events (ld_inflight s)\<rparr>"
  have run1: "load_run zipf_ok recordable trunc cfg draw ?s1"
    by (rule load_run.tick [OF Cons.prems(1,2) Cons.hyps(2) [symmetric] b])
  have i1: "ld_end ?s1 = None" "events \<in># ld_inflight ?s1" using Cons.prems(2) by simp_all
  from Cons.hyps(1) [OF _ load_run.ended [OF run1 i1, where result = result and elapsed_us = 1]] Cons.prems(2-4)
  show ?case by simp
qed

definition demo_load :: LoadgenConfig where
  "demo_load = \<lparr>lc_gateway_url = ''http://localhost:8080/v1/events'', lc_events_per_sec = 5, lc_duration_secs = 3,
     lc_num_users = 10, lc_zipf_exponent = 1, lc_duplicate_rate = 0, lc_late_rate = 0, lc_seed = 42,
     lc_batch_size = 4, lc_truth_file = ''truth.json''\<rparr>"

definition plain_draw :: "nat \<Rightarrow> nat \<Rightarrow> Draw" where
  "plain_draw i j = \<lparr>d_user_rank = j, d_wiki = 1, d_late = False, d_backdate = 1, d_now = seconds 6000,
     d_namespace = 0, d_kind = 0, d_uuid = of_nat (4 * i + j), d_dup = False\<rparr>"

theorem open_loop_writes_planned_truth_witness:
  "\<exists>s truth es. load_run (\<lambda>_ _. True) (\<lambda>us. us \<le> 60000000) floor_trunc demo_load plain_draw s \<and>
     list_all (\<lambda>a. snd a = Responded 503) (ld_sent s) \<and> ld_end s = Some (TruthWritten (into_truth truth)) \<and>
     truth_of truth es \<and> 15 \<le> length es \<and> length es < 19"
proof -
  have c: "0 < lc_batch_size demo_load" "0 < lc_events_per_sec demo_load" "rates_ok demo_load"
    "unat (lc_events_per_sec demo_load) * unat (lc_duration_secs demo_load) < 2 ^ 64"
    "unat (lc_events_per_sec demo_load) \<le> lc_batch_size demo_load * 10 ^ 9" "lc_batch_size demo_load < 2 ^ 64"
    by (simp_all add: demo_load_def rates_ok_def)
  have d: "\<forall>i j. draw_ok (plain_draw i j)"
    by (simp add: draw_ok_def gen_one_def plain_draw_def WIKIS_def in_i64_def seconds_def)
  let ?run = "load_run (\<lambda>_ _. True) (\<lambda>us. us \<le> 60000000) floor_trunc demo_load plain_draw"
  have p: "batch_period demo_load = Inr (4 / 5)" by (simp add: batch_period_def demo_load_def Let_def)
  have g: "generator_new (\<lambda>_ _. True) demo_load = Inr \<lparr>gn_cfg = demo_load, gn_truth = []\<rparr>" by (simp add: generator_new_def)
  let ?s0 = "load_start demo_load \<lparr>gn_cfg = demo_load, gn_truth = []\<rparr> plain_draw"
  have run: "?run ?s0" by (rule load_run.start [OF p g])
  have s0: "ld_end ?s0 = None" "ld_inflight ?s0 = {#}" "list_all (\<lambda>a. snd a = Responded 503) (ld_sent ?s0)"
    by (simp_all add: load_start_def)
  from load_completes [OF run s0 c(3) floor_trunc_spec d] obtain s cells where s: "?run s"
    "ld_end s = Some (TruthWritten cells)" "list_all (\<lambda>a. snd a = Responded 503) (ld_sent s)" by blast
  from open_loop_writes_planned_truth [OF s(1) c floor_trunc_spec d] s(2) obtain truth es
    where "cells = into_truth truth" "truth_of truth es" "15 \<le> length es" "length es < 19"
    by (fastforce simp: demo_load_def)
  with s show ?thesis by blast
qed

end
