(* ===== verification/ReconcileRun.thy ===== *)
theory ReconcileRun
  imports LoadSend
begin

text \<open>
  A run of \<^verbatim>\<open>crates/reconcile/src/main.rs\<close> around the comparison of \<open>Reconcile\<close>: the command line, the truth file and
  the exit. \<open>files\<close> holds what can be read, \<open>parse_truth\<close> is the JSON decoder, \<open>connects\<close> says for which addresses
  Postgres answers.
\<close>

record Args =
  ra_database_url :: string
  ra_truth_file :: string

definition args_parse :: "(string \<Rightarrow> string option) \<Rightarrow> env \<Rightarrow> Args option" where
  "args_parse args env = do {
     database_url \<leftarrow> (case args ''database-url'' of None \<Rightarrow> env ''DATABASE_URL'' | Some v \<Rightarrow> Some v);
     truth_file \<leftarrow> cli_arg Some args ''truth-file'' ''truth.json'';
     Some \<lparr>ra_database_url = database_url, ra_truth_file = truth_file\<rparr>
   }"

datatype reconcile_error =
    UsageError
  | TruthUnreadable
  | TruthMalformed
  | ConnectFailed
  | ReadFailed query_error
  | DriftDetected nat nat nat

definition reconcile_main ::
  "(string \<Rightarrow> string option) \<Rightarrow> env \<Rightarrow> (string \<Rightarrow> 'raw option) \<Rightarrow> ('raw \<Rightarrow> TruthCell list option) \<Rightarrow>
     (string \<Rightarrow> bool) \<Rightarrow> bool \<Rightarrow> Database \<Rightarrow> reconcile_error + unit" where
  "reconcile_main args env files parse_truth connects db_up db =
     (case args_parse args env of
        None \<Rightarrow> Inl UsageError
      | Some a \<Rightarrow>
          (case files (ra_truth_file a) of
             None \<Rightarrow> Inl TruthUnreadable
           | Some raw \<Rightarrow>
               (case parse_truth raw of
                  None \<Rightarrow> Inl TruthMalformed
                | Some truth \<Rightarrow>
                    if \<not> connects (ra_database_url a) then Inl ConnectFailed
                    else (case reconcile db_up truth db of
                            Inl e \<Rightarrow> Inl (ReadFailed e)
                          | Inr Pass \<Rightarrow> Inr ()
                          | Inr (Fail mi ms un) \<Rightarrow> Inl (DriftDetected mi ms un)))))"

text \<open>A successful exit after a load run vouches for the run: where the file it wrote is the file that is read,
  the tables were compared with everything its generator counted, and no cell drifted.\<close>

lemma successful_exit_means_no_drift:
  assumes "load_run zipf_ok recordable trunc cfg draw s" and "ld_end s = Some (TruthWritten file)"
    and "files (lc_truth_file cfg) = Some (render file)" and "parse_truth (render file) = Some file"
    and "reconcile_main args env files parse_truth connects db_up db = Inr ()"
    and "args ''truth-file'' = Some (lc_truth_file cfg)"
  shows "reconcile db_up (into_truth (gn_truth (ld_gen s))) db = Inr Pass"
proof -
  have "load_inv trunc cfg draw s" using load_invariant [OF assms(1)] assms(2) by simp
  then have "file = into_truth (gn_truth (ld_gen s))" using assms(2) by (elim load_invD) blast
  then show ?thesis using assms(3-6)
    by (auto simp: reconcile_main_def args_parse_def cli_arg_def split: option.splits sum.splits verdict.splits if_splits bind_splits)
qed

text \<open>A drift is reported with its three counters, never as success.\<close>

lemma reconcile_main_drift:
  assumes "args_parse args env = Some a" and "files (ra_truth_file a) = Some raw" and "parse_truth raw = Some truth"
    and "connects (ra_database_url a)" and "reconcile db_up truth db = Inr (Fail mi ms un)"
  shows "reconcile_main args env files parse_truth connects db_up db = Inl (DriftDetected mi ms un)"
  using assms by (simp add: reconcile_main_def)

end
