(* ===== verification/Liveness.thy ===== *)
theory Liveness
  imports EndToEnd
begin

text \<open>
  What happens when no message arrives any more: the idle loop and the flush loop of
  \<^verbatim>\<open>crates/aggregator/src/flush.rs\<close> under a clock that keeps advancing, while everything else in the
  system goes on. Every open window reaches a write; the watermark of a partition without open windows
  never does.
\<close>

definition nothing_open :: "states \<Rightarrow> bool" where
  "nothing_open sts \<longleftrightarrow> list_all (\<lambda>(p, st). open_windows st = []) sts"

text \<open>A run of the whole system, one critical section of one worker after the other, in which worker \<open>j\<close>
  gets no message, no rebalance and does not crash, but keeps ticking, draining and writing: its clocks
  pass every bound, and its flush loop starts again and again. The other workers do what they
  like, and any write may fail.\<close>

definition quiet_cmd :: "Cmd \<Rightarrow> bool" where
  "quiet_cmd c = (case c of Idle _ _ \<Rightarrow> True | Drain \<Rightarrow> True | WriteOne _ \<Rightarrow> True | _ \<Rightarrow> False)"

definition system_step ::
  "decode_fn \<Rightarrow> trunc_fn \<Rightarrow> bool \<Rightarrow> (i32 \<Rightarrow> rawrec list) \<Rightarrow> nat \<times> Cmd \<Rightarrow> System \<Rightarrow> System \<Rightarrow> bool" where
  "system_step decode trunc hll_on raw ic s s' \<longleftrightarrow>
     (\<exists>w db. exec_cmd decode trunc hll_on raw (snd ic) (workers s (fst ic), sys_db s) = Some (w, db) \<and>
        s' = \<lparr>workers = (workers s)(fst ic := w), sys_db = db\<rparr>)"

definition quiet_run ::
  "decode_fn \<Rightarrow> trunc_fn \<Rightarrow> bool \<Rightarrow> (i32 \<Rightarrow> rawrec list) \<Rightarrow> nat \<Rightarrow> (nat \<Rightarrow> nat \<times> Cmd) \<Rightarrow> (nat \<Rightarrow> System) \<Rightarrow> bool" where
  "quiet_run decode trunc hll_on raw j act run \<longleftrightarrow>
     (\<forall>n. system_step decode trunc hll_on raw (act n) (run n) (run (Suc n))) \<and>
     (\<forall>n c. act n = (j, c) \<longrightarrow> quiet_cmd c) \<and>
     (\<forall>B. \<exists>n wall utc. act n = (j, Idle wall utc) \<and> B < wall \<and> B < utc) \<and>
     (\<forall>N. \<exists>n \<ge> N. act n = (j, Drain))"

text \<open>The write of a batch that holds a window.\<close>

definition writes_window :: "nat \<Rightarrow> nat \<times> Cmd \<Rightarrow> System \<Rightarrow> i32 \<Rightarrow> datetime \<Rightarrow> Window \<Rightarrow> bool \<Rightarrow> bool" where
  "writes_window j ic s p w win db_up \<longleftrightarrow>
     (\<exists>b bs. ic = (j, WriteOne db_up) \<and> w_pending (workers s j) = b # bs \<and> b_partition b = p \<and>
        map_of (b_closed b) w = Some win)"

text \<open>What time does to the state of a quiet partition.\<close>

definition older :: "PartitionState \<Rightarrow> PartitionState \<Rightarrow> bool" where
  "older st st' \<longleftrightarrow> last_event_wall st' = last_event_wall st \<and> max_event_ts st \<le> max_event_ts st' \<and>
     set (open_windows st') \<subseteq> set (open_windows st)"

lemma older_refl [simp]: "older st st"
  by (simp add: older_def)

lemma older_trans: "older a b \<Longrightarrow> older b c \<Longrightarrow> older a c"
  by (auto simp: older_def)

lemma older_watermark: "older st st' \<Longrightarrow> watermark st \<le> watermark st'"
  by (simp add: older_def watermark_def)

lemma older_tick: "older st (tick_idle st a b)"
  by (simp add: older_def tick_idle_def)

lemma older_take: "ps_ok st \<Longrightarrow> older st (snd (take_closed_windows st))"
  by (auto simp: ps_ok_def take_closed_windows_eq older_def)

lemma drain_nothing_open: "nothing_open sts \<Longrightarrow> fst (drain sts) = [] \<and> nothing_open (snd (drain sts))"
  by (induction sts) (auto simp: nothing_open_def take_closed_windows_def Let_def split: prod.splits)

lemma nothing_open_idle: "nothing_open sts \<Longrightarrow> nothing_open (idle_iteration now_wall now_utc sts)"
  by (induction sts) (auto simp: nothing_open_def idle_iteration_def)

section \<open>One step of a quiet worker\<close>

lemma exec_idleD:
  "exec_cmd decode trunc hll_on raw (Idle a b) (w, db) = Some (w', db') \<Longrightarrow>
     w_states w' = idle_iteration a b (w_states w) \<and> w_pending w' = w_pending w"
  by auto

lemma exec_drainD:
  "exec_cmd decode trunc hll_on raw Drain (w, db) = Some (w', db') \<Longrightarrow>
     w_pending w = [] \<and> drain (w_states w) = (w_pending w', w_states w')"
  by (auto split: if_splits prod.splits)

lemma exec_writeD:
  "exec_cmd decode trunc hll_on raw (WriteOne up) (w, db) = Some (w', db') \<Longrightarrow>
     \<exists>b bs. w_pending w = b # bs \<and> w_pending w' = bs \<and> w_states w' = w_states w \<and> db' = write_batch up b db"
  by (auto split: list.splits)

lemma worker_facts:
  assumes "reachable decode trunc hll_on raw s" and "duration_trunc_spec trunc" and "\<forall>p. raw_ok decode (raw p)"
  shows "al_inv (w_states (workers s i))" "map_of (w_states (workers s i)) p = Some st \<Longrightarrow> ps_ok st"
    "b \<in> set (w_pending (workers s i)) \<Longrightarrow> closed_ok (b_closed b)"
proof -
  have inv: "worker_inv hll_on (\<lambda>p. decoded_log decode (raw p)) (workers s i)"
    using reachable_inv [OF assms(1,2)] assms(3) by blast
  then show "al_inv (w_states (workers s i))" by (simp add: worker_inv_def)
  from inv show "map_of (w_states (workers s i)) p = Some st \<Longrightarrow> ps_ok st" by (simp add: worker_inv_def state_inv_def)
  from inv show "b \<in> set (w_pending (workers s i)) \<Longrightarrow> closed_ok (b_closed b)"
    by (auto simp: worker_inv_def batch_inv_def list_all_iff)
qed

lemma quiet_step_older:
  assumes "exec_cmd decode trunc hll_on raw c (w, db) = Some (w', db')" and "quiet_cmd c"
    and "\<And>p st. map_of (w_states w) p = Some st \<Longrightarrow> ps_ok st"
  shows "rel_option older (map_of (w_states w) p) (map_of (w_states w') p)"
proof (cases c)
  case (Idle a b)
  with assms(1) have "w_states w' = idle_iteration a b (w_states w)" using exec_idleD by blast
  then show ?thesis by (cases "map_of (w_states w) p") (simp_all add: map_of_idle_iteration older_tick)
next
  case Drain
  from exec_drainD [OF assms(1) [unfolded Drain]] have "w_states w' = snd (drain (w_states w))" by simp
  then show ?thesis using assms(3) by (cases "map_of (w_states w) p") (auto simp: drain_taken older_take)
next
  case (WriteOne up)
  with assms(1) have "w_states w' = w_states w" using exec_writeD by blast
  then show ?thesis by (cases "map_of (w_states w) p") simp_all
qed (use assms(2) in \<open>simp_all add: quiet_cmd_def\<close>)

text \<open>A window is open, waits in a batch, or is just being written.\<close>

definition window_held :: "Worker \<Rightarrow> i32 \<Rightarrow> datetime \<Rightarrow> Window \<Rightarrow> bool" where
  "window_held wk p w win \<longleftrightarrow>
     (\<exists>st. map_of (w_states wk) p = Some st \<and> map_of (open_windows st) w = Some win) \<or>
     (\<exists>b \<in> set (w_pending wk). b_partition b = p \<and> map_of (b_closed b) w = Some win)"

lemma quiet_step_held:
  assumes "exec_cmd decode trunc hll_on raw c (wk, db) = Some (wk', db')" and "quiet_cmd c" and "window_held wk p w win"
    and "al_inv (w_states wk)" and "\<And>p st. map_of (w_states wk) p = Some st \<Longrightarrow> ps_ok st"
  shows "window_held wk' p w win \<or>
    (\<exists>up b bs. c = WriteOne up \<and> w_pending wk = b # bs \<and> b_partition b = p \<and> map_of (b_closed b) w = Some win)"
proof (cases c)
  case (Idle x y)
  then have e: "w_states wk' = idle_iteration x y (w_states wk)" "w_pending wk' = w_pending wk" using assms(1) exec_idleD by blast+
  show ?thesis using assms(3) unfolding window_held_def e by (fastforce simp: map_of_idle_iteration)
next
  case Drain
  then obtain bs sts where e: "w_pending wk = []" "drain (w_states wk) = (bs, sts)" "w_states wk' = sts" "w_pending wk' = bs"
    using assms(1) exec_drainD by blast
  obtain st where st: "map_of (w_states wk) p = Some st" "map_of (open_windows st) w = Some win"
    using assms(3) e(1) by (auto simp: window_held_def)
  have bt: "bt_inv (open_windows st)" using assms(5) [OF st(1)] by (simp add: ps_ok_def)
  note d = bt_inv_distinct [OF bt]
  let ?st = "snd (take_closed_windows st)"
  have st': "map_of sts p = Some ?st" using drain_taken [of "w_states wk" p] by (simp add: e(2) st(1))
  show ?thesis
  proof (cases "window_end w \<le> watermark st")
    case True
    from drain_from(1) [OF assms(4) e(2) st'] st(1) obtain cl where cl: "take_closed_windows st = (cl, ?st)"
      "cl \<noteq> [] \<Longrightarrow> \<exists>b \<in> set bs. b_partition b = p \<and> b_closed b = cl" by auto
    have m: "map_of cl w = Some win"
      using cl(1) st(2) True map_of_filter_distinct [OF d, where P = "\<lambda>s. window_end s \<le> watermark st" and k = w]
      by (simp add: take_closed_windows_eq [OF bt])
    then have "cl \<noteq> []" by auto
    from cl(2) [OF this] m show ?thesis unfolding window_held_def e(3,4) by blast
  next
    case False
    have "map_of (open_windows ?st) w = Some win"
      using st(2) False map_of_filter_distinct [OF d, where P = "\<lambda>s. \<not> window_end s \<le> watermark st" and k = w]
      by (simp add: take_closed_windows_eq [OF bt])
    with st' show ?thesis unfolding window_held_def e(3) by blast
  qed
next
  case (WriteOne up)
  then obtain b bs where e: "w_pending wk = b # bs" "w_states wk' = w_states wk" "w_pending wk' = bs"
    using assms(1) exec_writeD by blast
  with assms(3) WriteOne show ?thesis unfolding window_held_def by auto
qed (use assms(2) in \<open>simp_all add: quiet_cmd_def\<close>)

section \<open>A quiet run\<close>

lemma run_reachable:
  assumes "quiet_run decode trunc hll_on raw j act run" and "reachable decode trunc hll_on raw (run 0)"
  shows "reachable decode trunc hll_on raw (run n)"
proof (induction n)
  case (Suc n)
  from assms(1) obtain w db where "exec_cmd decode trunc hll_on raw (snd (act n)) (workers (run n) (fst (act n)), sys_db (run n)) = Some (w, db)"
    "run (Suc n) = \<lparr>workers = (workers (run n))(fst (act n) := w), sys_db = db\<rparr>"
    unfolding quiet_run_def system_step_def by blast
  with reachable.step [OF Suc.IH exec_cmd_step] show ?case by simp
qed (rule assms(2))

lemma run_step:
  assumes "quiet_run decode trunc hll_on raw j act run"
  shows "workers (run (Suc n)) j = workers (run n) j \<and> fst (act n) \<noteq> j \<or>
    (\<exists>c. act n = (j, c) \<and> quiet_cmd c \<and> exec_cmd decode trunc hll_on raw c (workers (run n) j, sys_db (run n)) =
       Some (workers (run (Suc n)) j, sys_db (run (Suc n))))"
proof -
  obtain i c where a: "act n = (i, c)" by (cases "act n")
  from assms obtain w db where "exec_cmd decode trunc hll_on raw c (workers (run n) i, sys_db (run n)) = Some (w, db)"
    "run (Suc n) = \<lparr>workers = (workers (run n))(i := w), sys_db = db\<rparr>"
    unfolding quiet_run_def system_step_def by (metis a fst_conv snd_conv)
  moreover have "quiet_cmd c" if "i = j" using assms a that unfolding quiet_run_def by blast
  ultimately show ?thesis using a by auto
qed

text \<open>The facts about worker \<open>j\<close> at every moment of a quiet run.\<close>

lemma run_facts:
  assumes "quiet_run decode trunc hll_on raw j act run" and "reachable decode trunc hll_on raw (run 0)"
    and "duration_trunc_spec trunc" and "\<forall>p. raw_ok decode (raw p)"
  shows "al_inv (w_states (workers (run n) j))" "map_of (w_states (workers (run n) j)) p = Some st \<Longrightarrow> ps_ok st"
    "b \<in> set (w_pending (workers (run n) j)) \<Longrightarrow> closed_ok (b_closed b)"
  using worker_facts [OF run_reachable [OF assms(1,2)] assms(3,4)] by blast+

lemma run_older:
  assumes "quiet_run decode trunc hll_on raw j act run" and "reachable decode trunc hll_on raw (run 0)"
    and "duration_trunc_spec trunc" and "\<forall>p. raw_ok decode (raw p)" and "n \<le> m"
  shows "rel_option older (map_of (w_states (workers (run n) j)) p) (map_of (w_states (workers (run m) j)) p)"
  using assms(5)
proof (induction rule: dec_induct)
  case base
  show ?case by (cases "map_of (w_states (workers (run n) j)) p") simp_all
next
  case (step m)
  have "rel_option older (map_of (w_states (workers (run m) j)) p) (map_of (w_states (workers (run (Suc m)) j)) p)"
    using run_step [OF assms(1), of m]
  proof (elim disjE exE conjE)
    assume "workers (run (Suc m)) j = workers (run m) j"
    then show ?thesis by (cases "map_of (w_states (workers (run m) j)) p") simp_all
  next
    fix c assume "quiet_cmd c" "exec_cmd decode trunc hll_on raw c (workers (run m) j, sys_db (run m)) =
       Some (workers (run (Suc m)) j, sys_db (run (Suc m)))"
    from quiet_step_older [OF this(2,1)] run_facts(2) [OF assms(1-4)] show ?thesis by blast
  qed
  with step.IH show ?case by (auto simp: option_rel_Some1 option_rel_Some2 elim!: option.rel_cases intro: older_trans)
qed

lemma run_held:
  assumes "quiet_run decode trunc hll_on raw j act run" and "reachable decode trunc hll_on raw (run 0)"
    and "duration_trunc_spec trunc" and "\<forall>p. raw_ok decode (raw p)" and "window_held (workers (run 0) j) p w win"
  shows "window_held (workers (run n) j) p w win \<or> (\<exists>i < n. \<exists>up. writes_window j (act i) (run i) p w win up)"
proof (induction n)
  case (Suc n)
  show ?case
  proof (cases "\<exists>i < n. \<exists>up. writes_window j (act i) (run i) p w win up")
    case True
    then show ?thesis by (meson less_SucI)
  next
    case False
    with Suc.IH have h: "window_held (workers (run n) j) p w win" by blast
    show ?thesis using run_step [OF assms(1), of n]
    proof (elim disjE exE conjE)
      fix c assume c: "act n = (j, c)" "quiet_cmd c" "exec_cmd decode trunc hll_on raw c (workers (run n) j, sys_db (run n)) =
         Some (workers (run (Suc n)) j, sys_db (run (Suc n)))"
      from quiet_step_held [OF c(3,2) h run_facts(1) [OF assms(1-4)]] run_facts(2) [OF assms(1-4)] c(1) show ?thesis
        unfolding writes_window_def by blast
    qed (use h in simp)
  qed
qed (use assms(5) in simp)

text \<open>From some moment on every window still open is closed by the watermark.\<close>

definition all_closed :: "states \<Rightarrow> bool" where
  "all_closed sts \<longleftrightarrow> (\<forall>p st. map_of sts p = Some st \<longrightarrow> (\<forall>sw \<in> set (open_windows st). window_end (fst sw) \<le> watermark st))"

definition waits_until :: "int \<Rightarrow> states \<Rightarrow> bool" where
  "waits_until B sts \<longleftrightarrow> (\<forall>(p, st) \<in> set sts. last_event_wall st + IDLE_PARTITION_TIMEOUT \<le> B \<and>
     (\<forall>sw \<in> set (open_windows st). window_end (fst sw) + ALLOWED_LATENESS \<le> B))"

lemma waiting_bound:
  "\<exists>B. waits_until B sts"
proof -
  let ?X = "\<Union>(p, st) \<in> set sts. insert (last_event_wall st + IDLE_PARTITION_TIMEOUT)
      ((\<lambda>sw. window_end (fst sw) + ALLOWED_LATENESS) ` set (open_windows st))"
  have "finite ?X" by auto
  then have le: "x \<le> Max ?X" if "x \<in> ?X" for x using that by simp
  show ?thesis unfolding waits_until_def
  proof (intro exI [of _ "Max ?X"] ballI, clarify, intro conjI ballI)
    fix p st assume m: "(p, st) \<in> set sts"
    then show "last_event_wall st + IDLE_PARTITION_TIMEOUT \<le> Max ?X" by (intro le) auto
    show "window_end (fst sw) + ALLOWED_LATENESS \<le> Max ?X" if "sw \<in> set (open_windows st)" for sw
      using m that by (intro le) auto
  qed
qed

lemma late_tick_closes:
  assumes "waits_until B sts" and "B < wall" and "B < utc"
    and "\<And>p. rel_option older (map_of sts p) (map_of sts' p)"
  shows "all_closed (idle_iteration wall utc sts')"
  unfolding all_closed_def
proof (intro allI impI ballI)
  fix p st sw
  assume m: "map_of (idle_iteration wall utc sts') p = Some st" and sw: "sw \<in> set (open_windows st)"
  then obtain st1 where st1: "map_of sts' p = Some st1" "st = tick_idle st1 wall utc" by (auto simp: map_of_idle_iteration)
  with assms(4) [of p] obtain st0 where st0: "map_of sts p = Some st0" "older st0 st1" by (auto simp: option_rel_Some2)
  have "sw \<in> set (open_windows st0)" using sw st1(2) st0(2) by (auto simp: older_def)
  moreover have "last_event_wall st1 = last_event_wall st0" using st0(2) by (simp add: older_def)
  ultimately have b: "last_event_wall st1 + IDLE_PARTITION_TIMEOUT \<le> B" "window_end (fst sw) + ALLOWED_LATENESS \<le> B"
    using assms(1) map_of_SomeD [OF st0(1)] by (auto simp: waits_until_def)
  have "utc \<le> max_event_ts st" using b(1) assms(2) by (auto simp: st1(2) tick_idle_def IDLE_PARTITION_TIMEOUT_def seconds_def)
  with b(2) assms(3) show "window_end (fst sw) \<le> watermark st" by (simp add: watermark_def)
qed

lemma all_closed_older:
  assumes "all_closed sts" and "\<And>p. rel_option older (map_of sts p) (map_of sts' p)"
  shows "all_closed sts'"
  unfolding all_closed_def
proof (intro allI impI ballI)
  fix p st' sw assume m: "map_of sts' p = Some st'" and sw: "sw \<in> set (open_windows st')"
  from assms(2) [of p] m obtain st where st: "map_of sts p = Some st" "older st st'" by (auto simp: option_rel_Some2)
  then have "sw \<in> set (open_windows st)" using sw by (auto simp: older_def)
  with assms(1) st(1) have "window_end (fst sw) \<le> watermark st" by (simp add: all_closed_def)
  with older_watermark [OF st(2)] show "window_end (fst sw) \<le> watermark st'" by simp
qed

lemma drain_all_closed:
  assumes "all_closed sts" and "al_inv sts" and "\<And>p st. map_of sts p = Some st \<Longrightarrow> ps_ok st"
  shows "nothing_open (snd (drain sts))"
  unfolding nothing_open_def list_all_iff
proof (clarify)
  fix p st' assume "(p, st') \<in> set (snd (drain sts))"
  then obtain st where m: "(p, st) \<in> set sts" "st' = snd (take_closed_windows st)" by (auto simp: drain_states)
  then have st: "map_of sts p = Some st" using assms(2) by (simp add: al_inv_def)
  then have "bt_inv (open_windows st)" using assms(3) by (auto simp: ps_ok_def)
  with st assms(1) show "open_windows st' = []"
    by (auto simp: m(2) take_closed_windows_eq filter_empty_conv all_closed_def)
qed

lemma nothing_open_older:
  assumes "nothing_open sts" and "al_inv sts'" and "\<And>p. rel_option older (map_of sts p) (map_of sts' p)"
  shows "nothing_open sts'"
  unfolding nothing_open_def list_all_iff
proof (clarify)
  fix p st' assume "(p, st') \<in> set sts'"
  then have "map_of sts' p = Some st'" using assms(2) by (simp add: al_inv_def)
  with assms(3) [of p] obtain st where st: "map_of sts p = Some st" "older st st'" by (auto simp: option_rel_Some2)
  have "open_windows st = []" using assms(1) map_of_SomeD [OF st(1)] by (auto simp: nothing_open_def list_all_iff)
  with st(2) show "open_windows st' = []" by (simp add: older_def)
qed

section \<open>Every open window reaches a write\<close>

text \<open>C13: open windows do not wait for traffic. Take any reachable system and let it run on in any
  interleaving, with failed writes, rebalances and crashes of other workers; only worker \<open>j\<close> gets no
  further message, no rebalance and no crash, while its idle loop and its flush loop keep running and
  its clocks pass every bound. Then from some moment on the worker has no open window left, and each
  window it held has been handed to one of its writes; if that write commits, the table holds right
  after it every cell of the window with the counts the worker had in memory, whatever stood there.\<close>

theorem open_windows_eventually_written:
  assumes "reachable decode trunc hll_on raw (run 0)" and "duration_trunc_spec trunc" and "\<forall>p. raw_ok decode (raw p)"
    and "quiet_run decode trunc hll_on raw j act run"
  shows "\<exists>n. (\<forall>m \<ge> n. nothing_open (w_states (workers (run m) j))) \<and>
    (\<forall>p w win. window_held (workers (run 0) j) p w win \<longrightarrow>
       (\<exists>i < n. \<exists>db_up. writes_window j (act i) (run i) p w win db_up \<and>
          (db_up \<longrightarrow> (\<forall>k a. map_of (cells win) k = Some a \<longrightarrow>
             map_of (agg_cells (sys_db (run (Suc i)))) (w, k, p) = Some (row_of a)))))"
proof -
  note facts = run_facts [OF assms(4,1-3)] and aged = run_older [OF assms(4,1-3)]
  let ?sts = "\<lambda>n. w_states (workers (run n) j)"
  obtain B where B: "waits_until B (?sts 0)" using waiting_bound by blast
  obtain n1 wall utc where n1: "act n1 = (j, Idle wall utc)" "B < wall" "B < utc"
    using assms(4) unfolding quiet_run_def by blast
  have "exec_cmd decode trunc hll_on raw (Idle wall utc) (workers (run n1) j, sys_db (run n1)) =
      Some (workers (run (Suc n1)) j, sys_db (run (Suc n1)))"
    using run_step [OF assms(4), of n1] n1(1) by (metis fst_conv prod.inject)
  note tick = conjunct1 [OF exec_idleD [OF this]]
  have "rel_option older (map_of (?sts 0) p) (map_of (?sts n1) p)" for p by (rule aged) simp
  from late_tick_closes [OF B n1(2,3) this] have c1: "all_closed (?sts (Suc n1))" unfolding tick .
  obtain n2 where n2: "Suc n1 \<le> n2" "act n2 = (j, Drain)" using assms(4) unfolding quiet_run_def by blast
  obtain n3 where n3: "Suc n2 \<le> n3" "act n3 = (j, Drain)" using assms(4) unfolding quiet_run_def by blast
  have "exec_cmd decode trunc hll_on raw Drain (workers (run n2) j, sys_db (run n2)) =
      Some (workers (run (Suc n2)) j, sys_db (run (Suc n2)))"
    using run_step [OF assms(4), of n2] n2(2) by (metis fst_conv prod.inject)
  from exec_drainD [OF this] have "?sts (Suc n2) = snd (drain (?sts n2))" by simp
  with drain_all_closed [OF all_closed_older [OF c1 aged [OF n2(1)]] facts(1)] facts(2)
  have none: "nothing_open (?sts (Suc n2))" by presburger
  have later: "nothing_open (?sts m)" if "Suc n2 \<le> m" for m
    by (rule nothing_open_older [OF none facts(1) aged [OF that]])
  have "exec_cmd decode trunc hll_on raw Drain (workers (run n3) j, sys_db (run n3)) =
      Some (workers (run (Suc n3)) j, sys_db (run (Suc n3)))"
    using run_step [OF assms(4), of n3] n3(2) by (metis fst_conv prod.inject)
  note pend = conjunct1 [OF exec_drainD [OF this]]
  have wr: "\<exists>i < n3. \<exists>db_up. writes_window j (act i) (run i) p w win db_up" if h: "window_held (workers (run 0) j) p w win" for p w win
  proof -
    have "\<not> window_held (workers (run n3) j) p w win"
      using later [OF n3(1)] pend by (auto simp: window_held_def nothing_open_def list_all_iff dest!: map_of_SomeD)
    with run_held [OF assms(4,1-3) h] show ?thesis by blast
  qed
  have row: "map_of (agg_cells (sys_db (run (Suc i)))) (w, k, p) = Some (row_of a)"
    if "writes_window j (act i) (run i) p w win True" "map_of (cells win) k = Some a" for i p w win k a
  proof -
    from that(1) obtain b bs where b: "act i = (j, WriteOne True)" "w_pending (workers (run i) j) = b # bs" "b_partition b = p"
      "map_of (b_closed b) w = Some win" unfolding writes_window_def by blast
    have "exec_cmd decode trunc hll_on raw (WriteOne True) (workers (run i) j, sys_db (run i)) =
        Some (workers (run (Suc i)) j, sys_db (run (Suc i)))"
      using run_step [OF assms(4), of i] b(1) by (metis fst_conv prod.inject)
    from exec_writeD [OF this] have "sys_db (run (Suc i)) = write_batch True b (sys_db (run i))" using b(2) by auto
    moreover have "closed_ok (b_closed b)" using facts(3) [where b = b and n = i] b(2) by simp
    ultimately show ?thesis using b(3,4) that(2) by (simp add: write_batch_lookup)
  qed
  show ?thesis
  proof (rule exI [of _ n3], intro conjI allI impI)
    show "nothing_open (?sts m)" if "n3 \<le> m" for m by (rule later) (use n3(1) that in linarith)
    fix p w win assume "window_held (workers (run 0) j) p w win"
    from wr [OF this] obtain i db_up where i: "i < n3" "writes_window j (act i) (run i) p w win db_up" by blast
    have "db_up \<longrightarrow> (\<forall>k a. map_of (cells win) k = Some a \<longrightarrow>
        map_of (agg_cells (sys_db (run (Suc i)))) (w, k, p) = Some (row_of a))"
    proof (intro impI allI)
      fix k a assume db_up and a: "map_of (cells win) k = Some a"
      with i(2) have "writes_window j (act i) (run i) p w win True" by simp
      from row [OF this a] show "map_of (agg_cells (sys_db (run (Suc i)))) (w, k, p) = Some (row_of a)" .
    qed
    with i show "\<exists>i < n3. \<exists>db_up. writes_window j (act i) (run i) p w win db_up \<and>
        (db_up \<longrightarrow> (\<forall>k a. map_of (cells win) k = Some a \<longrightarrow>
           map_of (agg_cells (sys_db (run (Suc i)))) (w, k, p) = Some (row_of a)))" by blast
  qed
qed

text \<open>Such a run: after one tick, flush and write the worker idles and drains for ever.\<close>

definition demo_act :: "nat \<Rightarrow> nat \<times> Cmd" where
  "demo_act n = (0, if n = 0 then Idle (seconds 20) (seconds 9000) else if n = 1 then Drain else if n = 2 then WriteOne True
     else if even n then Drain else Idle (int n) (int n))"

primrec demo_sys :: "System \<Rightarrow> nat \<Rightarrow> System" where
  "demo_sys s 0 = s"
| "demo_sys s (Suc n) =
     (case exec_cmd demo_decode floor_trunc False demo_raw (snd (demo_act n)) (workers (demo_sys s n) 0, sys_db (demo_sys s n)) of
        None \<Rightarrow> demo_sys s n
      | Some (w, db) \<Rightarrow> \<lparr>workers = (workers (demo_sys s n))(0 := w), sys_db = db\<rparr>)"

lemma demo_open_result:
  "case demo_run [Assign [demo_assign], Deliver 0 0, Deliver 0 0] of None \<Rightarrow> False | Some (w, db) \<Rightarrow>
     (case map_of (w_states w) 0 of None \<Rightarrow> False | Some st \<Rightarrow>
       (case map_of (open_windows st) (seconds 6000) of None \<Rightarrow> False | Some win \<Rightarrow>
          map_option row_of (map_of (cells win) global_key) = Some \<lparr>col_events = 2, col_users = 2, col_users_hll = None\<rparr>)) \<and>
     (case exec_cmds demo_decode floor_trunc False demo_raw [Idle (seconds 20) (seconds 9000), Drain] (w, db) of
        None \<Rightarrow> False
      | Some (w, db) \<Rightarrow> nothing_open (w_states w) \<and> map b_partition (w_pending w) = [0])"
  by code_simp

lemma demo_act_later:
  "3 \<le> n \<Longrightarrow> snd (demo_act n) = (if even n then Drain else Idle (int n) (int n))"
  by (simp add: demo_act_def)

lemma demo_sys_quiet:
  assumes "exec_cmds demo_decode floor_trunc False demo_raw [Idle (seconds 20) (seconds 9000), Drain] (workers s 0, sys_db s) = Some (w, db)"
    and "nothing_open (w_states w)" and "w_pending w = [b]"
  shows "quiet_run demo_decode floor_trunc False demo_raw 0 demo_act (demo_sys s)"
proof -
  let ?x = "\<lambda>n. exec_cmd demo_decode floor_trunc False demo_raw (snd (demo_act n)) (workers (demo_sys s n) 0, sys_db (demo_sys s n))"
  have nxt: "(workers (demo_sys s (Suc n)) 0, sys_db (demo_sys s (Suc n))) = wd" if "?x n = Some wd" for n wd
    using that by (cases wd) simp
  have d: "w_pending (workers s 0) = []" "drain (idle_iteration (seconds 20) (seconds 9000) (w_states (workers s 0))) = (w_pending w, w_states w)"
    using assms(1) by (auto split: if_splits prod.splits)
  have x0: "?x 0 = Some ((workers s 0)\<lparr>w_states := idle_iteration (seconds 20) (seconds 9000) (w_states (workers s 0))\<rparr>, sys_db s)"
    by (simp add: demo_act_def)
  have x1: "?x 1 = Some (w, db)"
    using assms(1) nxt [OF x0] d by (simp add: demo_act_def)
  have s2: "(workers (demo_sys s 2) 0, sys_db (demo_sys s 2)) = (w, db)" using nxt [OF x1] by (simp only: numeral_2_eq_2 One_nat_def)
  have x2: "?x 2 = Some (w\<lparr>w_pending := []\<rparr>, write_batch True b db)" using s2 assms(3) by (simp add: demo_act_def)
  have later: "nothing_open (w_states (workers (demo_sys s (n + 3)) 0)) \<and> w_pending (workers (demo_sys s (n + 3)) 0) = [] \<and> ?x (n + 3) \<noteq> None" for n
  proof (induction n)
    case 0
    have "(workers (demo_sys s 3) 0, sys_db (demo_sys s 3)) = (w\<lparr>w_pending := []\<rparr>, write_batch True b db)"
      using nxt [OF x2] by (simp only: numeral_3_eq_3 numeral_2_eq_2)
    then show ?case using assms(2) by (simp add: demo_act_def)
  next
    case (Suc n)
    let ?w = "workers (demo_sys s (n + 3)) 0"
    from Suc.IH obtain w' db' where x: "?x (n + 3) = Some (w', db')" by auto
    have e: "workers (demo_sys s (Suc n + 3)) 0 = w'" using nxt [OF x] by (simp del: demo_sys.simps)
    have "nothing_open (w_states w') \<and> w_pending w' = []"
    proof (cases "even (n + 3)")
      case True
      then have "exec_cmd demo_decode floor_trunc False demo_raw Drain (?w, sys_db (demo_sys s (n + 3))) = Some (w', db')"
        using x demo_act_later [of "n + 3"] by (metis le_add2)
      from exec_drainD [OF this] Suc.IH drain_nothing_open [of "w_states ?w"] show ?thesis by auto
    next
      case False
      then have "exec_cmd demo_decode floor_trunc False demo_raw (Idle (int (n + 3)) (int (n + 3))) (?w, sys_db (demo_sys s (n + 3))) = Some (w', db')"
        using x demo_act_later [of "n + 3"] by (metis le_add2)
      from exec_idleD [OF this] Suc.IH nothing_open_idle show ?thesis by metis
    qed
    moreover from this have "exec_cmd demo_decode floor_trunc False demo_raw (snd (demo_act (Suc n + 3))) (w', db) \<noteq> None" for db
      unfolding demo_act_later [of "Suc n + 3", OF le_add2] by (cases "drain (w_states w')") simp
    ultimately show ?case unfolding e by blast
  qed
  have "?x n \<noteq> None" for n
  proof -
    show ?thesis
    proof (cases "n < 3")
      case True
      then have "n = 0 \<or> n = 1 \<or> n = 2" by arith
      with x0 x1 x2 show ?thesis by (metis option.distinct(1))
    next
      case False
      then have "n = (n - 3) + 3" by simp
      with later [of "n - 3"] show ?thesis by metis
    qed
  qed
  then have step: "system_step demo_decode floor_trunc False demo_raw (demo_act n) (demo_sys s n) (demo_sys s (Suc n))" for n
  proof -
    assume x: "\<And>n. ?x n \<noteq> None"
    obtain w db where "?x n = Some (w, db)" using x [of n] by auto
    moreover have "fst (demo_act n) = 0" by (simp add: demo_act_def)
    ultimately show ?thesis unfolding system_step_def by simp
  qed
  have "quiet_cmd c" if "demo_act n = (0, c)" for n c
    using that by (auto simp: demo_act_def quiet_cmd_def)
  moreover have "\<exists>n wall utc. demo_act n = (0, Idle wall utc) \<and> B < wall \<and> B < utc" for B
    by (rule exI [of _ "2 * nat B + 3"]) (auto simp: demo_act_def)
  moreover have "\<exists>n \<ge> N. demo_act n = (0, Drain)" for N
    by (rule exI [of _ "2 * N + 4"]) (simp add: demo_act_def)
  ultimately show ?thesis using step unfolding quiet_run_def by blast
qed

theorem open_windows_eventually_written_witness:
  "\<exists>run n i win db_up. reachable demo_decode floor_trunc False demo_raw (run 0) \<and>
     quiet_run demo_decode floor_trunc False demo_raw 0 demo_act run \<and> window_held (workers (run 0) 0) 0 (seconds 6000) win \<and>
     map_option row_of (map_of (cells win) global_key) = Some \<lparr>col_events = 2, col_users = 2, col_users_hll = None\<rparr> \<and>
     i < n \<and> writes_window 0 (demo_act i) (run i) 0 (seconds 6000) win db_up \<and> nothing_open (w_states (workers (run n) 0))"
proof -
  obtain w db st win where run: "demo_run [Assign [demo_assign], Deliver 0 0, Deliver 0 0] = Some (w, db)"
    and st: "map_of (w_states w) 0 = Some st" "map_of (open_windows st) (seconds 6000) = Some win"
    and a: "map_option row_of (map_of (cells win) global_key) = Some \<lparr>col_events = 2, col_users = 2, col_users_hll = None\<rparr>"
    and x: "case exec_cmds demo_decode floor_trunc False demo_raw [Idle (seconds 20) (seconds 9000), Drain] (w, db) of
        None \<Rightarrow> False
      | Some (w, db) \<Rightarrow> nothing_open (w_states w) \<and> map b_partition (w_pending w) = [0]"
    using demo_open_result by (fastforce split: option.split_asm prod.split_asm)
  from x obtain w2 db2 b where x2: "exec_cmds demo_decode floor_trunc False demo_raw [Idle (seconds 20) (seconds 9000), Drain] (w, db) = Some (w2, db2)"
    "nothing_open (w_states w2)" "w_pending w2 = [b]"
    by (cases "exec_cmds demo_decode floor_trunc False demo_raw [Idle (seconds 20) (seconds 9000), Drain] (w, db)") auto
  from demo_run_reachable [OF run] obtain s where s: "reachable demo_decode floor_trunc False demo_raw s" "workers s 0 = w" "sys_db s = db"
    by blast
  have q: "quiet_run demo_decode floor_trunc False demo_raw 0 demo_act (demo_sys s)"
    by (rule demo_sys_quiet [OF _ x2(2,3)]) (simp only: s(2,3) x2(1))
  have held: "window_held (workers (demo_sys s 0) 0) 0 (seconds 6000) win" using st s(2) by (auto simp: window_held_def)
  have raw: "\<forall>p. raw_ok demo_decode (demo_raw p)" by (simp add: demo_raw_ok)
  have r0: "reachable demo_decode floor_trunc False demo_raw (demo_sys s 0)" by (simp add: s(1))
  from open_windows_eventually_written [OF r0 floor_trunc_spec raw q] obtain n
    where n: "\<forall>m \<ge> n. nothing_open (w_states (workers (demo_sys s m) 0))"
      "\<forall>p w win. window_held (workers (demo_sys s 0) 0) p w win \<longrightarrow>
       (\<exists>i < n. \<exists>db_up. writes_window 0 (demo_act i) (demo_sys s i) p w win db_up \<and>
          (db_up \<longrightarrow> (\<forall>k a. map_of (cells win) k = Some a \<longrightarrow>
             map_of (agg_cells (sys_db (demo_sys s (Suc i)))) (w, k, p) = Some (row_of a))))" by (elim exE conjE)
  from n(2) held obtain i up where "i < n" "writes_window 0 (demo_act i) (demo_sys s i) 0 (seconds 6000) win up" by blast
  with r0 q held a n(1) show ?thesis by blast
qed

section \<open>Nothing left to write\<close>

text \<open>Rounds of the idle loop and the flush loop of one worker. With no window open a round writes nothing,
  so it does not matter that the writes of \<open>quiet_round\<close> commit.\<close>

definition quiet_round :: "instant \<times> datetime \<Rightarrow> states \<times> Database \<Rightarrow> states \<times> Database" where
  "quiet_round t sd = flush_iteration (\<lambda>_. True) (idle_iteration (fst t) (snd t) (fst sd), snd sd)"

definition quiet_rounds :: "(instant \<times> datetime) list \<Rightarrow> states \<times> Database \<Rightarrow> states \<times> Database" where
  "quiet_rounds ts sd = fold quiet_round ts sd"

lemma quiet_rounds_simps [simp]:
  "quiet_rounds [] sd = sd" "quiet_rounds (t # ts) sd = quiet_rounds ts (quiet_round t sd)"
  by (simp_all add: quiet_rounds_def)

lemma nothing_open_round: "nothing_open sts \<Longrightarrow> snd (quiet_round t (sts, db)) = db \<and> nothing_open (fst (quiet_round t (sts, db)))"
  using drain_nothing_open [OF nothing_open_idle [of sts "fst t" "snd t"]]
  by (simp add: quiet_round_def flush_iteration_def case_prod_unfold)

lemma nothing_open_rounds:
  "nothing_open (fst sd) \<Longrightarrow> nothing_open (fst (quiet_rounds ts sd)) \<and> snd (quiet_rounds ts sd) = snd sd"
proof (induction ts arbitrary: sd)
  case (Cons t ts)
  obtain sts db where sd: "sd = (sts, db)" by (cases sd)
  with Cons nothing_open_round [of sts t db] show ?case by simp
qed simp

end
