(* ===== verification/Stray.thy ===== *)
theory Stray
  imports EndToEnd
begin









end
