(* ===== verification/AggSpec.thy ===== *)
theory AggSpec
  imports ExactlyOnce
begin

text \<open>
  What a partition's state (\<^verbatim>\<open>aggregator/src/window.rs\<close>) promises its callers, as an abstract machine
  that keeps no windows, counters or id sets: only the records consumed so far, the floor below which
  everything is flushed and the highest time seen. Its answers are read off the records. The state of
  the code implements it: every sequence of operations gives the same answers.
\<close>

section \<open>Simulation\<close>

text \<open>A deterministic machine with answers, and one that may also panic; running a list of operations.\<close>

fun run_spec :: "('c \<Rightarrow> 'a \<Rightarrow> 'a \<times> 'o) \<Rightarrow> 'c list \<Rightarrow> 'a \<Rightarrow> 'a \<times> 'o list" where
  "run_spec step [] a = (a, [])"
| "run_spec step (c # cs) a = (let (a', x) = step c a; (a'', xs) = run_spec step cs a' in (a'', x # xs))"

fun run_code :: "('c \<Rightarrow> 's \<Rightarrow> ('s \<times> 'o) res) \<Rightarrow> 'c list \<Rightarrow> 's \<Rightarrow> ('s \<times> 'o list) res" where
  "run_code step [] s = Inr (s, [])"
| "run_code step (c # cs) s =
     (case step c s of
        Inl p \<Rightarrow> Inl p
      | Inr (s', x) \<Rightarrow> map_sum id (map_prod id ((#) x)) (run_code step cs s'))"

fun run_ok :: "('c \<Rightarrow> 'a \<Rightarrow> bool) \<Rightarrow> ('c \<Rightarrow> 'a \<Rightarrow> 'a \<times> 'o) \<Rightarrow> 'c list \<Rightarrow> 'a \<Rightarrow> bool" where
  "run_ok ok step [] a \<longleftrightarrow> True"
| "run_ok ok step (c # cs) a \<longleftrightarrow> ok c a \<and> run_ok ok step cs (fst (step c a))"

text \<open>The contract: an admissible operation on related states does not panic, gives the same answer up to
  \<open>answer\<close> and leaves related states. Then whole runs do.\<close>

locale simulation =
  fixes code :: "'c \<Rightarrow> 's \<Rightarrow> ('s \<times> 'o) res" and spec_of :: "'c \<Rightarrow> 'a \<Rightarrow> 'a \<times> 'b"
    and rel :: "'a \<Rightarrow> 's \<Rightarrow> bool" and answer :: "'o \<Rightarrow> 'b" and ok :: "'c \<Rightarrow> 'a \<Rightarrow> bool"
  assumes step: "rel a s \<Longrightarrow> ok c a \<Longrightarrow>
    \<exists>s' x. code c s = Inr (s', x) \<and> rel (fst (spec_of c a)) s' \<and> answer x = snd (spec_of c a)"
begin

lemma run:
  "rel a s \<Longrightarrow> run_ok ok spec_of cs a \<Longrightarrow>
   \<exists>s' xs. run_code code cs s = Inr (s', xs) \<and> rel (fst (run_spec spec_of cs a)) s' \<and>
     map answer xs = snd (run_spec spec_of cs a)"
proof (induction cs arbitrary: a s)
  case (Cons c cs)
  then obtain s' x where st: "code c s = Inr (s', x)" "rel (fst (spec_of c a)) s'" "answer x = snd (spec_of c a)"
    using step [of a s c] by auto
  with Cons.IH [OF st(2)] Cons.prems(2) show ?case by (auto simp: case_prod_unfold Let_def)
qed simp

end

section \<open>The specification\<close>

record PartitionSpec =
  sp_records :: "logrec list"
  sp_floor :: datetime
  sp_high :: datetime
  sp_wall :: instant
  sp_next :: i64

datatype PartitionOp = Consume instant logrec | Tick instant datetime | TakeClosed

datatype 'w PartitionAnswer = Answered ProcessOutcome | Ticked | Taken 'w i64 datetime

type_synonym count_rows = "(datetime \<times> CellKey \<times> nat \<times> string set) set"

definition spec_resume :: "instant \<Rightarrow> i64 \<Rightarrow> datetime \<Rightarrow> PartitionSpec" where
  "spec_resume wall off wm = \<lparr>sp_records = [], sp_floor = wm, sp_high = wm, sp_wall = wall, sp_next = off\<rparr>"

text \<open>A record is late below the floor, a duplicate when its window already has a record with its id.\<close>

definition spec_outcome :: "PartitionSpec \<Rightarrow> logrec \<Rightarrow> ProcessOutcome" where
  "spec_outcome s r =
     (if window_end (rec_window r) \<le> sp_floor s then Late
      else if list_ex (\<lambda>x. event_id (snd x) = event_id (snd r)) (in_window (rec_window r) (sp_records s)) then Duplicate
      else Accepted)"

text \<open>The counts of the windows between the floor and the watermark.\<close>

definition spec_rows :: "PartitionSpec \<Rightarrow> count_rows" where
  "spec_rows s =
     (\<Union>w \<in> set (filter (\<lambda>w. sp_floor s < window_end w \<and> window_end w \<le> sp_high s - ALLOWED_LATENESS)
                  (map rec_window (sp_records s))).
        (\<lambda>k. (w, k, true_events k (in_window w (sp_records s)), true_users k (in_window w (sp_records s)))) `
          set (filter (\<lambda>k. 0 < true_events k (in_window w (sp_records s)))
            (concat (map (cells_for_event \<circ> snd) (sp_records s)))))"

text \<open>The checkpoint: the first record whose window is not flushed.\<close>

definition spec_checkpoint :: "PartitionSpec \<Rightarrow> i64" where
  "spec_checkpoint s =
     (case filter (\<lambda>r. sp_floor s < window_end (rec_window r)) (sp_records s) of [] \<Rightarrow> sp_next s | r # _ \<Rightarrow> fst r)"

fun spec_step :: "PartitionOp \<Rightarrow> PartitionSpec \<Rightarrow> PartitionSpec \<times> count_rows PartitionAnswer" where
  "spec_step (Consume wall r) s =
     (s\<lparr>sp_records := sp_records s @ [r], sp_high := max (sp_high s) (ev_ts (snd r)), sp_wall := wall, sp_next := fst r + 1\<rparr>,
      Answered (spec_outcome s r))"
| "spec_step (Tick wall utc) s =
     (if IDLE_PARTITION_TIMEOUT < wall - sp_wall s then s\<lparr>sp_high := max (sp_high s) utc\<rparr> else s, Ticked)"
| "spec_step TakeClosed s =
     (let s' = s\<lparr>sp_floor := max (sp_floor s) (sp_high s - ALLOWED_LATENESS)\<rparr>
      in (s', Taken (spec_rows s) (spec_checkpoint s') (sp_floor s')))"

section \<open>The code\<close>

fun partition_step :: "trunc_fn \<Rightarrow> PartitionOp \<Rightarrow> PartitionState \<Rightarrow>
    (PartitionState \<times> (datetime \<times> Window) list PartitionAnswer) res" where
  "partition_step trunc (Consume wall r) ps =
     map_sum id (map_prod id Answered) (process_event trunc wall ps (snd r) (fst r))"
| "partition_step trunc (Tick wall utc) ps = Inr (tick_idle ps wall utc, Ticked)"
| "partition_step trunc TakeClosed ps =
     (let (cl, ps') = take_closed_windows ps
      in Inr (ps', Taken cl (committed_offset ps') (flushed_watermark ps')))"

text \<open>The counts in a list of windows.\<close>

definition rows_of :: "(datetime \<times> Window) list \<Rightarrow> count_rows" where
  "rows_of cl = (\<Union>(w, win) \<in> set cl. (\<lambda>(k, a). (w, k, unat (agg_events a), agg_users a)) ` set (cells win))"

text \<open>A record comes with a larger offset than those before it, and within range.\<close>

fun op_ok :: "PartitionOp \<Rightarrow> PartitionSpec \<Rightarrow> bool" where
  "op_ok (Consume wall r) s \<longleftrightarrow> rec_ok r \<and> list_all (\<lambda>x. fst x < fst r) (sp_records s)"
| "op_ok _ s \<longleftrightarrow> True"

definition implements :: "bool \<Rightarrow> PartitionSpec \<Rightarrow> PartitionState \<Rightarrow> bool" where
  "implements hll_on s ps \<longleftrightarrow> ps_ok ps \<and> hll_enabled ps = hll_on \<and> log_ok (sp_records s) \<and> exact ps (sp_records s) \<and>
     flushed_watermark ps = sp_floor s \<and> max_event_ts ps = sp_high s \<and> last_event_wall ps = sp_wall s \<and>
     next_offset ps = sp_next s"

section \<open>Answers agree\<close>

lemma map_of_taken:
  assumes "ps_ok ps"
  shows "map_of (fst (take_closed_windows ps)) w = (if window_end w \<le> watermark ps then map_of (open_windows ps) w else None)"
  using bt_inv_distinct [OF ps_okD(1) [OF assms]] ps_okD(1) [OF assms]
  by (simp add: take_closed_windows_eq map_of_filter_distinct [where P = "\<lambda>w. window_end w \<le> watermark ps"])

lemma outcome_agrees:
  assumes "implements hll_on s ps"
  shows "(if is_late ps r then Late else if is_duplicate ps r then Duplicate else Accepted) = spec_outcome s r"
proof (cases "is_late ps r")
  case True
  with assms show ?thesis by (simp add: spec_outcome_def is_late_def implements_def)
next
  case False
  let ?rs = "in_window (rec_window r) (sp_records s)"
  have "map_of (open_windows ps) (rec_window r) = build_window hll_on ?rs"
    using assms False exactD by (auto simp: implements_def is_late_def)
  then have "is_duplicate ps r \<longleftrightarrow> event_id (snd r) \<in> (event_id \<circ> snd) ` set ?rs"
    using build_window_fields(2) [of hll_on ?rs] build_window_Some [of hll_on ?rs]
    by (cases "build_window hll_on ?rs") (auto simp: is_duplicate_def)
  also have "\<dots> \<longleftrightarrow> list_ex (\<lambda>x. event_id (snd x) = event_id (snd r)) ?rs"
    by (auto simp: list_ex_iff image_iff eq_commute)
  finally show ?thesis using False assms by (simp add: spec_outcome_def is_late_def implements_def)
qed

lemma mem_rows_of:
  assumes "distinct (map fst cl)" and "\<forall>w win. map_of cl w = Some win \<longrightarrow> al_inv (cells win)"
  shows "(w, k, n, us) \<in> rows_of cl \<longleftrightarrow>
    (\<exists>win a. map_of cl w = Some win \<and> map_of (cells win) k = Some a \<and> n = unat (agg_events a) \<and> us = agg_users a)"
proof
  assume "(w, k, n, us) \<in> rows_of cl"
  then obtain win a where m: "(w, win) \<in> set cl" "(k, a) \<in> set (cells win)" "n = unat (agg_events a)" "us = agg_users a"
    by (auto simp: rows_of_def)
  then have w: "map_of cl w = Some win" using assms(1) by simp
  with assms(2) m(2) have "map_of (cells win) k = Some a" by (simp add: al_inv_def)
  with w m(3,4) show "\<exists>win a. map_of cl w = Some win \<and> map_of (cells win) k = Some a \<and> n = unat (agg_events a) \<and> us = agg_users a"
    by blast
qed (force simp: rows_of_def dest: map_of_SomeD)

lemma rows_agree:
  assumes "implements hll_on s ps"
  shows "rows_of (fst (take_closed_windows ps)) = spec_rows s"
proof -
  let ?cl = "fst (take_closed_windows ps)" and ?rs = "\<lambda>w. in_window w (sp_records s)"
  have ok: "ps_ok ps" and log: "log_ok (sp_records s)" and ex: "exact ps (sp_records s)"
    and st: "hll_enabled ps = hll_on" "flushed_watermark ps = sp_floor s" "watermark ps = sp_high s - ALLOWED_LATENESS"
    using assms by (simp_all add: implements_def watermark_def)
  have win: "map_of ?cl w = (if sp_floor s < window_end w \<and> window_end w \<le> sp_high s - ALLOWED_LATENESS
      then build_window hll_on (?rs w) else None)" for w
    using exactD [OF ex, of w] ps_okD(3) [OF ok, of w]
    by (cases "map_of (open_windows ps) w") (auto simp: map_of_taken [OF ok] st)
  have inv: "\<forall>w win. map_of ?cl w = Some win \<longrightarrow> al_inv (cells win)"
    by (auto simp: win split: if_splits intro: build_window_fields(1))
  have d: "distinct (map fst ?cl)"
    using bt_inv_distinct [OF ps_okD(1) [OF ok]] ps_okD(1) [OF ok] by (simp add: take_closed_windows_eq distinct_map_filter)
  have len: "length (?rs w) < 2 ^ 63" for w
    using log_length [OF log] length_filter_le [of _ "sp_records s"] unfolding in_window_def by (rule le_less_trans [rotated])
  have cell: "(\<exists>a. map_of (cells win) k = Some a \<and> n = unat (agg_events a) \<and> us = agg_users a) \<longleftrightarrow>
      0 < true_events k (?rs w) \<and> n = true_events k (?rs w) \<and> us = true_users k (?rs w)"
    if "build_window hll_on (?rs w) = Some win" for w win k n us
  proof -
    have "true_events k (?rs w) < 2 ^ 63" using true_totals_bound len [of w] by (metis le_less_trans)
    then have "unat (of_nat (true_events k (?rs w)) :: u64) = true_events k (?rs w)"
      by (simp add: unsigned_of_nat take_bit_eq_mod)
    then show ?thesis using cell_matches_built [OF that, of k]
      by (cases "map_of (cells win) k") (auto simp: cell_matches_def)
  qed
  have hit: "k \<in> set (concat (map (cells_for_event \<circ> snd) (sp_records s))) \<and> w \<in> rec_window ` set (sp_records s)"
    if "0 < true_events k (?rs w)" for w k
  proof -
    from that obtain r where "r \<in> set (dedup {} (?rs w))" "k \<in> set (cells_for_event (snd r))"
      by (auto simp: true_events_def contributing_def filter_empty_conv)
    moreover from this(1) dedup_subset have "r \<in> set (?rs w)" by blast
    ultimately show ?thesis by (auto simp: in_window_def)
  qed
  have "(w, k, n, us) \<in> rows_of ?cl \<longleftrightarrow> (w, k, n, us) \<in> spec_rows s" for w k n us
  proof -
    have "(w, k, n, us) \<in> rows_of ?cl \<longleftrightarrow>
        sp_floor s < window_end w \<and> window_end w \<le> sp_high s - ALLOWED_LATENESS \<and>
        (\<exists>win. build_window hll_on (?rs w) = Some win \<and>
           0 < true_events k (?rs w) \<and> n = true_events k (?rs w) \<and> us = true_users k (?rs w))"
      by (cases "build_window hll_on (?rs w)") (auto simp: mem_rows_of [OF d inv] win cell)
    also have "\<dots> \<longleftrightarrow> sp_floor s < window_end w \<and> window_end w \<le> sp_high s - ALLOWED_LATENESS \<and>
        0 < true_events k (?rs w) \<and> n = true_events k (?rs w) \<and> us = true_users k (?rs w)"
      using build_window_Some [of hll_on "?rs w"] by (auto simp: true_events_def contributing_def)
    also have "\<dots> \<longleftrightarrow> (w, k, n, us) \<in> spec_rows s" using hit [of k w] by (auto simp: spec_rows_def)
    finally show ?thesis .
  qed
  then show ?thesis by auto
qed

lemma checkpoint_agrees:
  assumes "implements hll_on s ps"
  shows "committed_offset ps = spec_checkpoint s"
proof -
  let ?P = "\<lambda>r. sp_floor s < window_end (rec_window r)"
  have ok: "ps_ok ps" and ex: "exact ps (sp_records s)"
    and st: "hll_enabled ps = hll_on" "flushed_watermark ps = sp_floor s" "next_offset ps = sp_next s"
    and sorted: "sorted_wrt (<) (map fst (sp_records s))"
    using assms by (simp_all add: implements_def log_ok_def)
  have win: "sp_floor s < window_end w \<and> build_window hll_on (in_window w (sp_records s)) = Some win"
    if "(w, win) \<in> set (open_windows ps)" for w win
  proof -
    from that have "map_of (open_windows ps) w = Some win" using bt_inv_distinct [OF ps_okD(1) [OF ok]] by simp
    with ps_okD(3) [OF ok this] exactD [OF ex, of w] show ?thesis by (simp add: st)
  qed
  show ?thesis
  proof (cases "filter ?P (sp_records s)")
    case Nil
    have "open_windows ps = []"
    proof (rule ccontr)
      assume "open_windows ps \<noteq> []"
      then obtain w win where m: "(w, win) \<in> set (open_windows ps)" by (cases "open_windows ps") auto
      from win [OF m] have "in_window w (sp_records s) \<noteq> []" using build_window_Some [of hll_on] by force
      with win [OF m] Nil show False by (auto simp: in_window_empty_iff filter_empty_conv)
    qed
    with Nil show ?thesis by (simp add: committed_offset_Nil spec_checkpoint_def st)
  next
    case (Cons r rs)
    then have "r \<in> set (filter ?P (sp_records s))" by simp
    then have r: "r \<in> set (sp_records s)" "?P r" by simp_all
    have "sorted_wrt (<) (map fst (filter ?P (sp_records s)))" using sorted by (simp add: sorted_wrt_map sorted_wrt_filter)
    then have rs: "\<forall>x \<in> set rs. fst r < fst x" by (simp add: Cons)
    have first: "fst r \<le> fst x" if "x \<in> set (sp_records s)" "?P x" for x
    proof -
      have "x \<in> set (filter ?P (sp_records s))" using that by simp
      with rs show ?thesis by (auto simp: Cons)
    qed
    obtain win where w: "map_of (open_windows ps) (rec_window r) = Some win"
      "build_window hll_on (in_window (rec_window r) (sp_records s)) = Some win"
      using exactD [OF ex, of "rec_window r"] r build_window_Some [of hll_on "in_window (rec_window r) (sp_records s)"]
      by (cases "build_window hll_on (in_window (rec_window r) (sp_records s))") (auto simp: st in_window_empty_iff)
    have "committed_offset ps \<le> fst r"
      using committed_offset_le [OF w(1)] in_window_first(2) [OF sorted w(2) r(1) refl] by simp
    moreover have "fst r \<le> committed_offset ps"
    proof -
      have "open_windows ps \<noteq> []" using w(1) by auto
      from committed_offset_mem [OF this] obtain v win' where m: "(v, win') \<in> set (open_windows ps)"
        "committed_offset ps = min_offset win'" by auto
      note b = win [OF m(1)]
      then obtain x xs where x: "in_window v (sp_records s) = x # xs" by (cases "in_window v (sp_records s)") auto
      have "\<forall>y \<in> set xs. fst x \<le> fst y" using sorted_in_window [OF sorted, of v] by (auto simp: x)
      then have "min_offset win' = fst x" using build_window_min_offset [of hll_on x xs win'] b by (simp add: x)
      moreover have "x \<in> set (in_window v (sp_records s))" by (simp add: x)
      then have "x \<in> set (sp_records s)" "?P x" using b by (auto simp: in_window_def)
      ultimately show ?thesis using first m(2) by simp
    qed
    ultimately show ?thesis by (simp add: spec_checkpoint_def Cons)
  qed
qed

section \<open>The code implements the specification\<close>

definition answer_of :: "(datetime \<times> Window) list PartitionAnswer \<Rightarrow> count_rows PartitionAnswer" where
  "answer_of = map_PartitionAnswer rows_of"

lemma take_fields:
  assumes "ps_ok ps"
  shows "hll_enabled (snd (take_closed_windows ps)) = hll_enabled ps"
    "max_event_ts (snd (take_closed_windows ps)) = max_event_ts ps"
    "last_event_wall (snd (take_closed_windows ps)) = last_event_wall ps"
    "next_offset (snd (take_closed_windows ps)) = next_offset ps"
    "flushed_watermark (snd (take_closed_windows ps)) = max (flushed_watermark ps) (watermark ps)"
  using assms by (simp_all add: take_closed_windows_eq ps_okD)

lemma implements_take:
  "implements hll_on s ps \<Longrightarrow>
   implements hll_on (fst (spec_step TakeClosed s)) (snd (take_closed_windows ps))"
  by (simp add: implements_def ps_ok_take exact_take Let_def take_fields watermark_def)

lemma implements_tick:
  "implements hll_on s ps \<Longrightarrow> implements hll_on (fst (spec_step (Tick wall utc) s)) (tick_idle ps wall utc)"
  unfolding implements_def
  by (auto simp: tick_idle_def ps_ok_def exact_def IDLE_PARTITION_TIMEOUT_def seconds_def)

lemma implements_consume:
  assumes "duration_trunc_spec trunc" and "implements hll_on s ps" and "op_ok (Consume wall r) s"
  shows "\<exists>ps'. process_event trunc wall ps (snd r) (fst r) = Inr (ps', spec_outcome s r) \<and>
    implements hll_on (fst (spec_step (Consume wall r) s)) ps'"
proof -
  have ok: "ps_ok ps" "rec_ok r" "exact ps (sp_records s)" using assms(2,3) by (simp_all add: implements_def)
  obtain ps' oc where p: "process_event trunc wall ps (snd r) (fst r) = Inr (ps', oc)"
    using process_event_eq [OF assms(1) ok(1,2), of wall] by (auto split: if_splits)
  then have oc: "oc = spec_outcome s r"
    using process_event_eq [OF assms(1) ok(1,2), of wall] outcome_agrees [OF assms(2), of r] by (auto split: if_splits)
  have "log_ok (sp_records s @ [r])"
    using assms(2,3) by (auto simp: implements_def log_ok_def sorted_wrt_append list_all_iff)
  then have "implements hll_on (fst (spec_step (Consume wall r) s)) ps'"
    using process_event_fields [OF assms(1) ok(1,2) p] ps_ok_process_event [OF assms(1) ok(1,2) p]
      exact_process_event [OF assms(1) ok p] assms(2)
    by (simp add: implements_def max.commute)
  with p oc show ?thesis by blast
qed

text \<open>All that matters of chrono's truncation is what its documentation fixes.\<close>

lemma partition_step_trunc:
  assumes "duration_trunc_spec trunc"
  shows "partition_step trunc = partition_step floor_trunc"
proof (intro ext)
  fix c ps
  show "partition_step trunc c ps = partition_step floor_trunc c ps"
    by (cases c) (simp_all add: process_event_def window_start_eq [OF assms] window_start_eq [OF floor_trunc_spec])
qed

interpretation refines: simulation "partition_step floor_trunc" spec_step "implements hll_on" answer_of op_ok for hll_on
proof
  fix s :: PartitionSpec and ps c
  assume i: "implements hll_on s ps" and ok: "op_ok c s"
  show "\<exists>ps' x. partition_step floor_trunc c ps = Inr (ps', x) \<and> implements hll_on (fst (spec_step c s)) ps' \<and>
      answer_of x = snd (spec_step c s)"
  proof (cases c)
    case (Consume wall r)
    with implements_consume [OF floor_trunc_spec i, of wall r] ok show ?thesis by (auto simp: answer_of_def)
  next
    case (Tick wall utc)
    with implements_tick [OF i, of wall utc] show ?thesis by (simp add: answer_of_def)
  next
    case TakeClosed
    note t = implements_take [OF i]
    have f: "flushed_watermark (snd (take_closed_windows ps)) = max (sp_floor s) (sp_high s - ALLOWED_LATENESS)"
      using t by (simp add: implements_def Let_def)
    from t rows_agree [OF i] checkpoint_agrees [OF t] f TakeClosed show ?thesis
      by (auto simp: answer_of_def Let_def case_prod_unfold)
  qed
qed

text \<open>C6: the partition state implements its specification. From any checkpoint, every sequence of records
  (with increasing offsets), idle ticks and flushes runs without panicking and answers exactly as
  the machine that only remembers the records: which record is late, duplicate or accepted, which
  windows a flush hands out and with which event and user counts, the offset to resume from (that
  of the first record whose window is not flushed) and the watermark.\<close>

theorem partition_refines_spec:
  assumes "duration_trunc_spec trunc" and "run_ok op_ok spec_step ops (spec_resume wall off wm)"
  shows "\<exists>ps answers. run_code (partition_step trunc) ops (with_hll_enabled (resume_from wall p off wm) hll_on) = Inr (ps, answers) \<and>
    implements hll_on (fst (run_spec spec_step ops (spec_resume wall off wm))) ps \<and>
    map answer_of answers = snd (run_spec spec_step ops (spec_resume wall off wm))"
proof -
  have "implements hll_on (spec_resume wall off wm) (with_hll_enabled (resume_from wall p off wm) hll_on)"
    by (simp add: implements_def spec_resume_def log_ok_def exact_def with_hll_enabled_def resume_from_def ps_ok_def)
  from refines.run [OF this assms(2)] show ?thesis unfolding partition_step_trunc [OF assms(1)] .
qed

definition demo_ops :: "PartitionOp list" where
  "demo_ops = [Consume 0 (0, demo_event 1 ''u1'' (seconds 6000)), Consume 0 (1, demo_event 2 ''u2'' (seconds 6000)),
     Consume 0 (2, demo_event 1 ''u1'' (seconds 6000)), Consume 0 (3, demo_event 3 ''u1'' (seconds 7200)), TakeClosed,
     Consume 0 (4, demo_event 4 ''u3'' (seconds 6010))]"

theorem partition_refines_spec_witness:
  "\<exists>ps answers. run_code (partition_step floor_trunc) demo_ops (with_hll_enabled (resume_from 0 0 0 0) False) = Inr (ps, answers) \<and>
     take 4 (map answer_of answers) = [Answered Accepted, Answered Accepted, Answered Duplicate, Answered Accepted] \<and>
     answer_of (answers ! 5) = Answered Late"
proof -
  let ?s = "spec_resume 0 0 0"
  have ok: "run_ok op_ok spec_step demo_ops ?s"
    by (simp add: demo_ops_def spec_resume_def rec_ok_def demo_event_def in_i64_def seconds_def Let_def)
  have w: "wstart 6000000000000 = 6000000000000" "wstart 6010000000000 = 6000000000000" "wstart 7200000000000 = 7200000000000"
    by (simp_all add: wstart_def time_defs)
  have t: "take 4 (snd (run_spec spec_step demo_ops ?s)) =
      [Answered Accepted, Answered Accepted, Answered Duplicate, Answered Accepted]"
    "snd (run_spec spec_step demo_ops ?s) ! 5 = Answered Late" "length (snd (run_spec spec_step demo_ops ?s)) = 6"
    by (simp_all add: demo_ops_def spec_resume_def spec_outcome_def Let_def in_window_def rec_window_def demo_event_def
        seconds_def w window_end_def WINDOW_SIZE_def ALLOWED_LATENESS_def)
  from partition_refines_spec [OF floor_trunc_spec ok, of 0 False] obtain ps answers
    where run: "run_code (partition_step floor_trunc) demo_ops (with_hll_enabled (resume_from 0 0 0 0) False) = Inr (ps, answers)"
      and ans: "map answer_of answers = snd (run_spec spec_step demo_ops ?s)" by blast
  have "length answers = 6" using arg_cong [OF ans, of length] t(3) by simp
  then have "answer_of (answers ! 5) = Answered Late" using arg_cong [OF ans, of "\<lambda>xs. xs ! 5"] t(2) by simp
  with run ans t(1) show ?thesis by auto
qed

end
