(* ===== verification/WindowTests.thy ===== *)
theory WindowTests
  imports AggSpec EndToEnd
begin

text \<open>
  The tests of \<^verbatim>\<open>aggregator/src/window.rs\<close>, run against the model: each \<^verbatim>\<open>#[test]\<close> function is a predicate
  (a panic or a failed assertion is \<open>False\<close>) over the fixtures it uses. What a test draws at random
  (ids, clock readings, the inputs and the shuffling of the property test) is an argument, so that a
  test is a statement about all draws. They are run on the abstract machine of \<open>AggSpec\<close>.
\<close>

definition passes :: "'e + 'a \<Rightarrow> ('a \<Rightarrow> bool) \<Rightarrow> bool" where
  "passes r P = (case r of Inl _ \<Rightarrow> False | Inr x \<Rightarrow> P x)"

lemma passes_Inr [simp]: "passes (Inr x) P = P x"
  by (simp add: passes_def)

section \<open>Window state\<close>

definition evt :: "datetime \<Rightarrow> uuid \<Rightarrow> string \<Rightarrow> Event" where
  "evt ts i user = \<lparr>event_id = i, ev_user = user, ev_ts = ts, ev_family = ''wikipedia'', ev_wiki = ''enwiki'',
     ev_namespace = 0, ev_kind = Edit, ev_is_bot = False\<rparr>"

text \<open>2026-09-23 10:00:00 UTC, plus seconds.\<close>

definition test_time :: "int \<Rightarrow> datetime" where
  "test_time sec = seconds (1790157600 + sec)"

definition fresh_state :: "instant \<Rightarrow> PartitionState" where
  "fresh_state wall = resume_from wall 0 0 (test_time 0 - seconds 60)"

text \<open>The assertion on the global cell of the first open window.\<close>

definition global_is :: "PartitionState \<Rightarrow> u64 \<Rightarrow> nat \<Rightarrow> bool" where
  "global_is ps events users =
     (case open_windows ps of
        [] \<Rightarrow> False
      | (_, window) # _ \<Rightarrow>
          (case map_of (cells window) global_key of
             None \<Rightarrow> False
           | Some global \<Rightarrow> agg_events global = events \<and> card (agg_users global) = users))"

definition accepts_and_dedups_within_window :: "trunc_fn \<Rightarrow> (nat \<Rightarrow> instant) \<Rightarrow> uuid \<Rightarrow> bool" where
  "accepts_and_dedups_within_window trunc now i =
     (let e = evt (test_time 5) i ''u1''
      in passes (process_event trunc (now 1) (fresh_state (now 0)) e 0) (\<lambda>(ps, o1). o1 = Accepted \<and>
         passes (process_event trunc (now 2) ps e 1) (\<lambda>(ps, o2). o2 = Duplicate \<and> global_is ps 1 1)))"

definition distinct_users_counted_exactly :: "trunc_fn \<Rightarrow> (i64 \<Rightarrow> instant) \<Rightarrow> uuid \<Rightarrow> uuid \<Rightarrow> uuid \<Rightarrow> bool" where
  "distinct_users_counted_exactly trunc now i1 i2 i3 =
     passes (process_all trunc now (fresh_state (now (- 1)))
         [(0, evt (test_time 1) i1 ''u1''), (1, evt (test_time 2) i2 ''u1''), (2, evt (test_time 3) i3 ''u2'')])
       (\<lambda>ps. global_is ps 3 2)"

definition late_event_dropped_after_flush :: "trunc_fn \<Rightarrow> (i64 \<Rightarrow> instant) \<Rightarrow> uuid \<Rightarrow> uuid \<Rightarrow> bool" where
  "late_event_dropped_after_flush trunc now i1 i2 =
     passes (process_all trunc now (fresh_state (now (- 1))) [(0, evt (test_time 200) i1 ''u1'')])
       (\<lambda>ps. passes (process_event trunc (now 1) (snd (take_closed_windows ps)) (evt (test_time 5) i2 ''u2'') 1)
          (\<lambda>(_, outcome). outcome = Late))"

definition window_closes_once_watermark_passes_its_end :: "trunc_fn \<Rightarrow> (i64 \<Rightarrow> instant) \<Rightarrow> uuid \<Rightarrow> uuid \<Rightarrow> bool" where
  "window_closes_once_watermark_passes_its_end trunc now i1 i2 =
     passes (process_all trunc now (fresh_state (now (- 1))) [(0, evt (test_time 5) i1 ''u1'')])
       (\<lambda>ps. fst (take_closed_windows ps) = [] \<and>
          passes (process_event trunc (now 1) (snd (take_closed_windows ps)) (evt (test_time 95) i2 ''u2'') 1)
            (\<lambda>(ps, _). length (fst (take_closed_windows ps)) = 1))"

definition committed_offset_tracks_open_windows_min :: "trunc_fn \<Rightarrow> (i64 \<Rightarrow> instant) \<Rightarrow> uuid \<Rightarrow> uuid \<Rightarrow> bool" where
  "committed_offset_tracks_open_windows_min trunc now i1 i2 =
     passes (process_all trunc now (fresh_state (now (- 1))) [(10, evt (test_time 5) i1 ''u1''), (11, evt (test_time 65) i2 ''u2'')])
       (\<lambda>ps. committed_offset ps = 10)"

definition committed_offset_falls_back_to_next_offset_when_all_closed ::
  "trunc_fn \<Rightarrow> (i64 \<Rightarrow> instant) \<Rightarrow> uuid \<Rightarrow> uuid \<Rightarrow> bool" where
  "committed_offset_falls_back_to_next_offset_when_all_closed trunc now i1 i2 =
     passes (process_all trunc now (fresh_state (now (- 1))) [(10, evt (test_time 5) i1 ''u1''), (11, evt (test_time 200) i2 ''u2'')])
       (\<lambda>ps. let far_future_wall = last_event_wall ps + IDLE_PARTITION_TIMEOUT + seconds 1;
                 ps = snd (take_closed_windows (tick_idle ps far_future_wall (test_time 200 + seconds 3600)))
             in committed_offset ps = next_offset ps)"

definition idle_partition_advances_watermark_by_wall_clock :: "trunc_fn \<Rightarrow> (i64 \<Rightarrow> instant) \<Rightarrow> uuid \<Rightarrow> bool" where
  "idle_partition_advances_watermark_by_wall_clock trunc now i =
     passes (process_all trunc now (fresh_state (now (- 1))) [(0, evt (test_time 5) i ''u1'')])
       (\<lambda>ps. let far_future_wall = last_event_wall ps + IDLE_PARTITION_TIMEOUT + seconds 1;
                 far_future_utc = test_time 5 + seconds 3600
             in length (fst (take_closed_windows (tick_idle ps far_future_wall far_future_utc))) = 1)"

subsection \<open>Running them on the specification\<close>

text \<open>A step of a test may be taken on the specification instead.\<close>

lemma consume_step:
  assumes "duration_trunc_spec trunc" and "implements hll_on s ps" and "op_ok (Consume wall (off, e)) s"
    and "\<And>ps'. implements hll_on (fst (spec_step (Consume wall (off, e)) s)) ps' \<Longrightarrow> P (ps', spec_outcome s (off, e))"
  shows "passes (process_event trunc wall ps e off) P"
  using implements_consume [OF assms(1-3)] assms(4) by auto

lemma implements_fresh: "implements False (spec_resume wall 0 (test_time 0 - seconds 60)) (fresh_state wall)"
  by (simp add: implements_def spec_resume_def log_ok_def exact_def fresh_state_def resume_from_def ps_ok_def)

lemma resumed_run:
  assumes "duration_trunc_spec trunc" and "log_ok rs"
    and "\<And>s ps. implements False s ps \<Longrightarrow> sp_records s = rs \<Longrightarrow> sp_floor s = wm \<Longrightarrow>
      sp_high s = fold max (map (ev_ts \<circ> snd) rs) wm \<Longrightarrow> P ps"
  shows "passes (process_all trunc clock (resume_from wall 0 0 wm) rs) P"
proof -
  let ?ps = "resume_from wall 0 0 wm"
  have ok: "ps_ok ?ps" "exact ?ps []" by (simp_all add: exact_def) (simp add: resume_from_def)
  have "list_all rec_ok rs" using assms(2) by (simp add: log_ok_def)
  from process_all_exact [OF assms(1) ok(1) this ok(2), of clock] obtain ps'
    where p: "process_all trunc clock ?ps rs = Inr ps'" and ps': "ps_ok ps'" "exact ps' rs"
      "flushed_watermark ps' = flushed_watermark ?ps" "hll_enabled ps' = hll_enabled ?ps"
      "max_event_ts ps' = fold max (map (ev_ts \<circ> snd) rs) (max_event_ts ?ps)" by auto
  let ?s = "\<lparr>sp_records = rs, sp_floor = wm, sp_high = fold max (map (ev_ts \<circ> snd) rs) wm,
    sp_wall = last_event_wall ps', sp_next = next_offset ps'\<rparr>"
  have "implements False ?s ps'" using ps' assms(2) by (simp add: implements_def resume_from_def)
  from assms(3) [OF this] p show ?thesis by simp
qed

lemmas fresh_run = resumed_run [where wm = "test_time 0 - seconds 60", folded fresh_state_def]

text \<open>How many windows a flush hands out.\<close>

lemma taken_windows:
  assumes "implements hll_on s ps"
  shows "length (fst (take_closed_windows ps)) =
    length (filter (\<lambda>w. sp_floor s < window_end w \<and> window_end w \<le> sp_high s - ALLOWED_LATENESS)
      (remdups (map rec_window (sp_records s))))" (is "_ = length ?ws")
proof -
  let ?cl = "fst (take_closed_windows ps)"
  have ok: "ps_ok ps" and ex: "exact ps (sp_records s)" and st: "flushed_watermark ps = sp_floor s" "watermark ps = sp_high s - ALLOWED_LATENESS"
    using assms by (simp_all add: implements_def watermark_def)
  have "w \<in> fst ` set ?cl \<longleftrightarrow> w \<in> rec_window ` set (sp_records s) \<and> sp_floor s < window_end w \<and> window_end w \<le> sp_high s - ALLOWED_LATENESS" for w
  proof -
    have "w \<in> fst ` set ?cl \<longleftrightarrow> map_of ?cl w \<noteq> None" by (simp add: map_of_eq_None_iff)
    also have "\<dots> \<longleftrightarrow> window_end w \<le> sp_high s - ALLOWED_LATENESS \<and> map_of (open_windows ps) w \<noteq> None"
      by (simp add: map_of_taken [OF ok] st)
    also have "\<dots> \<longleftrightarrow> window_end w \<le> sp_high s - ALLOWED_LATENESS \<and> sp_floor s < window_end w \<and> in_window w (sp_records s) \<noteq> []"
      using exactD [OF ex, of w] ps_okD(3) [OF ok, of w] build_window_Some [of "hll_enabled ps" "in_window w (sp_records s)"]
      by (cases "map_of (open_windows ps) w") (auto simp: st)
    finally show ?thesis by (auto simp: in_window_empty_iff)
  qed
  then have "fst ` set ?cl = set ?ws" by auto
  moreover have "distinct (map fst ?cl)"
    using bt_inv_distinct [OF ps_okD(1) [OF ok]] ps_okD(1) [OF ok] by (simp add: take_closed_windows_eq distinct_map_filter)
  then have "length ?cl = card (fst ` set ?cl)" using distinct_card [of "map fst ?cl"] by simp
  moreover have "length ?ws = card (set ?ws)" by (intro distinct_card [symmetric]) simp
  ultimately show ?thesis by simp
qed

text \<open>The global cell when all records are in one window.\<close>

lemma global_is_counts:
  assumes "implements hll_on s ps" and "sp_records s \<noteq> []" and "list_all (\<lambda>r. rec_window r = w) (sp_records s)"
    and "sp_floor s < window_end w"
  shows "global_is ps (of_nat (true_events global_key (sp_records s))) (card (true_users global_key (sp_records s)))"
proof -
  have ok: "ps_ok ps" and ex: "exact ps (sp_records s)" and st: "flushed_watermark ps = sp_floor s"
    using assms by (simp_all add: implements_def)
  have one: "in_window w (sp_records s) = sp_records s" using assms(3) by (simp add: in_window_def list_all_iff)
  obtain win where b: "build_window (hll_enabled ps) (sp_records s) = Some win"
    using assms(2) build_window_Some [of "hll_enabled ps" "sp_records s"] by (cases "build_window (hll_enabled ps) (sp_records s)") auto
  then have w: "map_of (open_windows ps) w = Some win" using exactD [OF ex, of w] assms(4) by (simp add: st one)
  obtain v x ws where ows: "open_windows ps = (v, x) # ws" using w by (cases "open_windows ps") auto
  have "v = w"
  proof -
    have m: "map_of (open_windows ps) v = Some x" by (simp add: ows)
    with ps_okD(3) [OF ok m] exactD [OF ex, of v] have "build_window (hll_enabled ps) (in_window v (sp_records s)) = Some x"
      by simp
    then have "in_window v (sp_records s) \<noteq> []" by auto
    with assms(3) show ?thesis by (auto simp: in_window_empty_iff list_all_iff)
  qed
  with w ows have x: "x = win" by simp
  obtain r rs where "sp_records s = r # rs" using assms(2) by (cases "sp_records s") auto
  then have "0 < true_events global_key (sp_records s)"
    by (simp add: true_events_def contributing_def cells_for_event_def)
  then show ?thesis using cell_matches_built [OF b, of global_key]
    by (auto simp: global_is_def ows x cell_matches_def split: option.splits)
qed

subsection \<open>They hold\<close>

lemma evt_fields [simp]:
  "event_id (evt ts i u) = i" "ev_user (evt ts i u) = u" "ev_ts (evt ts i u) = ts" "global_key \<in> set (cells_for_event (evt ts i u))"
  by (simp_all add: evt_def cells_for_event_def)

lemmas test_simps = rec_ok_def in_i64_def in_window_def rec_window_def wstart_def window_end_def
  WINDOW_SIZE_def ALLOWED_LATENESS_def IDLE_PARTITION_TIMEOUT_def test_time_def seconds_def spec_resume_def

lemma accepts_and_dedups_within_window_holds:
  assumes "duration_trunc_spec trunc"
  shows "accepts_and_dedups_within_window trunc now i"
proof -
  let ?e = "evt (test_time 5) i ''u1''" and ?s = "spec_resume (now 0) 0 (test_time 0 - seconds 60)"
  let ?s1 = "fst (spec_step (Consume (now 1) (0, ?e)) ?s)"
  have ok: "op_ok (Consume (now 1) (0, ?e)) ?s" "op_ok (Consume (now 2) (1, ?e)) ?s1" by (simp_all add: test_simps)
  have oc: "spec_outcome ?s (0, ?e) = Accepted" "spec_outcome ?s1 (1, ?e) = Duplicate"
    by (simp_all add: spec_outcome_def test_simps)
  have fin: "global_is ps 1 1" if "implements False (fst (spec_step (Consume (now 2) (1, ?e)) ?s1)) ps" for ps
    using global_is_counts [OF that, of "test_time 0"]
    by (simp add: test_simps true_events_def true_users_def contributing_def)
  show ?thesis
    unfolding accepts_and_dedups_within_window_def Let_def
    by (rule consume_step [OF assms implements_fresh ok(1)])
      (simp only: oc prod.case, rule conjI, rule refl, rule consume_step [OF assms _ ok(2)], assumption,
       use oc fin in simp)
qed

lemma distinct_users_counted_exactly_holds:
  assumes "duration_trunc_spec trunc" and "distinct [i1, i2, i3]"
  shows "distinct_users_counted_exactly trunc now i1 i2 i3"
  unfolding distinct_users_counted_exactly_def
proof (rule fresh_run [OF assms(1)])
  have "i2 \<noteq> i1" "i3 \<noteq> i1" "i3 \<noteq> i2" using assms(2) by auto
  moreover fix s ps assume "implements False s ps"
    and "sp_records s = [(0, evt (test_time 1) i1 ''u1''), (1, evt (test_time 2) i2 ''u1''), (2, evt (test_time 3) i3 ''u2'')]"
    and "sp_floor s = test_time 0 - seconds 60"
  ultimately show "global_is ps 3 2" using global_is_counts [of False s ps "test_time 0"]
    by (simp add: numeral_2_eq_2 test_simps true_events_def true_users_def contributing_def)
qed (simp_all add: log_ok_def test_simps)

lemma late_event_dropped_after_flush_holds:
  assumes "duration_trunc_spec trunc"
  shows "late_event_dropped_after_flush trunc now i1 i2"
  unfolding late_event_dropped_after_flush_def
proof (rule fresh_run [OF assms])
  fix s ps assume i: "implements False s ps" and rs: "sp_records s = [(0, evt (test_time 200) i1 ''u1'')]"
    and fl: "sp_floor s = test_time 0 - seconds 60" "sp_high s = fold max (map (ev_ts \<circ> snd) [(0 :: i64, evt (test_time 200) i1 ''u1'')]) (test_time 0 - seconds 60)"
  show "passes (process_event trunc (now 1) (snd (take_closed_windows ps)) (evt (test_time 5) i2 ''u2'') 1) (\<lambda>(_, outcome). outcome = Late)"
    by (rule consume_step [OF assms implements_take [OF i]])
      (simp_all add: rs fl Let_def spec_outcome_def test_simps)
qed (simp_all add: log_ok_def test_simps)

lemma window_closes_once_watermark_passes_its_end_holds:
  assumes "duration_trunc_spec trunc"
  shows "window_closes_once_watermark_passes_its_end trunc now i1 i2"
  unfolding window_closes_once_watermark_passes_its_end_def
proof (rule fresh_run [OF assms])
  fix s ps assume i: "implements False s ps" and rs: "sp_records s = [(0, evt (test_time 5) i1 ''u1'')]"
    and fl: "sp_floor s = test_time 0 - seconds 60" "sp_high s = fold max (map (ev_ts \<circ> snd) [(0 :: i64, evt (test_time 5) i1 ''u1'')]) (test_time 0 - seconds 60)"
  have "length (fst (take_closed_windows ps)) = 0"
    unfolding taken_windows [OF i] by (simp add: rs fl test_simps)
  moreover have "passes (process_event trunc (now 1) (snd (take_closed_windows ps)) (evt (test_time 95) i2 ''u2'') 1)
      (\<lambda>(ps, _). length (fst (take_closed_windows ps)) = 1)"
  proof (rule consume_step [OF assms implements_take [OF i]])
    fix ps' assume i': "implements False (fst (spec_step (Consume (now 1) (1, evt (test_time 95) i2 ''u2'')) (fst (spec_step TakeClosed s)))) ps'"
    show "case (ps', spec_outcome (fst (spec_step TakeClosed s)) (1, evt (test_time 95) i2 ''u2'')) of
        (ps, _) \<Rightarrow> length (fst (take_closed_windows ps)) = 1"
      unfolding prod.case taken_windows [OF i'] by (simp add: rs fl Let_def test_simps)
  qed (simp add: rs fl Let_def test_simps)
  ultimately show "fst (take_closed_windows ps) = [] \<and>
      passes (process_event trunc (now 1) (snd (take_closed_windows ps)) (evt (test_time 95) i2 ''u2'') 1)
        (\<lambda>(ps, _). length (fst (take_closed_windows ps)) = 1)" by simp
qed (simp_all add: log_ok_def test_simps)

lemma committed_offset_tracks_open_windows_min_holds:
  assumes "duration_trunc_spec trunc"
  shows "committed_offset_tracks_open_windows_min trunc now i1 i2"
  unfolding committed_offset_tracks_open_windows_min_def
proof (rule fresh_run [OF assms])
  fix s ps assume i: "implements False s ps" and rs: "sp_records s = [(10, evt (test_time 5) i1 ''u1''), (11, evt (test_time 65) i2 ''u2'')]"
    and "sp_floor s = test_time 0 - seconds 60"
  then show "committed_offset ps = 10" unfolding checkpoint_agrees [OF i] by (simp add: spec_checkpoint_def test_simps)
qed (simp_all add: log_ok_def test_simps)

lemma committed_offset_falls_back_to_next_offset_when_all_closed_holds:
  assumes "duration_trunc_spec trunc"
  shows "committed_offset_falls_back_to_next_offset_when_all_closed trunc now i1 i2"
  unfolding committed_offset_falls_back_to_next_offset_when_all_closed_def Let_def
proof (rule fresh_run [OF assms])
  fix s ps assume i: "implements False s ps" and rs: "sp_records s = [(10, evt (test_time 5) i1 ''u1''), (11, evt (test_time 200) i2 ''u2'')]"
    and fl: "sp_floor s = test_time 0 - seconds 60" "sp_high s = fold max (map (ev_ts \<circ> snd) [(10 :: i64, evt (test_time 5) i1 ''u1''), (11, evt (test_time 200) i2 ''u2'')]) (test_time 0 - seconds 60)"
  let ?wall = "last_event_wall ps + IDLE_PARTITION_TIMEOUT + seconds 1" and ?utc = "test_time 200 + seconds 3600"
  let ?ps = "snd (take_closed_windows (tick_idle ps ?wall ?utc))"
  have wall: "sp_wall s = last_event_wall ps" using i by (simp add: implements_def)
  note i' = implements_take [OF implements_tick [OF i, of ?wall ?utc]]
  have "next_offset ?ps = sp_next s" using i' by (simp add: implements_def Let_def wall test_simps)
  moreover have "committed_offset ?ps = sp_next s"
    unfolding checkpoint_agrees [OF i'] by (simp add: spec_checkpoint_def Let_def rs fl wall test_simps)
  ultimately show "committed_offset ?ps = next_offset ?ps" by simp
qed (simp_all add: log_ok_def test_simps)

lemma idle_partition_advances_watermark_by_wall_clock_holds:
  assumes "duration_trunc_spec trunc"
  shows "idle_partition_advances_watermark_by_wall_clock trunc now i"
  unfolding idle_partition_advances_watermark_by_wall_clock_def Let_def
proof (rule fresh_run [OF assms])
  fix s ps assume i: "implements False s ps" and rs: "sp_records s = [(0, evt (test_time 5) i ''u1'')]"
    and fl: "sp_floor s = test_time 0 - seconds 60" "sp_high s = fold max (map (ev_ts \<circ> snd) [(0 :: i64, evt (test_time 5) i ''u1'')]) (test_time 0 - seconds 60)"
  let ?wall = "last_event_wall ps + IDLE_PARTITION_TIMEOUT + seconds 1"
  have wall: "sp_wall s = last_event_wall ps" using i by (simp add: implements_def)
  show "length (fst (take_closed_windows (tick_idle ps ?wall (test_time 5 + seconds 3600)))) = 1"
    unfolding taken_windows [OF implements_tick [OF i]] by (simp add: rs fl wall test_simps)
qed (simp_all add: log_ok_def test_simps)

section \<open>The property test\<close>

text \<open>An input of the test with the id drawn for it: seconds, user number, extra copies.\<close>

type_synonym test_spec = "(nat \<times> nat \<times> nat) \<times> uuid"

definition spec_event :: "test_spec \<Rightarrow> Event" where
  "spec_event x = (case x of ((ts_offset, user_idx, dup_count), i) \<Rightarrow> evt (test_time (int ts_offset)) i (''u'' @ show_nat user_idx))"

definition wire :: "test_spec list \<Rightarrow> Event list" where
  "wire xs = concat (map (\<lambda>x. replicate (Suc (snd (snd (fst x)))) (spec_event x)) xs)"

definition total_step :: "trunc_fn \<Rightarrow> test_spec \<Rightarrow> (datetime \<times> u64 \<times> string set) list \<Rightarrow> (datetime \<times> u64 \<times> string set) list res" where
  "total_step trunc x totals =
     map_sum id (\<lambda>w. al_alter w (\<lambda>entry. case entry of
         None \<Rightarrow> (1, {ev_user (spec_event x)})
       | Some (n, us) \<Rightarrow> (n + 1, insert (ev_user (spec_event x)) us)) totals)
       (window_start trunc (ev_ts (spec_event x)))"

definition total_actual :: "datetime \<times> Window \<Rightarrow> (datetime \<times> u64 \<times> nat) list \<Rightarrow> (datetime \<times> u64 \<times> nat) list" where
  "total_actual sw m =
     (case map_of (cells (snd sw)) global_key of
        None \<Rightarrow> m
      | Some global \<Rightarrow> al_put (fst sw) (agg_events global, card (agg_users global)) m)"

text \<open>\<open>shuffled\<close> is the order the hash of the seed puts the wire in.\<close>

definition flushed_totals_match_true_totals_under_dup_and_reorder ::
  "trunc_fn \<Rightarrow> (i64 \<Rightarrow> instant) \<Rightarrow> test_spec list \<Rightarrow> Event list \<Rightarrow> bool" where
  "flushed_totals_match_true_totals_under_dup_and_reorder trunc now xs shuffled =
     passes (fold_res (total_step trunc) xs []) (\<lambda>true_totals.
       passes (process_all trunc now (resume_from (now (- 1)) 0 0 (test_time 0 - seconds 300))
           (map (\<lambda>(i, e). (int i, e)) (List.enumerate 0 shuffled)))
         (\<lambda>ps. let far_wall = last_event_wall ps + IDLE_PARTITION_TIMEOUT + seconds 1;
                   closed_ws = fst (take_closed_windows (tick_idle ps far_wall (test_time 0 + seconds 7200)));
                   actual_totals = fold total_actual closed_ws []
               in list_all (\<lambda>(w, true_events, true_users).
                    (case map_of actual_totals w of None \<Rightarrow> (0, 0) | Some x \<Rightarrow> x) = (true_events, card true_users)) true_totals))"

text \<open>The ranges the test draws from, and fresh ids.\<close>

definition drawn :: "test_spec list \<Rightarrow> bool" where
  "drawn xs \<longleftrightarrow> length xs < 60 \<and> list_all (\<lambda>((ts_offset, user_idx, dup_count), _). ts_offset < 20 \<and> user_idx < 5 \<and> dup_count < 3) xs \<and>
     distinct (map snd xs)"

lemma wstart_t:
  assumes "0 \<le> s" and "s < 60"
  shows "wstart (test_time s) = test_time 0"
proof -
  have "test_time s = seconds s + WINDOW_SIZE * 29835960" by (simp add: test_time_def seconds_def WINDOW_SIZE_def)
  then have "test_time s mod WINDOW_SIZE = seconds s mod WINDOW_SIZE" by (simp only: mod_mult_self2)
  also have "\<dots> = seconds s" using assms by (simp add: seconds_def WINDOW_SIZE_def)
  finally show ?thesis by (simp add: wstart_def test_time_def seconds_def)
qed

lemma spec_event_fields:
  assumes "drawn xs" and "x \<in> set xs"
  shows "event_id (spec_event x) = snd x" "in_i64 (ev_ts (spec_event x))" "wstart (ev_ts (spec_event x)) = test_time 0"
    "global_key \<in> set (cells_for_event (spec_event x))"
proof -
  obtain a b c i where x: "x = ((a, b, c), i)" by (metis prod.exhaust)
  with assms have a: "a < 20" by (auto simp: drawn_def list_all_iff)
  show "event_id (spec_event x) = snd x" "global_key \<in> set (cells_for_event (spec_event x))"
    by (simp_all add: spec_event_def x)
  show "wstart (ev_ts (spec_event x)) = test_time 0" using a by (simp add: spec_event_def x wstart_t)
  show "in_i64 (ev_ts (spec_event x))" using a by (simp add: spec_event_def x in_i64_def test_time_def seconds_def)
qed

lemma true_totals:
  assumes "duration_trunc_spec trunc" and "drawn xs" and "set ys \<subseteq> set xs"
  shows "fold_res (total_step trunc) ys [(test_time 0, n, us)] =
    Inr [(test_time 0, n + of_nat (length ys), us \<union> (ev_user \<circ> spec_event) ` set ys)]"
  using assms(3)
proof (induction ys arbitrary: n us)
  case (Cons y ys)
  then have y: "y \<in> set xs" by simp
  note f = spec_event_fields [OF assms(2) y]
  have "total_step trunc y [(test_time 0, n, us)] = Inr [(test_time 0, n + 1, insert (ev_user (spec_event y)) us)]"
    by (simp add: total_step_def window_start_eq [OF assms(1)] f)
  with Cons.IH [of "n + 1" "insert (ev_user (spec_event y)) us"] Cons.prems show ?case
    by (simp add: ac_simps insert_commute Un_insert_right)
qed simp

lemma numbered:
  "map fst (map (\<lambda>(i, e). (int i, e)) (List.enumerate n es)) = map int [n..<n + length es]"
  "map snd (map (\<lambda>(i, e). (int i, e)) (List.enumerate n es)) = es"
  by (induction es arbitrary: n) (simp_all del: upt_Suc add: upt_conv_Cons)

lemma wire_length: "drawn xs \<Longrightarrow> length (wire xs) \<le> 3 * length xs"
proof -
  assume "drawn xs"
  then have "list_all (\<lambda>x. snd (snd (fst x)) < 3) xs" by (auto simp: drawn_def list_all_iff case_prod_unfold)
  then show ?thesis by (induction xs) (auto simp: wire_def)
qed

lemma wire_set: "set (wire xs) = spec_event ` set xs"
  by (auto simp: wire_def)

text \<open>The totals of the log that the test feeds in.\<close>

lemma shuffled_log:
  assumes "drawn xs" and "mset shuffled = mset (wire xs)"
    and "rs = map (\<lambda>(i, e). (int i, e)) (List.enumerate 0 shuffled)"
  shows "log_ok rs" "in_window (test_time 0) rs = rs" "true_events global_key rs = length xs"
    "true_users global_key rs = (ev_user \<circ> spec_event) ` set xs"
proof -
  note num = numbered [of 0 shuffled, folded assms(3)]
  have ev: "snd ` set rs = spec_event ` set xs"
    using num(2) mset_eq_setD [OF assms(2)] by (metis set_map wire_set)
  have len: "length rs \<le> 180"
    using wire_length [OF assms(1)] assms(1) arg_cong [OF assms(2), of size] num(2) by (auto simp: drawn_def dest: arg_cong [of _ _ length])
  have mem: "\<exists>x \<in> set xs. snd r = spec_event x" if "r \<in> set rs" for r using ev that by blast
  have "rec_ok r" if r: "r \<in> set rs" for r
  proof -
    have "fst r \<in> set (map int [0..<0 + length shuffled])" unfolding num(1) [symmetric] using r by simp
    then have "0 \<le> fst r" "fst r < int (length rs)" using num(2) by (auto dest: arg_cong [of _ _ length])
    then show ?thesis using len mem [OF r] spec_event_fields(2) [OF assms(1)] by (auto simp: rec_ok_def)
  qed
  moreover have "sorted_wrt (<) (map int [0..<0 + length shuffled])" by (simp add: sorted_wrt_map)
  ultimately show "log_ok rs" unfolding log_ok_def num(1) by (simp add: list_all_iff)
  show "in_window (test_time 0) rs = rs"
    unfolding in_window_def rec_window_def using mem spec_event_fields(3) [OF assms(1)] by (intro filter_True) fastforce
  have all: "contributing global_key rs = dedup {} rs"
    unfolding contributing_def using dedup_subset [of "{}" rs] mem spec_event_fields(4) [OF assms(1)]
    by (intro filter_True) fastforce
  have ids: "event_id ` spec_event ` set xs = set (map snd xs)"
    unfolding image_comp set_map by (rule image_cong) (use spec_event_fields(1) [OF assms(1)] in simp_all)
  have "distinct (map (event_id \<circ> snd) (dedup {} rs))" using dedup_ids [of "{}" rs] by blast
  then have "length (dedup {} rs) = card (set (map (event_id \<circ> snd) (dedup {} rs)))" using distinct_card by fastforce
  also have "set (map (event_id \<circ> snd) (dedup {} rs)) = event_id ` snd ` set rs"
    using dedup_ids [of "{}" rs] by (simp add: image_comp)
  also have "card \<dots> = length xs" unfolding ev ids using assms(1) distinct_card [of "map snd xs"] by (simp add: drawn_def)
  finally show "true_events global_key rs = length xs" by (simp add: true_events_def all)
  have "inj_on event_id (spec_event ` set xs)"
  proof (rule inj_onI)
    fix e e' assume "e \<in> spec_event ` set xs" "e' \<in> spec_event ` set xs" "event_id e = event_id e'"
    then obtain x x' where x: "x \<in> set xs" "x' \<in> set xs" "e = spec_event x" "e' = spec_event x'" "snd x = snd x'"
      using spec_event_fields(1) [OF assms(1)] by auto
    then have "x = x'" using assms(1) by (auto simp: drawn_def distinct_map dest: inj_onD)
    with x show "e = e'" by simp
  qed
  then have "snd ` set (dedup {} rs) = spec_event ` set xs" using dedup_events [of rs] by (simp add: ev)
  then show "true_users global_key rs = (ev_user \<circ> spec_event) ` set xs"
    unfolding true_users_def all by (metis image_comp)
qed

lemma actual_totals_lookup:
  assumes "distinct (map fst cl)" and "al_inv m"
  shows "map_of (fold total_actual cl m) w =
    (case map_of cl w of
       None \<Rightarrow> map_of m w
     | Some win \<Rightarrow> (case map_of (cells win) global_key of
         None \<Rightarrow> map_of m w | Some global \<Rightarrow> Some (agg_events global, card (agg_users global))))"
  using assms
proof (induction cl arbitrary: m)
  case (Cons sw cl)
  obtain v win where sw: "sw = (v, win)" by (cases sw)
  have inv: "al_inv (total_actual sw m)" using Cons.prems(2) by (auto simp: total_actual_def split: option.splits)
  have none: "map_of cl v = None" using Cons.prems(1) by (simp add: sw map_of_eq_None_iff)
  have "distinct (map fst cl)" using Cons.prems(1) by simp
  from Cons.IH [OF this inv] none show ?case by (auto simp: sw total_actual_def split: option.splits)
qed simp

text \<open>C33: the repository's property test of the window state holds for every input it can draw: for any events
  of the drawn ranges, any number of extra copies, any fresh ids, any order of arrival and any clock
  readings, the totals of the flushed windows equal the totals the test computes on the side.\<close>

theorem window_property_test_holds:
  assumes "duration_trunc_spec trunc" and "drawn xs" and "mset shuffled = mset (wire xs)"
  shows "flushed_totals_match_true_totals_under_dup_and_reorder trunc now xs shuffled"
proof (cases xs)
  case Nil
  then show ?thesis using assms(3)
    by (simp add: flushed_totals_match_true_totals_under_dup_and_reorder_def wire_def)
next
  case (Cons x ys)
  let ?rs = "map (\<lambda>(i, e). (int i, e)) (List.enumerate 0 shuffled)"
  note lg = shuffled_log [OF assms(2,3) refl]
  have x: "x \<in> set xs" "set ys \<subseteq> set xs" by (auto simp: Cons)
  have "total_step trunc x [] = Inr [(test_time 0, 1, {ev_user (spec_event x)})]"
    using spec_event_fields [OF assms(2) x(1)] by (simp add: total_step_def window_start_eq [OF assms(1)])
  then have tt: "fold_res (total_step trunc) xs [] = Inr [(test_time 0, of_nat (length xs), (ev_user \<circ> spec_event) ` set xs)]"
    using true_totals [OF assms(1,2) x(2), of 1 "{ev_user (spec_event x)}"] by (simp add: Cons)
  show ?thesis
    unfolding flushed_totals_match_true_totals_under_dup_and_reorder_def tt passes_Inr
  proof (rule resumed_run [OF assms(1) lg(1)])
    fix s ps assume i: "implements False s ps" and rs: "sp_records s = ?rs" and fl: "sp_floor s = test_time 0 - seconds 300"
    let ?wall = "last_event_wall ps + IDLE_PARTITION_TIMEOUT + seconds 1" and ?utc = "test_time 0 + seconds 7200"
    let ?ps = "tick_idle ps ?wall ?utc" and ?cl = "fst (take_closed_windows (tick_idle ps ?wall ?utc))"
    have wall: "sp_wall s = last_event_wall ps" using i by (simp add: implements_def)
    have ok: "ps_ok ?ps" "exact ?ps ?rs" "hll_enabled ?ps = False" "flushed_watermark ?ps = test_time 0 - seconds 300"
      using i by (simp_all add: implements_def rs fl)
    have "?utc \<le> max_event_ts ?ps"
      using i wall by (simp add: tick_idle_def implements_def IDLE_PARTITION_TIMEOUT_def seconds_def)
    then have "window_end (test_time 0) \<le> watermark ?ps"
      by (simp add: watermark_def window_end_def WINDOW_SIZE_def ALLOWED_LATENESS_def seconds_def)
    then have "map_of ?cl (test_time 0) = build_window False ?rs"
      unfolding map_of_taken [OF ok(1)] using exactD [OF ok(2), of "test_time 0"] lg(2) ok(3,4)
      by (simp add: window_end_def WINDOW_SIZE_def seconds_def)
    moreover have "distinct (map fst ?cl)"
      using bt_inv_distinct [OF ps_okD(1) [OF ok(1)]] ps_okD(1) [OF ok(1)] by (simp add: take_closed_windows_eq distinct_map_filter)
    ultimately have "map_of (fold total_actual ?cl []) (test_time 0) = Some (of_nat (length xs), card ((ev_user \<circ> spec_event) ` set xs))"
      using actual_totals_lookup [of ?cl "[]" "test_time 0"] cell_matches_built [of False ?rs _ global_key] lg(3,4) Cons build_window_Some [of False ?rs]
      by (cases "build_window False ?rs")
        (auto simp: cell_matches_def true_events_def contributing_def split: option.splits)
    then show "let far_wall = ?wall; closed_ws = fst (take_closed_windows (tick_idle ps far_wall ?utc));
          actual_totals = fold total_actual closed_ws []
        in list_all (\<lambda>(w, true_events, true_users).
             (case map_of actual_totals w of None \<Rightarrow> (0, 0) | Some x \<Rightarrow> x) = (true_events, card true_users))
           [(test_time 0, of_nat (length xs), (ev_user \<circ> spec_event) ` set xs)]"
      by (simp add: Let_def)
  qed
qed

theorem window_property_test_holds_witness:
  "drawn [((0, 1, 2), 7), ((19, 1, 0), 8)] \<and>
   flushed_totals_match_true_totals_under_dup_and_reorder floor_trunc (\<lambda>_. 0) [((0, 1, 2), 7), ((19, 1, 0), 8)]
     [spec_event ((0, 1, 2), 7), spec_event ((19, 1, 0), 8), spec_event ((0, 1, 2), 7), spec_event ((0, 1, 2), 7)]"
proof
  show d: "drawn [((0, 1, 2), 7), ((19, 1, 0), 8)]" by (simp add: drawn_def)
  show "flushed_totals_match_true_totals_under_dup_and_reorder floor_trunc (\<lambda>_. 0) [((0, 1, 2), 7), ((19, 1, 0), 8)]
     [spec_event ((0, 1, 2), 7), spec_event ((19, 1, 0), 8), spec_event ((0, 1, 2), 7), spec_event ((0, 1, 2), 7)]"
    by (rule window_property_test_holds [OF floor_trunc_spec d]) (simp add: wire_def eval_nat_numeral)
qed

end
