(* ===== verification/UnitTests.thy ===== *)
theory UnitTests
  imports WindowTests Privacy
begin

text \<open>
  The other tests of the repository, run against the model like those of \<open>WindowTests\<close>: suppression,
  validation, hierarchy, windows, sketches, the mapping of wiki changes and the integration test of the
  aggregator's tables. Each lemma states the conditions under which its tests hold. Left out are the tests
  that measure a statistical error, those of the Laplace draws, and those of the pseudonyms, which test HMAC.
\<close>

section \<open>Suppression\<close>

definition hides_small_children_below_k :: bool where
  "hides_small_children_below_k =
     (case suppress 61 [demo_cell ''big'' 50, demo_cell ''small1'' 6, demo_cell ''small2'' 5] 10 of
        [Visible _ _ _ _ v, Other _ h] \<Rightarrow> v = 50 \<and> h = 11
      | _ \<Rightarrow> False)"

definition differencing_attack_is_defeated :: bool where
  "differencing_attack_is_defeated =
     (case suppress 50 [demo_cell ''big'' 45, demo_cell ''small'' 5] 10 of
        [Other _ users] \<Rightarrow> users = 50
      | _ \<Rightarrow> False)"

definition residual_between_parent_and_visible_children_is_treated_as_hidden :: bool where
  "residual_between_parent_and_visible_children_is_treated_as_hidden =
     (case suppress 60 [demo_cell ''big'' 55] 10 of
        [Other _ users] \<Rightarrow> users = 60
      | _ \<Rightarrow> False)"

definition is_visible :: "ResultCell \<Rightarrow> bool" where
  "is_visible c = (case c of Visible _ _ _ _ _ \<Rightarrow> True | Other _ _ \<Rightarrow> False)"

definition all_children_above_k_stay_visible :: bool where
  "all_children_above_k_stay_visible =
     (let result = suppress 50 [demo_cell ''a'' 20, demo_cell ''b'' 30] 10
      in length result = 2 \<and> list_all is_visible result)"

definition single_cell_below_k_is_suppressed :: bool where
  "single_cell_below_k_is_suppressed \<longleftrightarrow>
     \<not> suppress_single (demo_cell ''solo'' 4) 10 \<and> suppress_single (demo_cell ''solo'' 10) 10"

definition hidden_group_that_can_never_reach_k_is_released_as_nothing :: bool where
  "hidden_group_that_can_never_reach_k_is_released_as_nothing \<longleftrightarrow> suppress 3 [demo_cell ''tiny'' 3] 10 = []"

definition no_released_cell_is_ever_below_k :: "u64 list \<Rightarrow> u64 \<Rightarrow> u64 \<Rightarrow> bool" where
  "no_released_cell_is_ever_below_k child_users residual k =
     (let children = map (\<lambda>(i, users). demo_cell (''c'' @ show_nat i) users) (List.enumerate 0 child_users);
          parent_users = sum_list child_users + residual
      in list_all (\<lambda>c. k \<le> (case c of Visible _ _ _ _ users \<Rightarrow> users | Other _ users \<Rightarrow> users))
           (suppress parent_users children k))"

section \<open>Validation\<close>

definition sample_event :: "uuid \<Rightarrow> datetime \<Rightarrow> Event" where
  "sample_event i now = \<lparr>event_id = i, ev_user = ''Alice'', ev_ts = now, ev_family = ''wikipedia'', ev_wiki = ''enwiki'',
     ev_namespace = 0, ev_kind = Edit, ev_is_bot = False\<rparr>"

definition valid_event_passes :: "uuid \<Rightarrow> datetime \<Rightarrow> datetime \<Rightarrow> bool" where
  "valid_event_passes i now now' \<longleftrightarrow> validate (sample_event i now) now' = Inr ()"

definition empty_user_rejected :: "uuid \<Rightarrow> datetime \<Rightarrow> datetime \<Rightarrow> bool" where
  "empty_user_rejected i now now' =
     (case validate ((sample_event i now)\<lparr>ev_user := ''''\<rparr>) now' of Inl (EmptyUser _) \<Rightarrow> True | _ \<Rightarrow> False)"

definition future_timestamp_rejected :: "uuid \<Rightarrow> datetime \<Rightarrow> datetime \<Rightarrow> bool" where
  "future_timestamp_rejected i now now' =
     (case validate ((sample_event i now)\<lparr>ev_ts := now + seconds 3600\<rparr>) now' of Inl (TimestampInFuture _ _) \<Rightarrow> True | _ \<Rightarrow> False)"

definition negative_namespace_rejected :: "uuid \<Rightarrow> datetime \<Rightarrow> datetime \<Rightarrow> bool" where
  "negative_namespace_rejected i now now' =
     (case validate ((sample_event i now)\<lparr>ev_namespace := - 1\<rparr>) now' of Inl (NegativeNamespace _ _) \<Rightarrow> True | _ \<Rightarrow> False)"

section \<open>Hierarchy and windows\<close>

definition hierarchy_event :: "uuid \<Rightarrow> datetime \<Rightarrow> Event" where
  "hierarchy_event i now = (sample_event i now)\<lparr>ev_wiki := ''knwiki''\<rparr>"

definition event_contributes_to_four_cells :: "uuid \<Rightarrow> datetime \<Rightarrow> bool" where
  "event_contributes_to_four_cells i now \<longleftrightarrow>
     (let cs = cells_for_event (hierarchy_event i now)
      in length cs = 4 \<and> cs ! 0 = global_key \<and> ck_level (cs ! 1) = LEVEL_FAMILY \<and> ck_family (cs ! 1) = ''wikipedia'' \<and>
         ck_level (cs ! 2) = LEVEL_WIKI \<and> ck_wiki (cs ! 2) = ''knwiki'' \<and>
         ck_level (cs ! 3) = LEVEL_NAMESPACE \<and> ck_namespace (cs ! 3) = 0)"

definition parent_chain_reaches_global :: "uuid \<Rightarrow> datetime \<Rightarrow> bool" where
  "parent_chain_reaches_global i now =
     (case parent (cells_for_event (hierarchy_event i now) ! 3) of
        None \<Rightarrow> False
      | Some wiki \<Rightarrow> (case parent wiki of
          None \<Rightarrow> False
        | Some family \<Rightarrow> (case parent family of
            None \<Rightarrow> False
          | Some global \<Rightarrow> global = global_key \<and> parent global = None)))"

definition floors_to_minute_boundary :: "trunc_fn \<Rightarrow> bool" where
  "floors_to_minute_boundary trunc \<longleftrightarrow> window_start trunc (test_time 947) = Inr (test_time 900)"

definition already_on_boundary_is_unchanged :: "trunc_fn \<Rightarrow> bool" where
  "already_on_boundary_is_unchanged trunc \<longleftrightarrow> window_start trunc (test_time 900) = Inr (test_time 900)"

definition window_end_is_one_window_later :: bool where
  "window_end_is_one_window_later \<longleftrightarrow> window_end (test_time 900) = test_time 960"

section \<open>Sketches\<close>

definition user_names :: "nat \<Rightarrow> string list" where
  "user_names n = map (\<lambda>i. ''user-'' @ show_nat i) [0..<n]"

definition empty_sketch_estimates_zero :: bool where
  "empty_sketch_estimates_zero =
     passes with_default_precision (\<lambda>hll. f64_as_u64 (f64_round (estimate hll)) = 0)"

definition round_trips_through_bytes :: bool where
  "round_trips_through_bytes =
     passes with_default_precision (\<lambda>hll. passes (hll_insert_all hll (user_names 1000)) (\<lambda>hll.
       case from_bytes (to_bytes hll) of None \<Rightarrow> False | Some restored \<Rightarrow> hll = restored \<and> estimate hll = estimate restored))"

definition memory_is_fixed_regardless_of_cardinality :: bool where
  "memory_is_fixed_regardless_of_cardinality =
     passes with_default_precision (\<lambda>hll. passes (hll_insert hll ''only-one-user'') (\<lambda>small.
       passes (hll_insert_all hll (user_names 1000000)) (\<lambda>large.
         memory_bytes small = memory_bytes large \<and> memory_bytes small = 4096)))"

section \<open>Wiki changes\<close>

definition maps_known_families :: bool where
  "maps_known_families \<longleftrightarrow>
     family_for_wiki ''enwiki'' = ''wikipedia'' \<and> family_for_wiki ''knwiki'' = ''wikipedia'' \<and>
     family_for_wiki ''enwiktionary'' = ''wiktionary'' \<and> family_for_wiki ''wikidatawiki'' = ''wikidata'' \<and>
     family_for_wiki ''commonswiki'' = ''commons'' \<and> family_for_wiki ''totally-unknown'' = ''other''"

definition test_change :: "string \<Rightarrow> RecentChange" where
  "test_change kind = \<lparr>change_kind = kind, change_namespace = 0, change_user = ''Alice'', change_bot = False,
     change_wiki = ''enwiki'', change_timestamp = 1700000000\<rparr>"

definition converts_recentchange_to_event :: "(i64 \<Rightarrow> datetime option) \<Rightarrow> uuid \<Rightarrow> bool" where
  "converts_recentchange_to_event from_timestamp i =
     passes (to_event from_timestamp i (test_change ''edit'')) (\<lambda>event.
       ev_family event = ''wikipedia'' \<and> ev_wiki event = ''enwiki'' \<and> ev_kind event = Edit \<and> \<not> ev_is_bot event)"

definition rejects_unknown_kind :: "(i64 \<Rightarrow> datetime option) \<Rightarrow> uuid \<Rightarrow> bool" where
  "rejects_unknown_kind from_timestamp i =
     (case to_event from_timestamp i (test_change ''wat'') of Inl (UnknownKind _) \<Rightarrow> True | _ \<Rightarrow> False)"

section \<open>The tables\<close>

definition window_with_cells :: "(CellKey \<times> u64 \<times> string list) list \<Rightarrow> Window" where
  "window_with_cells cs = fold (\<lambda>(key, events, users) window.
       window\<lparr>cells := al_put key \<lparr>agg_events = events, agg_users = set users, agg_hll = None\<rparr> (cells window)\<rparr>)
     cs \<lparr>min_offset = 0, seen_ids = {}, cells = []\<rparr>"

text \<open>The rows the tests read back: events and users of the global cell.\<close>

definition select_global :: "Database \<Rightarrow> datetime \<Rightarrow> i32 \<Rightarrow> (i64 \<times> i64) list" where
  "select_global db w p =
     map (\<lambda>r. (col_events (snd r), col_users (snd r)))
       (filter (\<lambda>r. row_window r = w \<and> ck_level (row_key r) = 0 \<and> row_partition r = p) (agg_cells db))"

definition flush_then_load_round_trips_through_postgres :: bool where
  "flush_then_load_round_trips_through_postgres =
     (let window = window_with_cells [(global_key, 3, [''u1'', ''u2'', ''u3''])];
          (db, r) = flush_windows True empty_db 5 [(test_time 900, window)] 42 (test_time 960)
      in r = Inr () \<and>
         passes (load_progress True db 5) (\<lambda>progress.
           case progress of
             None \<Rightarrow> False
           | Some p \<Rightarrow> pp_committed_offset p = 42 \<and> pp_flushed_watermark p = test_time 960) \<and>
         select_global db (test_time 900) 5 = [(3, 3)])"

definition flush_is_idempotent_under_reflush :: bool where
  "flush_is_idempotent_under_reflush =
     (let window = window_with_cells [(global_key, 5, [''a'', ''b''])];
          (db, r) = flush_windows True empty_db 0 [(test_time 3600, window)] 10 (test_time 3660);
          (db, r') = flush_windows True db 0 [(test_time 3600, window)] 10 (test_time 3660)
      in r = Inr () \<and> r' = Inr () \<and> select_global db (test_time 3600) 0 = [(5, 2)] \<and> length (agg_cells db) = 1)"

definition load_progress_returns_none_for_unknown_partition :: bool where
  "load_progress_returns_none_for_unknown_partition \<longleftrightarrow> load_progress True empty_db 999 = Inr None"

section \<open>They hold\<close>

lemma suppression_tests_hold:
  "hides_small_children_below_k" "differencing_attack_is_defeated"
  "residual_between_parent_and_visible_children_is_treated_as_hidden" "all_children_above_k_stay_visible"
  "single_cell_below_k_is_suppressed" "hidden_group_that_can_never_reach_k_is_released_as_nothing"
  by code_simp+

lemma no_released_cell_is_ever_below_k_holds: "no_released_cell_is_ever_below_k child_users residual k"
proof -
  have "(case c of Visible _ _ _ _ users \<Rightarrow> users | Other _ users \<Rightarrow> users) = res_users c" for c by (cases c) simp_all
  then show ?thesis by (simp add: no_released_cell_is_ever_below_k_def Let_def suppressed_ge)
qed

lemma trim_Nil: "trim [] = []"
  by (simp add: trim_def trim_front_Nil)

lemma validation_tests_hold:
  "now \<le> now' \<Longrightarrow> valid_event_passes i now now'" "empty_user_rejected i now now'"
  "now' < now + seconds 3540 \<Longrightarrow> future_timestamp_rejected i now now'" "negative_namespace_rejected i now now'"
  by (simp_all add: valid_event_passes_def empty_user_rejected_def future_timestamp_rejected_def negative_namespace_rejected_def
      sample_event_def validate_def trim_Nil Let_def seconds_def MAX_FUTURE_SKEW_SECS_def)

lemma hierarchy_tests_hold: "event_contributes_to_four_cells i now" "parent_chain_reaches_global i now"
proof -
  show "event_contributes_to_four_cells i now"
    by (simp add: event_contributes_to_four_cells_def hierarchy_event_def sample_event_def cells_for_event_def eval_nat_numeral key_defs)
  show "parent_chain_reaches_global i now"
    by (simp add: parent_chain_reaches_global_def cells_for_event_def eval_nat_numeral)
qed

lemma window_tests_hold:
  "duration_trunc_spec trunc \<Longrightarrow> floors_to_minute_boundary trunc"
  "duration_trunc_spec trunc \<Longrightarrow> already_on_boundary_is_unchanged trunc" "window_end_is_one_window_later"
  by (simp_all add: floors_to_minute_boundary_def already_on_boundary_is_unchanged_def window_end_is_one_window_later_def
      window_start_eq test_simps)

lemma sketch_tests_hold:
  "empty_sketch_estimates_zero" "round_trips_through_bytes" "memory_is_fixed_regardless_of_cardinality"
proof -
  have "estimate hll_empty = 0" by (simp add: estimate_def hll_empty_def sum_list_replicate Let_def)
  then show "empty_sketch_estimates_zero" by (simp add: empty_sketch_estimates_zero_def f64_round_def f64_as_u64_def)
  show "round_trips_through_bytes" by (simp add: round_trips_through_bytes_def hll_insert_all_eq from_to_bytes)
  have "memory_bytes h = 4096" if "hll_ok h" for h using that by (simp add: memory_bytes_def hll_okD)
  then show "memory_is_fixed_regardless_of_cardinality"
    by (simp add: memory_is_fixed_regardless_of_cardinality_def hll_insert_all_eq hll_insert_eq)
qed

lemma mapping_tests_hold:
  "maps_known_families" "from_timestamp 1700000000 \<noteq> None \<Longrightarrow> converts_recentchange_to_event from_timestamp i"
  "from_timestamp 1700000000 \<noteq> None \<Longrightarrow> rejects_unknown_kind from_timestamp i"
proof -
  show "maps_known_families" by code_simp
  have "family_for_wiki ''enwiki'' = ''wikipedia''" by code_simp
  then show "from_timestamp 1700000000 \<noteq> None \<Longrightarrow> converts_recentchange_to_event from_timestamp i"
    "from_timestamp 1700000000 \<noteq> None \<Longrightarrow> rejects_unknown_kind from_timestamp i"
    by (auto simp: converts_recentchange_to_event_def rejects_unknown_kind_def to_event_def test_change_def kind_for_str_def
        split: option.splits)
qed

lemma table_tests_hold:
  "flush_then_load_round_trips_through_postgres" "flush_is_idempotent_under_reflush"
  "load_progress_returns_none_for_unknown_partition"
  by code_simp+

end
