(* ===== verification/Spec2Isabelle.thy ===== *)
theory Spec2Isabelle
  imports Services ReconcileRun Liveness Stray UnitTests
begin

text \<open>
  Hush is a streaming analytics pipeline for wiki edits with privacy-preserving queries. This
  development models its Rust crates and proves what makes them correct.

  \<^bold>\<open>The program.\<close> \<^verbatim>\<open>wiki-source\<close> reads the Wikimedia change stream and posts batches of events to
  \<^verbatim>\<open>ingest-gateway\<close>, which validates them, replaces user names by keyed pseudonyms and queues them for
  Kafka, keyed by pseudonym, so that a user's events stay in one partition. \<^verbatim>\<open>aggregator\<close> processes
  consume the partitions, keep one state per partition (open windows with the event ids seen, counts,
  user sets and optional sketches per cell), close windows as the watermark advances, and write them to
  Postgres together with the offset from which to resume. \<^verbatim>\<open>query-api\<close> answers statistics for windows
  every partition has flushed, suppresses groups below \<open>k\<close> users and optionally adds Laplace noise.
  \<^verbatim>\<open>loadgen\<close> generates a workload with its ground truth and \<^verbatim>\<open>reconcile\<close> compares the truth with the tables.

  \<^bold>\<open>Theories and sources\<close> (paths under \<^verbatim>\<open>src/crates\<close>).
  \<^item> \<open>Prelude\<close>: widths and wrap-around of Rust's integers, panics as values, \<open>HashMap\<close> and \<open>BTreeMap\<close> as
    association lists, and the interfaces \<open>entry_map\<close> (maps updated through \<open>entry\<close>) and \<open>sketch\<close>.
  \<^item> \<open>TimeWindow\<close>, \<open>Events\<close>, \<open>CellHierarchy\<close>, \<open>Hll\<close>: \<^verbatim>\<open>common/src/{window,event,hierarchy,hll}.rs\<close>. Every
    timestamp has one window; validation accepts exactly the legal events; an event feeds one chain of
    four cells; a sketch is a function of the set of its items, merging is union, bytes round-trip.
  \<^item> \<open>AggWindow\<close>, \<open>AggReplay\<close>: \<^verbatim>\<open>aggregator/src/window.rs\<close>. \<open>PartitionState\<close> and its operations, and the
    reference meaning of a window (\<open>build_window\<close>): replaying a log leaves exactly the distinct events
    and users of each window, whatever the duplicates and the order.
  \<^item> \<open>AggSpec\<close>: what a partition state promises, as a machine that only remembers the consumed records, and
    the interface \<open>simulation\<close>; the state of the code implements it for every sequence of operations.
  \<^item> \<open>AggDb\<close>: \<^verbatim>\<open>aggregator/src/db.rs\<close>. The two tables, the atomic flush, and the interface \<open>result_store\<close>
    on which the workers rely.
  \<^item> \<open>AggSystem\<close>, \<open>ExactlyOnce\<close>: \<^verbatim>\<open>aggregator/src/{main,flush,rebalance,lag}.rs\<close>. A worker is its shared map of
    states, the batches of the running flush and the positions Kafka serves; the inductive relation
    \<open>worker_step\<close> has one rule per critical section, plus crashes; \<open>reachable\<close> interleaves any number of
    workers over one database. The invariant gives exactly-once rows, safe checkpoints and recovery; two
    theorems show schedules in which the code loses data.
  \<^item> \<open>Orderly\<close>: the runs of that system on which nothing may be lost. \<open>orderly_run\<close> keeps every interleaving, with
    rebalances, replays, stale writers and crashes, and excludes a write that fails while its worker lives on, an
    idle tick past records the worker has not read, and a first assignment older than the day the code
    looks back; \<open>within_lateness\<close> asks of the logs what \<open>ALLOWED_LATENESS\<close> was chosen for. Then every row is
    complete and the checkpoints never claim more than the table holds.
  \<^item> \<open>Stray\<close>: the branch of the message loop for a partition without state, which \<open>worker_step\<close> leaves out, and
    the harm it does if a message ever reaches it.
  \<^item> \<open>Privacy\<close>, \<open>QueryDb\<close>, \<open>QueryApi\<close>: \<^verbatim>\<open>query-api/src/{privacy,db,dp,handlers,main}.rs\<close>. Threshold, differencing
    and partition properties and termination of suppression; what the queries read; the Laplace
    mechanism; the handlers with their cache.
  \<^item> \<open>QueryRun\<close>: \<^verbatim>\<open>query-api/src/handlers.rs\<close> again, as it runs. \<open>handler_step\<close> takes a request from one
    \<open>await\<close> to the next; between them cache and tables may change. A request always ends with an answer,
    suppression survives the interference, and an undisturbed request is \<open>get_stats\<close>.
  \<^item> \<open>Tables\<close>: the type of every row a reachable system can hold, and that valid queries over such tables
    neither fail nor panic.
  \<^item> \<open>Gateway\<close>: \<^verbatim>\<open>ingest-gateway/src/{handlers,producer,main}.rs\<close>, \<^verbatim>\<open>common/src/pseudonym.rs\<close>. Outcomes of a
    post and the producer loop.
  \<^item> \<open>Ingest\<close>: the gateway as it runs, an inductive relation \<open>ingest_step\<close> in which request handlers, producer loop
    and sends interleave one action at a time. It implements the producer loop of \<open>Gateway\<close>; the topic holds
    only admitted events under their pseudonyms, an answer of 202 is kept unless a send fails, and nothing
    bounds the sends in flight.
  \<^item> \<open>WikiSource\<close>: \<^verbatim>\<open>wiki-source/src/{mapping,client}.rs\<close>. Mapping, batching in order, backoff.
  \<^item> \<open>Startup\<close>: \<^verbatim>\<open>common/src/config.rs\<close> and the configurations of the services; the query server from its
    environment through any sequence of requests.
  \<^item> \<open>Loadgen\<close>, \<open>LoadRun\<close>, \<open>Reconcile\<close>: \<^verbatim>\<open>loadgen/src\<close> and \<^verbatim>\<open>reconcile/src\<close>. The recorded truth, the plan of a
    load run, what a passing reconciliation means.
  \<^item> \<open>LoadSend\<close>: \<^verbatim>\<open>loadgen/src/{config,main}.rs\<close>. The command line and the open loop: ticks, answers, the latency
    histogram and the truth file interleave in \<open>load_run\<close>. A run that ends wrote a file that counts every
    planned batch, answered or not.
  \<^item> \<open>ReconcileRun\<close>: \<^verbatim>\<open>reconcile/src/main.rs\<close> from its command line and the truth file to its exit.
  \<^item> \<open>EndToEnd\<close>, \<open>QueryTruth\<close> and this theory compose the parts over orderly runs: zero drift from the generator
    through gateway, topic, concurrent aggregators and tables to the reconciliation, and the answers of the query
    API are the true counts of the posted events. A quiet partition stalls the queries.
  \<^item> \<open>Liveness\<close>: infinite runs of the whole system (\<open>quiet_run\<close>) in which one worker gets no more messages; each
    window it holds reaches one of its writes, whether or not that write commits.
  \<^item> \<open>Pipeline\<close>: all services at once. The relation \<open>pipeline\<close> interleaves \<open>ingest_step\<close>, \<open>worker_step\<close> over the
    growing topic, and requests to the query API that run \<open>await\<close> by \<open>await\<close>, are dropped or evicted from the
    cache; exact and sketch queries share it, and every visible row ever answered to an exact query counts
    posted, validated events of at least \<open>k\<close> real users.
  \<^item> \<open>Services\<close>: the \<open>main\<close> functions (\<^verbatim>\<open>{aggregator,ingest-gateway,query-api,wiki-source}/src/main.rs\<close>), the
    settings of the Kafka clients and the rebalance context of \<^verbatim>\<open>aggregator/src/rebalance.rs\<close>. Every call to the
    outside may fail. What starts satisfies what the other theories assume, so that \<open>Pipeline\<close> speaks of
    deployments given by environment variables.
  \<^item> \<open>WindowTests\<close>, \<open>UnitTests\<close>: the unit, property and integration tests of the crates as predicates, proved to hold
    for the ids, clock readings and inputs they may draw, under the conditions each lemma states.

  \<^bold>\<open>Conventions.\<close> \<open>u8\<close> and \<open>u64\<close> are words; \<open>i64\<close>, \<open>i32\<close> and \<open>i16\<close> are integers with the wrap-around of the
  release profile written where the code adds. A \<open>DateTime\<close> is its number of nanoseconds since the epoch
  and an \<open>Instant\<close> a number of nanoseconds. \<open>f64\<close> is idealised to the reals, with infinite and undefined
  results written out where the code can reach them. A computation that can panic returns a sum.

  \<^bold>\<open>What is outside\<close> is an argument: chrono's truncation (\<open>duration_trunc_spec\<close>, documented to fail beyond the
  nanosecond range), its formatting and \<open>from_timestamp\<close>; JSON decoding and encoding; HMAC and hex; the
  tokio channel (\<open>channel_spec\<close>, \<open>recv_spec\<close>); librdkafka's partitioner; Kafka, as a log per partition with increasing offsets and the position
  it serves next; Postgres, as tables with atomic transactions that may fail; moka, as a map that may
  drop entries at any time; random draws, fresh ids and clock readings. Each hypothesis on them is
  instantiated by a concrete function in the witnesses.

  \<^bold>\<open>Bounds and loops.\<close> No fuel is used: every loop over data is structural recursion, the suppression loop is
  also given as \<open>while_option\<close> and proved to end, and the endless service loops are step relations or
  lists of rounds. Logs are assumed to have offsets in \<open>[0, 2^63 - 1)\<close> and timestamps in the range of
  nanosecond \<open>i64\<close> (\<open>rec_ok\<close>); where sums over partitions matter, their totals are below \<open>2^63\<close>.

  \<^bold>\<open>Where the model is coarser.\<close> A transaction either commits or leaves the tables as they were; one that commits
  although its acknowledgement is lost leads to the same states as a commit, since the flush loop only logs the
  error. Kafka keeps every record that is still to be read: retention that deletes unread records is not
  represented. The reads compare windows in nanoseconds, while Postgres truncates a bound timestamp to
  microseconds; windows written by the aggregator are whole minutes. The number of planned batches of the load
  generator is computed in the reals and differs from \<open>f64\<close> for totals above \<open>2^53\<close>.

  \<^bold>\<open>Not modelled.\<close> HTTP routing and sockets, serde and the text of logs; metrics, whose values no code reads
  (the gauges of \<^verbatim>\<open>lag.rs\<close> apart); the help texts and types of clap; connecting to Postgres and running the
  migrations beyond their success or failure; the indexes and the daily partitions of the tables, which do
  not change what a query returns; the tests that measure a statistical error or that compute an HMAC, whose
  functions are arguments here; \<^verbatim>\<open>common/examples/wire_format_bench.rs\<close>, which only times serde, and the
  dashboards.
\<close>

section \<open>From the load generator to the reconciliation\<close>

text \<open>C1: zero drift, end to end. Let the load generator emit any events with fresh ids (duplicates
  included), and let the gateway, in any interleaving of its requests, channel and sends, accept
  every batch and store what it queued. Let any number of aggregators read that topic concurrently, in any
  orderly run: messages, idle ticks, flushes, rebalances, replays from checkpoints, stale writers and
  crashes interleave, while writes of live workers commit and no idle tick passes records a worker has not
  read. Whenever every partition's stored watermark has passed the windows of its records, the
  reconciliation accepts the tables: every expected cell is there with exactly the generator's event and
  user counts, and no other. The topic must be at most thirty seconds out of order, pseudonyms must
  not collide, and the generated times must be within range.\<close>

theorem zero_drift:
  assumes "duration_trunc_spec trunc" and "list_all draw_ok (concat dss)"
    and "distinct (map d_uuid (concat dss))" and "length (concat dss) < 2 ^ 63"
    and "generate_batches trunc dss [] = Inr (truth, outs)"
    and "channel_spec try_send queue alive cap" and "recv_spec recv queue alive" and "fresh_gateway queue alive gw"
    and "ingest_run lib try_send recv part gw s" and "took_all queue outs s"
    and "json_round_trip decode lib (pseud_event lib (gs_salt gw) ` set (concat outs))"
    and "inj_on (pseudonymize lib (gs_salt gw)) (ev_user ` set (concat outs))" and "finite (range part)"
    and "orderly_run decode trunc hll_on (partition_raw (ig_topic s)) \<sigma>"
    and "\<forall>p. within_lateness (decoded_log decode (partition_raw (ig_topic s) p))"
    and "\<forall>p. \<forall>r \<in> set (decoded_log decode (partition_raw (ig_topic s) p)).
           \<exists>pp. map_of (partition_progress (sys_db \<sigma>)) p = Some pp \<and> window_end (rec_window r) \<le> pp_flushed_watermark pp"
  shows "reconcile True (into_truth truth) (sys_db \<sigma>) = Inr Pass"
proof -
  let ?es = "draw_events (concat dss)" and ?lg = "\<lambda>p. decoded_log decode (partition_raw (ig_topic s) p)" and ?db = "sys_db \<sigma>"
  obtain truth: "truth_of truth ?es" and out: "set (concat outs) = set ?es"
    using generate_batches_truth [OF assms(1,2)] assms(5) by (metis Inr_inject prod.inject)
  have "list_all (\<lambda>e. in_i64 (ev_ts e)) (concat outs)"
    using assms(2) out by (auto simp: draw_events_def draw_ok_def list_all_iff)
  note t = ingest_topic_holds [OF assms(6-11) this subset_refl]
  have ok: "log_ok (?lg p)" for p by (rule raw_ok_log_ok [OF t(1)])
  have "db_inv hll_on ?lg ?db" using reachable_inv [OF orderly_reachable [OF assms(14)] assms(1) t(1)] by blast
  then have al: "al_inv (agg_cells ?db)" by (simp add: db_inv_def db_ok_def)
  have late: "within_lateness (?lg p)" for p using assms(15) by blast
  have flushed: "\<exists>pp. map_of (partition_progress ?db) p = Some pp \<and> window_end w \<le> pp_flushed_watermark pp"
    if "in_window w (?lg p) \<noteq> []" for w p
    using assms(16) that by (fastforce simp: in_window_def filter_empty_conv)
  note rows = orderly_topic_rows [OF assms(14,1) t(1) late t(2) flushed]
  note rbp = flushed_rows_by_partition [OF rows al ok]
  note ids = draw_ids [OF assms(3)]
  note tot = partition_totals [OF t(2) finite_set assms(13) ids(2) [folded out] assms(12)]
  show ?thesis
  proof (rule reconcile_agrees [OF rbp assms(13) _ _ _ truth])
    fix w k
    show "(\<Sum>p \<in> range part. true_events k (in_window w (?lg p))) = length (hits (w, k) ?es)"
      unfolding tot(1) out using hits_card [OF ids(1), of "(w, k)"] by simp
    have "(\<Sum>p \<in> range part. card (true_users k (in_window w (?lg p)))) = card (\<Union>p \<in> range part. true_users k (in_window w (?lg p)))"
      using tot(3) assms(13) by (intro card_UN_disjoint [symmetric]) (auto simp: true_users_def)
    then show "(\<Sum>p \<in> range part. card (true_users k (in_window w (?lg p)))) = card (ev_user ` set (hits (w, k) ?es))"
      unfolding tot(2) out using hits_card [OF ids(1), of "(w, k)"] by simp
    show "map_of (agg_cells ?db) (w, k, p) = None" if "p \<in> range part" "true_events k (in_window w (?lg p)) = 0" for p
      using that no_cell_when_zero by (auto simp: rows full_row_def split: option.splits)
  qed (use assms(4) in \<open>simp_all add: draw_events_def\<close>)
qed

theorem zero_drift_witness:
  "\<exists>truth outs s \<sigma>. generate_batches floor_trunc [[demo_draw 1 1 True], [demo_draw 2 2 False]] [] = Inr (truth, outs) \<and>
     map length outs = [2, 1] \<and> ingest_run demo_crypto demo_send demo_recv (\<lambda>_. 0) demo_gateway s \<and> took_all fst outs s \<and>
     orderly_run (demo_unjson demo_generated_stored) floor_trunc False (partition_raw (ig_topic s)) \<sigma> \<and>
     reconcile True (into_truth truth) (sys_db \<sigma>) = Inr Pass"
proof -
  let ?dss = "[[demo_draw 1 1 True], [demo_draw 2 2 False]]" and ?dec = "demo_unjson demo_generated_stored"
  have d: "list_all draw_ok (concat ?dss)" by (simp add: draw_ok_def demo_event_of_draw in_i64_def seconds_def)
  have u: "distinct (map d_uuid (concat ?dss))" "length (concat ?dss) < 2 ^ 63" by (simp_all add: demo_draw_def)
  from generate_batches_truth [OF floor_trunc_spec d] obtain truth outs
    where g: "generate_batches floor_trunc ?dss [] = Inr (truth, outs)" .
  have "d_dup (demo_draw i n dup) = dup" for i n dup by (simp add: demo_draw_def)
  with g have outs: "outs = demo_generated_batches"
    by (auto simp: demo_generated_batches_def demo_generated_def demo_event_of_draw split: sum.splits prod.splits)
  obtain s where s: "ingest_run demo_crypto demo_send demo_recv (\<lambda>_. 0) demo_gateway s" "took_all fst demo_generated_batches s"
    and topic: "ig_topic s = demo_generated_topic" using demo_generated_ingested by blast
  obtain \<sigma> where run: "orderly_run ?dec floor_trunc False (partition_raw demo_generated_topic) \<sigma>"
    and prog: "partition_progress (sys_db \<sigma>) = [(0, \<lparr>pp_committed_offset = 3, pp_flushed_watermark = seconds 8970\<rparr>)]"
    by (rule demo_generated_orderly)
  have fin: "finite (range (\<lambda>_ :: string. 0 :: i32))" by simp
  have late: "\<forall>p. within_lateness (decoded_log ?dec (partition_raw (ig_topic s) p))"
    by (simp add: topic demo_generated_log(1))
  have passed: "\<forall>p. \<forall>r \<in> set (decoded_log ?dec (partition_raw (ig_topic s) p)).
      \<exists>pp. map_of (partition_progress (sys_db \<sigma>)) p = Some pp \<and> window_end (rec_window r) \<le> pp_flushed_watermark pp"
    using demo_generated_log(2) by (fastforce simp: topic prog)
  from zero_drift [OF floor_trunc_spec d u g [unfolded outs] demo_send_spec demo_recv_spec demo_fresh s demo_generated_json
      demo_generated_pseudonyms fin run [folded topic] late passed]
  show ?thesis using g [unfolded outs] s run [folded topic]
    by (intro exI [of _ truth] exI [of _ demo_generated_batches] exI [of _ s] exI [of _ \<sigma>])
      (simp add: demo_generated_batches_def)
qed

section \<open>Idle partitions and the query API\<close>



end
